(* ===== verification/Prelude.thy ===== *)
theory Prelude
  imports Main "HOL-Library.AList"
begin

text \<open>
  Shared vocabulary of the development: the ECMAScript \<open>Map\<close> with its insertion order,
  results of code that can throw, decimal numerals and the string functions the sources use,
  and the generic contracts (locales) that several components are instances of.
\<close>

named_theorems store_simps \<open>equations that describe what a store holds after an operation\<close>
named_theorems inv_intros \<open>operations that keep a component's invariant\<close>

section \<open>The ECMAScript Map\<close>

text \<open>
  A \<open>Map\<close> is an association list in iteration order: \<open>set\<close> of a held key overwrites in
  place, \<open>set\<close> of a new key appends, \<open>delete\<close> removes. The keys are distinct in every
  reachable map.
\<close>

type_synonym ('k, 'v) js_map = "('k \<times> 'v) list"

abbreviation js_get :: "('k, 'v) js_map \<Rightarrow> 'k \<Rightarrow> 'v option" where
  "js_get m k \<equiv> map_of m k"

abbreviation js_set :: "'k \<Rightarrow> 'v \<Rightarrow> ('k, 'v) js_map \<Rightarrow> ('k, 'v) js_map" where
  "js_set k v m \<equiv> AList.update k v m"

abbreviation js_delete :: "'k \<Rightarrow> ('k, 'v) js_map \<Rightarrow> ('k, 'v) js_map" where
  "js_delete k m \<equiv> AList.delete k m"

abbreviation js_has :: "('k, 'v) js_map \<Rightarrow> 'k \<Rightarrow> bool" where
  "js_has m k \<equiv> map_of m k \<noteq> None"

definition js_ok :: "('k, 'v) js_map \<Rightarrow> bool" where
  "js_ok m \<longleftrightarrow> distinct (map fst m)"

text \<open>
  The loop \<open>for (const [k, v] of m) if (p v) m.delete(k)\<close>: every entry that satisfies
  \<open>p\<close> goes, the others keep their order.
\<close>

definition js_sweep :: "('v \<Rightarrow> bool) \<Rightarrow> ('k, 'v) js_map \<Rightarrow> ('k, 'v) js_map" where
  "js_sweep p m = filter (\<lambda>(k, v). \<not> p v) m"

text \<open>In-place mutation of every value, as a loop over \<open>entries()\<close> does it.\<close>

definition js_map_values :: "('v \<Rightarrow> 'v) \<Rightarrow> ('k, 'v) js_map \<Rightarrow> ('k, 'v) js_map" where
  "js_map_values f m = map (\<lambda>(k, v). (k, f v)) m"

lemma js_ok_Nil [simp]: "js_ok []"
  by (simp add: js_ok_def)

lemma js_ok_set [simp, inv_intros]: "js_ok m \<Longrightarrow> js_ok (js_set k v m)"
  by (simp add: js_ok_def distinct_update)

lemma js_ok_delete [simp, inv_intros]: "js_ok m \<Longrightarrow> js_ok (js_delete k m)"
  by (simp add: js_ok_def distinct_delete)

lemma js_ok_sweep [simp, inv_intros]: "js_ok m \<Longrightarrow> js_ok (js_sweep p m)"
  by (simp add: js_ok_def js_sweep_def distinct_map_filter)

lemma fst_map_values [simp]: "map fst (js_map_values f m) = map fst m"
  by (induction m) (auto simp: js_map_values_def)

lemma js_ok_map_values [simp, inv_intros]: "js_ok (js_map_values f m) = js_ok m"
  by (simp add: js_ok_def)

lemma js_get_set [simp, store_simps]:
  "js_get (js_set k v m) k' = (if k' = k then Some v else js_get m k')"
  by (simp add: update_conv)

lemma js_get_delete [simp, store_simps]:
  "js_get (js_delete k m) k' = (if k' = k then None else js_get m k')"
  by (simp add: delete_conv)

lemma js_get_map_values [simp, store_simps]:
  "js_get (js_map_values f m) k = map_option f (js_get m k)"
  by (induction m) (auto simp: js_map_values_def)

lemma js_get_sweep [store_simps]:
  assumes "js_ok m"
  shows "js_get (js_sweep p m) k =
    (case js_get m k of None \<Rightarrow> None | Some v \<Rightarrow> if p v then None else Some v)"
  using assms
proof (induction m)
  case Nil
  then show ?case by (simp add: js_sweep_def)
next
  case (Cons e m)
  obtain k' v' where e: "e = (k', v')" by fastforce
  from Cons.prems have "js_ok m" and "k' \<notin> fst ` set m" by (auto simp: js_ok_def e)
  then have "js_get m k' = None" by (simp add: map_of_eq_None_iff)
  with Cons.IH [OF \<open>js_ok m\<close>] show ?case
    by (auto simp: js_sweep_def e split: option.splits)
qed

lemma length_sweep_le: "length (js_sweep p m) \<le> length m"
  by (simp add: js_sweep_def)

lemma length_js_set: "length (js_set k v m) = (if js_has m k then length m else Suc (length m))"
  by (induction m) auto

lemma js_set_new: "js_get m k = None \<Longrightarrow> js_set k v m = m @ [(k, v)]"
  by (induction m) (auto split: if_splits)

lemma length_js_delete_less: "js_get m k = Some v \<Longrightarrow> length (js_delete k m) < length m"
  by (auto simp: AList.delete_eq dest: map_of_SomeD intro!: length_filter_less)

lemma length_filter_update:
  "i < length xs \<Longrightarrow> length (filter P (xs[i := y])) + (if P (xs ! i) then 1 else 0)
     = length (filter P xs) + (if P y then 1 else 0)"
proof (induction xs arbitrary: i)
  case (Cons x xs)
  then show ?case
    by (cases i) auto
qed simp

lemma js_get_in_set: "js_get m k = Some v \<Longrightarrow> (k, v) \<in> set m"
  by (rule map_of_SomeD)

section \<open>The contract of a keyed store\<close>

text \<open>
  What the in-memory stores rely on of the map that holds their records.
\<close>

locale keyed_store =
  fixes lookup :: "'m \<Rightarrow> 'k \<Rightarrow> 'v option"
    and store :: "'k \<Rightarrow> 'v \<Rightarrow> 'm \<Rightarrow> 'm"
    and remove :: "'k \<Rightarrow> 'm \<Rightarrow> 'm"
    and wf :: "'m \<Rightarrow> bool"
  assumes lookup_store: "wf m \<Longrightarrow> lookup (store k v m) k' = (if k' = k then Some v else lookup m k')"
    and lookup_remove: "wf m \<Longrightarrow> lookup (remove k m) k' = (if k' = k then None else lookup m k')"
    and wf_store: "wf m \<Longrightarrow> wf (store k v m)"
    and wf_remove: "wf m \<Longrightarrow> wf (remove k m)"
begin

lemma store_read_back: "wf m \<Longrightarrow> lookup (store k v m) k = Some v"
  by (simp add: lookup_store)

lemma last_store_wins: "wf m \<Longrightarrow> lookup (store k w (store k v m)) k' = lookup (store k w m) k'"
  by (simp add: lookup_store wf_store)

lemma reinsert_lookup: "wf m \<Longrightarrow> lookup m k = Some v \<Longrightarrow> lookup (store k v (remove k m)) k' = lookup m k'"
  by (simp add: lookup_store lookup_remove wf_remove)

end

interpretation js: keyed_store "map_of" "AList.update" "AList.delete" js_ok
  by unfold_locales (simp_all add: update_conv delete_conv)

section \<open>Invariants of runs\<close>

text \<open>
  A component whose operations are steps \<open>'e \<Rightarrow> 's \<Rightarrow> 's\<close>: what one step keeps, every
  sequence of steps keeps.
\<close>

locale step_invariant =
  fixes step :: "'e \<Rightarrow> 's \<Rightarrow> 's"
    and inv :: "'s \<Rightarrow> bool"
  assumes step_keeps: "inv s \<Longrightarrow> inv (step e s)"
begin

lemma run_keeps: "inv s \<Longrightarrow> inv (fold step es s)"
  by (induction es arbitrary: s) (simp_all add: step_keeps)

end

text \<open>The same for a step relation, where the environment chooses.\<close>

locale rel_invariant =
  fixes trans :: "'s \<Rightarrow> 's \<Rightarrow> bool"
    and inv :: "'s \<Rightarrow> bool"
  assumes trans_keeps: "trans s t \<Longrightarrow> inv s \<Longrightarrow> inv t"
begin

lemma reach_keeps: "trans\<^sup>*\<^sup>* s t \<Longrightarrow> inv s \<Longrightarrow> inv t"
  by (induction rule: rtranclp_induct) (auto intro: trans_keeps)

end

end
