(* ===== verification/Token_Store.thy ===== *)
theory Token_Store
  imports Prelude
begin

text \<open>
  The in-memory refresh-token store of \<open>src/auth/token-store.ts\<close>: rotation, revocation of a
  token, of a rotation family and of a user, and expiry. Every operation takes the reading
  of \<open>Date.now()\<close> it makes. The contract the authentication service relies on is the locale
  \<open>refresh_store\<close>, interpreted at the end on the definitions below.
\<close>

section \<open>State\<close>

datatype refresh_token_state = Active | Rotated | Revoked

record refresh_token_record =
  rt_userId :: string
  rt_familyId :: string
  rt_state :: refresh_token_state
  rt_expiresAt :: int

record new_refresh_token =
  nt_token :: string
  nt_userId :: string
  nt_familyId :: string
  nt_expiresAt :: int

datatype consumption =
    CRotated string string
  | CReuse string string
  | CRevoked string string
  | CUnknown

record token_store =
  ts_records :: "(string, refresh_token_record) js_map"
  ts_lastPrunedAt :: int

definition PRUNE_INTERVAL_MS :: int where
  "PRUNE_INTERVAL_MS = 60000"

definition createInMemoryTokenStore :: "int \<Rightarrow> token_store" where
  "createInMemoryTokenStore now = \<lparr>ts_records = [], ts_lastPrunedAt = now\<rparr>"

section \<open>Operations\<close>

definition live :: "string \<Rightarrow> int \<Rightarrow> token_store \<Rightarrow> token_store \<times> refresh_token_record option" where
  "live token now s =
     (case js_get (ts_records s) token of
        None \<Rightarrow> (s, None)
      | Some r \<Rightarrow>
          if rt_expiresAt r \<le> now
          then (s\<lparr>ts_records := js_delete token (ts_records s)\<rparr>, None)
          else (s, Some r))"

definition prune :: "int \<Rightarrow> token_store \<Rightarrow> token_store \<times> nat" where
  "prune now s =
     (let expired = (\<lambda>r. rt_expiresAt r \<le> now) in
      (s\<lparr>ts_records := js_sweep expired (ts_records s), ts_lastPrunedAt := now\<rparr>,
       length (filter (\<lambda>(t, r). expired r) (ts_records s))))"

definition issue :: "new_refresh_token \<Rightarrow> int \<Rightarrow> token_store \<Rightarrow> token_store" where
  "issue n now s =
     (let s1 = (if now - ts_lastPrunedAt s \<ge> PRUNE_INTERVAL_MS then fst (prune now s) else s) in
      s1\<lparr>ts_records := js_set (nt_token n)
           \<lparr>rt_userId = nt_userId n, rt_familyId = nt_familyId n,
            rt_state = Active, rt_expiresAt = nt_expiresAt n\<rparr> (ts_records s1)\<rparr>)"

definition set_state :: "string \<Rightarrow> refresh_token_state \<Rightarrow> refresh_token_record \<Rightarrow> token_store \<Rightarrow> token_store" where
  "set_state token st r s = s\<lparr>ts_records := js_set token (r\<lparr>rt_state := st\<rparr>) (ts_records s)\<rparr>"

definition consume :: "string \<Rightarrow> int \<Rightarrow> token_store \<Rightarrow> token_store \<times> consumption" where
  "consume token now s =
     (case live token now s of
        (s1, None) \<Rightarrow> (s1, CUnknown)
      | (s1, Some r) \<Rightarrow>
          (case rt_state r of
             Rotated \<Rightarrow> (s1, CReuse (rt_userId r) (rt_familyId r))
           | Revoked \<Rightarrow> (s1, CRevoked (rt_userId r) (rt_familyId r))
           | Active \<Rightarrow> (set_state token Rotated r s1, CRotated (rt_userId r) (rt_familyId r))))"

definition revoke :: "string \<Rightarrow> int \<Rightarrow> token_store \<Rightarrow> token_store" where
  "revoke token now s =
     (case live token now s of
        (s1, None) \<Rightarrow> s1
      | (s1, Some r) \<Rightarrow> set_state token Revoked r s1)"

text \<open>
  The loop shared by \<open>revokeFamily\<close> and \<open>revokeAllForUser\<close>: over the entries \<open>sel\<close>
  selects, expired ones are dropped and the others end \<open>revoked\<close>; the count is of the
  entries whose state changed.
\<close>

fun revoke_entries ::
  "(refresh_token_record \<Rightarrow> bool) \<Rightarrow> int \<Rightarrow> (string, refresh_token_record) js_map
   \<Rightarrow> (string, refresh_token_record) js_map \<times> nat" where
  "revoke_entries sel now [] = ([], 0)"
| "revoke_entries sel now ((t, r) # rs) =
     (case revoke_entries sel now rs of (rs', n) \<Rightarrow>
        if \<not> sel r then ((t, r) # rs', n)
        else if rt_expiresAt r \<le> now then (rs', n)
        else if rt_state r \<noteq> Revoked then ((t, r\<lparr>rt_state := Revoked\<rparr>) # rs', Suc n)
        else ((t, r) # rs', n))"

definition revokeFamily :: "string \<Rightarrow> int \<Rightarrow> token_store \<Rightarrow> token_store \<times> nat" where
  "revokeFamily fam now s =
     (case revoke_entries (\<lambda>r. rt_familyId r = fam) now (ts_records s) of
        (rs, n) \<Rightarrow> (s\<lparr>ts_records := rs\<rparr>, n))"

definition revokeAllForUser :: "string \<Rightarrow> int \<Rightarrow> token_store \<Rightarrow> token_store" where
  "revokeAllForUser uid now s =
     s\<lparr>ts_records := fst (revoke_entries (\<lambda>r. rt_userId r = uid) now (ts_records s))\<rparr>"

definition isActive :: "string \<Rightarrow> int \<Rightarrow> token_store \<Rightarrow> token_store \<times> bool" where
  "isActive token now s =
     (case live token now s of (s1, r) \<Rightarrow> (s1, map_option rt_state r = Some Active))"

definition store_size :: "token_store \<Rightarrow> nat" where
  "store_size s = length (ts_records s)"

section \<open>What a caller can observe\<close>

text \<open>
  Expired records are invisible. \<open>view now s\<close> is the store as a caller sees it at \<open>now\<close>;
  the rest of this section describes every operation by its effect on the view.
\<close>

definition unexpired :: "int \<Rightarrow> refresh_token_record option \<Rightarrow> refresh_token_record option" where
  "unexpired now ro = (case ro of None \<Rightarrow> None | Some r \<Rightarrow> if rt_expiresAt r \<le> now then None else Some r)"

definition view :: "int \<Rightarrow> token_store \<Rightarrow> string \<Rightarrow> refresh_token_record option" where
  "view now s t = unexpired now (js_get (ts_records s) t)"

definition store_ok :: "token_store \<Rightarrow> bool" where
  "store_ok s \<longleftrightarrow> js_ok (ts_records s)"

definition outcome_of :: "refresh_token_record option \<Rightarrow> consumption" where
  "outcome_of ro =
     (case ro of None \<Rightarrow> CUnknown
      | Some r \<Rightarrow> (case rt_state r of
          Active \<Rightarrow> CRotated (rt_userId r) (rt_familyId r)
        | Rotated \<Rightarrow> CReuse (rt_userId r) (rt_familyId r)
        | Revoked \<Rightarrow> CRevoked (rt_userId r) (rt_familyId r)))"

definition retire :: "refresh_token_record \<Rightarrow> refresh_token_record" where
  "retire r = (if rt_state r = Active then r\<lparr>rt_state := Rotated\<rparr> else r)"

lemmas view_defs = view_def unexpired_def

lemma unexpired_later:
  "now \<le> now' \<Longrightarrow> unexpired now' ro = Some r \<Longrightarrow> unexpired now ro = Some r"
  by (auto simp: unexpired_def split: option.splits if_splits)

lemma view_later: "now \<le> now' \<Longrightarrow> view now' s t = Some r \<Longrightarrow> view now s t = Some r"
  unfolding view_def by (rule unexpired_later)

lemma fst_revoke_entries:
  "fst (revoke_entries sel now rs) =
     js_map_values (\<lambda>r. if sel r then r\<lparr>rt_state := Revoked\<rparr> else r)
       (js_sweep (\<lambda>r. sel r \<and> rt_expiresAt r \<le> now) rs)"
  by (induction sel now rs rule: revoke_entries.induct)
     (auto simp: js_map_values_def js_sweep_def split: prod.splits)

lemma snd_revoke_entries:
  "snd (revoke_entries sel now rs) =
     length (filter (\<lambda>(t, r). sel r \<and> now < rt_expiresAt r \<and> rt_state r \<noteq> Revoked) rs)"
  by (induction sel now rs rule: revoke_entries.induct) (auto split: prod.splits)

lemma live_result: "snd (live t now s) = view now s t"
  by (auto simp: live_def view_defs split: option.splits)

lemma live_ok [inv_intros]: "store_ok s \<Longrightarrow> store_ok (fst (live t now s))"
  by (auto simp: live_def store_ok_def split: option.splits)

lemma live_view: "now \<le> now' \<Longrightarrow> view now' (fst (live t now s)) = view now' s"
  by (rule ext) (auto simp: live_def view_defs split: option.splits)

lemma prune_ok [inv_intros]: "store_ok s \<Longrightarrow> store_ok (fst (prune now s))"
  by (simp add: prune_def Let_def store_ok_def)

lemma prune_view: "store_ok s \<Longrightarrow> now \<le> now' \<Longrightarrow> view now' (fst (prune now s)) = view now' s"
  by (rule ext)
     (auto simp: prune_def Let_def view_defs store_ok_def js_get_sweep split: option.splits)

lemma issue_ok [inv_intros]: "store_ok s \<Longrightarrow> store_ok (issue n now s)"
  using prune_ok [of s now] by (simp add: issue_def Let_def store_ok_def)

definition issued :: "new_refresh_token \<Rightarrow> refresh_token_record" where
  "issued n = \<lparr>rt_userId = nt_userId n, rt_familyId = nt_familyId n,
               rt_state = Active, rt_expiresAt = nt_expiresAt n\<rparr>"

lemma issue_view:
  assumes "store_ok s" and "now \<le> now'"
  shows "view now' (issue n now s) = (view now' s)(nt_token n := unexpired now' (Some (issued n)))"
proof -
  let ?s1 = "if now - ts_lastPrunedAt s \<ge> PRUNE_INTERVAL_MS then fst (prune now s) else s"
  have "view now' ?s1 = view now' s" using assms by (simp add: prune_view)
  moreover have "issue n now s = ?s1\<lparr>ts_records := js_set (nt_token n) (issued n) (ts_records ?s1)\<rparr>"
    by (simp add: issue_def Let_def issued_def)
  ultimately show ?thesis by (auto simp: view_defs fun_eq_iff)
qed

lemma consume_outcome: "snd (consume t now s) = outcome_of (view now s t)"
proof -
  obtain s1 ro where l: "live t now s = (s1, ro)" by fastforce
  then have "ro = view now s t" using live_result [of t now s] by simp
  with l show ?thesis
    by (auto simp: consume_def outcome_of_def split: option.splits refresh_token_state.splits)
qed

lemma consume_ok [inv_intros]: "store_ok s \<Longrightarrow> store_ok (fst (consume t now s))"
  using live_ok [of s t now]
  by (auto simp: consume_def set_state_def store_ok_def
      split: option.splits prod.splits refresh_token_state.splits)

lemma live_Some: "live t now s = (s1, Some r) \<Longrightarrow> s1 = s \<and> js_get (ts_records s) t = Some r"
  by (auto simp: live_def split: option.splits if_splits)

lemma set_state_view:
  assumes "live t now s = (s1, Some r)"
  shows "view now' (set_state t st r s1) = (view now' s)(t := map_option (\<lambda>r. r\<lparr>rt_state := st\<rparr>) (view now' s t))"
  using live_Some [OF assms] by (auto simp: set_state_def view_defs fun_eq_iff)

lemma consume_view:
  assumes "now \<le> now'"
  shows "view now' (fst (consume t now s)) = (view now' s)(t := map_option retire (view now' s t))"
proof (cases "live t now s")
  case (Pair s1 ro)
  have v: "view now' s1 = view now' s" using live_view [OF assms, of t s] Pair by simp
  have ro: "ro = view now s t" using live_result [of t now s] Pair by simp
  show ?thesis
  proof (cases ro)
    case None
    then have "view now' s t = None" using ro view_later [OF assms, of s t] by (metis not_Some_eq)
    then show ?thesis using None Pair v by (simp add: consume_def fun_upd_idem)
  next
    case (Some r)
    then have l: "live t now s = (s1, Some r)" using Pair by simp
    have same: "view now' s t = None \<or> view now' s t = Some r"
      using view_later [OF assms, of s t] ro Some by (cases "view now' s t") auto
    show ?thesis
    proof (cases "rt_state r")
      case Active
      then have "fst (consume t now s) = set_state t Rotated r s1" using l by (simp add: consume_def)
      then show ?thesis using set_state_view [OF l] same Active by (auto simp: retire_def)
    next
      case Rotated
      then show ?thesis using l v same by (auto simp: consume_def retire_def fun_eq_iff)
    next
      case Revoked
      then show ?thesis using l v same by (auto simp: consume_def retire_def fun_eq_iff)
    qed
  qed
qed

lemma revoke_ok [inv_intros]: "store_ok s \<Longrightarrow> store_ok (revoke t now s)"
  using live_ok [of s t now]
  by (auto simp: revoke_def set_state_def store_ok_def split: option.splits prod.splits)

lemma revoke_view:
  assumes "now \<le> now'"
  shows "view now' (revoke t now s) = (view now' s)(t := map_option (\<lambda>r. r\<lparr>rt_state := Revoked\<rparr>) (view now' s t))"
proof (cases "live t now s")
  case (Pair s1 ro)
  have v: "view now' s1 = view now' s" using live_view [OF assms, of t s] Pair by simp
  show ?thesis
  proof (cases ro)
    case None
    then have "view now s t = None" using live_result [of t now s] Pair by simp
    then have "view now' s t = None" using view_later [OF assms, of s t] by (metis not_Some_eq)
    then show ?thesis using None Pair v by (simp add: revoke_def fun_upd_idem)
  next
    case (Some r)
    with Pair show ?thesis using set_state_view [of t now s s1 r now' Revoked] by (simp add: revoke_def)
  qed
qed

definition revoke_if :: "(refresh_token_record \<Rightarrow> bool) \<Rightarrow> refresh_token_record \<Rightarrow> refresh_token_record" where
  "revoke_if sel r = (if sel r then r\<lparr>rt_state := Revoked\<rparr> else r)"

lemma revoke_entries_ok: "js_ok rs \<Longrightarrow> js_ok (fst (revoke_entries sel now rs))"
  by (simp add: fst_revoke_entries)

lemma revoke_entries_view:
  assumes "js_ok rs" and "now \<le> now'"
  shows "unexpired now' (js_get (fst (revoke_entries sel now rs)) t) =
         map_option (revoke_if sel) (unexpired now' (js_get rs t))"
  using assms
  by (auto simp: fst_revoke_entries js_get_sweep unexpired_def revoke_if_def split: option.splits)

lemma revokeFamily_ok [inv_intros]: "store_ok s \<Longrightarrow> store_ok (fst (revokeFamily f now s))"
  using revoke_entries_ok [of "ts_records s" "\<lambda>r. rt_familyId r = f" now]
  by (auto simp: revokeFamily_def store_ok_def split: prod.splits)

lemma revokeFamily_view:
  assumes "store_ok s" and "now \<le> now'"
  shows "view now' (fst (revokeFamily f now s)) t = map_option (revoke_if (\<lambda>r. rt_familyId r = f)) (view now' s t)"
  using revoke_entries_view [of "ts_records s" now now' "\<lambda>r. rt_familyId r = f" t] assms
  by (auto simp: revokeFamily_def view_def store_ok_def split: prod.splits)

lemma revokeAllForUser_ok [inv_intros]: "store_ok s \<Longrightarrow> store_ok (revokeAllForUser u now s)"
  by (simp add: revokeAllForUser_def store_ok_def revoke_entries_ok)

lemma revokeAllForUser_view:
  assumes "store_ok s" and "now \<le> now'"
  shows "view now' (revokeAllForUser u now s) t = map_option (revoke_if (\<lambda>r. rt_userId r = u)) (view now' s t)"
  using revoke_entries_view [of "ts_records s" now now' "\<lambda>r. rt_userId r = u" t] assms
  by (auto simp: revokeAllForUser_def view_def store_ok_def)

section \<open>The interface RefreshTokenStore\<close>

text \<open>
  The interface of \<open>src/auth/auth.types.ts\<close> as a record of operations, and the sequences of
  calls a service makes through it, each with its clock reading.
\<close>

record 's refresh_token_ops =
  op_issue :: "new_refresh_token \<Rightarrow> int \<Rightarrow> 's \<Rightarrow> 's"
  op_consume :: "string \<Rightarrow> int \<Rightarrow> 's \<Rightarrow> 's \<times> consumption"
  op_revoke :: "string \<Rightarrow> int \<Rightarrow> 's \<Rightarrow> 's"
  op_revokeFamily :: "string \<Rightarrow> int \<Rightarrow> 's \<Rightarrow> 's \<times> nat"
  op_revokeAllForUser :: "string \<Rightarrow> int \<Rightarrow> 's \<Rightarrow> 's"
  op_isActive :: "string \<Rightarrow> int \<Rightarrow> 's \<Rightarrow> 's \<times> bool"

definition memory_ops :: "token_store refresh_token_ops" where
  "memory_ops = \<lparr>op_issue = issue, op_consume = consume, op_revoke = revoke,
     op_revokeFamily = revokeFamily, op_revokeAllForUser = revokeAllForUser, op_isActive = isActive\<rparr>"

datatype store_call =
    Issue new_refresh_token
  | Consume string
  | Revoke string
  | RevokeFamily string
  | RevokeAllForUser string
  | IsActive string

fun call_step :: "'s refresh_token_ops \<Rightarrow> store_call \<times> int \<Rightarrow> 's \<Rightarrow> 's" where
  "call_step ops (Issue n, now) s = op_issue ops n now s"
| "call_step ops (Consume t, now) s = fst (op_consume ops t now s)"
| "call_step ops (Revoke t, now) s = op_revoke ops t now s"
| "call_step ops (RevokeFamily f, now) s = fst (op_revokeFamily ops f now s)"
| "call_step ops (RevokeAllForUser u, now) s = op_revokeAllForUser ops u now s"
| "call_step ops (IsActive t, now) s = fst (op_isActive ops t now s)"

text \<open>What the \<open>consume\<close> calls of a sequence answered, in order.\<close>

fun consumptions :: "'s refresh_token_ops \<Rightarrow> (store_call \<times> int) list \<Rightarrow> 's \<Rightarrow> (string \<times> consumption) list" where
  "consumptions ops [] s = []"
| "consumptions ops (c # cs) s =
     (case c of
        (Consume t, now) \<Rightarrow> (t, snd (op_consume ops t now s)) # consumptions ops cs (call_step ops c s)
      | _ \<Rightarrow> consumptions ops cs (call_step ops c s))"

fun is_rotated :: "consumption \<Rightarrow> bool" where
  "is_rotated (CRotated u f) = True"
| "is_rotated _ = False"

fun family_of :: "consumption \<Rightarrow> string option" where
  "family_of (CRotated u f) = Some f"
| "family_of (CReuse u f) = Some f"
| "family_of (CRevoked u f) = Some f"
| "family_of CUnknown = None"

fun is_revoked :: "consumption \<Rightarrow> bool" where
  "is_revoked (CRevoked u f) = True"
| "is_revoked _ = False"

fun issues_token :: "string \<Rightarrow> store_call \<times> int \<Rightarrow> bool" where
  "issues_token t (Issue n, now) = (nt_token n = t)"
| "issues_token t _ = False"

fun issues_into :: "string \<Rightarrow> store_call \<times> int \<Rightarrow> bool" where
  "issues_into f (Issue n, now) = (nt_familyId n = f)"
| "issues_into f _ = False"

lemma retire_fields [simp]:
  "rt_state (retire r) \<noteq> Active" "rt_familyId (retire r) = rt_familyId r"
  "rt_state (retire r) = Revoked \<longleftrightarrow> rt_state r = Revoked"
  by (auto simp: retire_def)

lemma revoke_if_fields [simp]:
  "rt_state (revoke_if sel r) = (if sel r then Revoked else rt_state r)"
  "rt_familyId (revoke_if sel r) = rt_familyId r" "rt_userId (revoke_if sel r) = rt_userId r"
  by (auto simp: revoke_if_def)

lemma issued_fields [simp]: "rt_familyId (issued n) = nt_familyId n"
  by (simp add: issued_def)

lemma unexpired_Some: "unexpired now (Some r) = Some r' \<Longrightarrow> r' = r"
  by (auto simp: unexpired_def split: if_splits)

text \<open>
  The contract: every operation by its effect on what a caller can see, for every reading of
  the clock from the call on.
\<close>

locale refresh_store =
  fixes vw :: "int \<Rightarrow> 's \<Rightarrow> string \<Rightarrow> refresh_token_record option"
    and ok :: "'s \<Rightarrow> bool"
    and ops :: "'s refresh_token_ops"
  assumes vw_later: "now \<le> now' \<Longrightarrow> vw now' s t = Some r \<Longrightarrow> vw now s t = Some r"
    and consume_out: "snd (op_consume ops t now s) = outcome_of (vw now s t)"
    and consume_vw: "ok s \<Longrightarrow> now \<le> now' \<Longrightarrow>
      vw now' (fst (op_consume ops t now s)) = (vw now' s)(t := map_option retire (vw now' s t))"
    and issue_vw: "ok s \<Longrightarrow> now \<le> now' \<Longrightarrow>
      vw now' (op_issue ops n now s) = (vw now' s)(nt_token n := unexpired now' (Some (issued n)))"
    and revoke_vw: "ok s \<Longrightarrow> now \<le> now' \<Longrightarrow>
      vw now' (op_revoke ops t now s) =
        (vw now' s)(t := map_option (\<lambda>r. r\<lparr>rt_state := Revoked\<rparr>) (vw now' s t))"
    and family_vw: "ok s \<Longrightarrow> now \<le> now' \<Longrightarrow>
      vw now' (fst (op_revokeFamily ops f now s)) t =
        map_option (revoke_if (\<lambda>r. rt_familyId r = f)) (vw now' s t)"
    and user_vw: "ok s \<Longrightarrow> now \<le> now' \<Longrightarrow>
      vw now' (op_revokeAllForUser ops u now s) t =
        map_option (revoke_if (\<lambda>r. rt_userId r = u)) (vw now' s t)"
    and active_vw: "ok s \<Longrightarrow> now \<le> now' \<Longrightarrow> vw now' (fst (op_isActive ops t now s)) = vw now' s"
    and call_ok: "ok s \<Longrightarrow> ok (call_step ops c s)"
begin

lemma not_active_step:
  assumes "ok s" and "\<not> issues_token t (c, now)" and "now \<le> now'"
    and "\<And>r. vw now' s t = Some r \<Longrightarrow> rt_state r \<noteq> Active"
    and "vw now' (call_step ops (c, now) s) t = Some r"
  shows "rt_state r \<noteq> Active"
  using assms
  by (cases c)
     (auto simp: consume_vw issue_vw revoke_vw family_vw user_vw active_vw split: if_splits)

lemma no_rotation_when_not_active:
  assumes "ok s" and "\<forall>c \<in> set cs. \<not> issues_token t c" and "sorted (now # map snd cs)"
    and "\<And>r. vw now s t = Some r \<Longrightarrow> rt_state r \<noteq> Active"
  shows "\<forall>(t', out) \<in> set (consumptions ops cs s). t' = t \<longrightarrow> \<not> is_rotated out"
  using assms
proof (induction cs arbitrary: s now)
  case Nil
  then show ?case by simp
next
  case (Cons c cs)
  obtain k n where c: "c = (k, n)" by fastforce
  have le: "now \<le> n" and srt: "sorted (n # map snd cs)" using Cons.prems(3) by (auto simp: c)
  have here: "rt_state r \<noteq> Active" if "vw n s t = Some r" for r
    using vw_later [OF le that] Cons.prems(4) by blast
  have "rt_state r \<noteq> Active" if "vw n (call_step ops (k, n) s) t = Some r" for r
    using not_active_step [OF Cons.prems(1) _ order_refl here that] Cons.prems(2) by (auto simp: c)
  then have rest: "\<forall>(t', out) \<in> set (consumptions ops cs (call_step ops c s)). t' = t \<longrightarrow> \<not> is_rotated out"
    using Cons.IH [of "call_step ops c s" n] Cons.prems(1,2) srt by (auto simp: c call_ok)
  have "\<not> is_rotated (outcome_of (vw n s t))"
    using here by (auto simp: outcome_of_def split: option.splits refresh_token_state.splits)
  then show ?case using rest by (auto simp: c consume_out split: store_call.splits)
qed

lemma rotated_once:
  assumes "ok s" and "\<forall>c \<in> set cs. \<not> issues_token t c" and "sorted (map snd cs)"
  shows "length (filter (\<lambda>(t', out). t' = t \<and> is_rotated out) (consumptions ops cs s)) \<le> 1"
  using assms
proof (induction cs arbitrary: s)
  case Nil
  then show ?case by simp
next
  case (Cons c cs)
  obtain k n where c: "c = (k, n)" by fastforce
  have IH: "length (filter (\<lambda>(t', out). t' = t \<and> is_rotated out) (consumptions ops cs (call_step ops c s))) \<le> 1"
    using Cons.IH Cons.prems by (simp add: call_ok)
  show ?case
  proof (cases "k = Consume t")
    case False
    then show ?thesis using IH by (auto simp: c split: store_call.splits)
  next
    case True
    have "rt_state r \<noteq> Active" if "vw n (call_step ops c s) t = Some r" for r
      using that Cons.prems(1) True by (auto simp: c consume_vw)
    then have "\<forall>(t', out) \<in> set (consumptions ops cs (call_step ops c s)). t' = t \<longrightarrow> \<not> is_rotated out"
      using no_rotation_when_not_active [of "call_step ops c s" cs t n] Cons.prems by (auto simp: c call_ok)
    then have "filter (\<lambda>(t', out). t' = t \<and> is_rotated out) (consumptions ops cs (call_step ops c s)) = []"
      by (auto simp: filter_empty_conv)
    then show ?thesis using True by (simp add: c)
  qed
qed

lemma dead_step:
  assumes "ok s" and "\<not> issues_into f (c, now)" and "now \<le> now'"
    and "\<And>t r. vw now' s t = Some r \<Longrightarrow> rt_familyId r = f \<Longrightarrow> rt_state r = Revoked"
    and "vw now' (call_step ops (c, now) s) t = Some r" and "rt_familyId r = f"
  shows "rt_state r = Revoked"
  using assms
  by (cases c)
     (auto simp: consume_vw issue_vw revoke_vw family_vw user_vw active_vw
        dest: unexpired_Some split: if_splits)

lemma dead_family_stays_dead:
  assumes "ok s" and "\<forall>c \<in> set cs. \<not> issues_into f c" and "sorted (now # map snd cs)"
    and "\<And>t r. vw now s t = Some r \<Longrightarrow> rt_familyId r = f \<Longrightarrow> rt_state r = Revoked"
  shows "\<forall>(t, out) \<in> set (consumptions ops cs s). family_of out = Some f \<longrightarrow> is_revoked out"
  using assms
proof (induction cs arbitrary: s now)
  case Nil
  then show ?case by simp
next
  case (Cons c cs)
  obtain k n where c: "c = (k, n)" by fastforce
  have le: "now \<le> n" and srt: "sorted (n # map snd cs)" using Cons.prems(3) by (auto simp: c)
  have here: "rt_state r = Revoked" if "vw n s t = Some r" and "rt_familyId r = f" for t r
    using vw_later [OF le that(1)] that(2) Cons.prems(4) by blast
  have "rt_state r = Revoked" if "vw n (call_step ops (k, n) s) t = Some r" and "rt_familyId r = f" for t r
    using dead_step [OF Cons.prems(1) _ order_refl here that] Cons.prems(2) by (auto simp: c)
  then have rest: "\<forall>(t, out) \<in> set (consumptions ops cs (call_step ops c s)). family_of out = Some f \<longrightarrow> is_revoked out"
    using Cons.IH [of "call_step ops c s" n] Cons.prems(1,2) srt by (auto simp: c call_ok)
  have "family_of (outcome_of (vw n s t)) = Some f \<longrightarrow> is_revoked (outcome_of (vw n s t))" for t
    using here by (auto simp: outcome_of_def split: option.splits refresh_token_state.splits)
  then show ?case using rest by (auto simp: c consume_out split: store_call.splits)
qed

lemma family_dead_now:
  assumes "ok s" and v: "vw now (fst (op_revokeFamily ops f now s)) t = Some r" and "rt_familyId r = f"
  shows "rt_state r = Revoked"
proof -
  from v assms(1) obtain z where "r = revoke_if (\<lambda>r. rt_familyId r = f) z"
    by (auto simp: family_vw)
  with assms(3) show ?thesis by simp
qed

lemma revoked_family_is_dead:
  assumes "ok s" and "\<forall>c \<in> set cs. \<not> issues_into f c" and "sorted (now # map snd cs)"
  shows "\<forall>(t, out) \<in> set (consumptions ops cs (fst (op_revokeFamily ops f now s))).
           family_of out = Some f \<longrightarrow> is_revoked out"
proof (rule dead_family_stays_dead [OF _ assms(2,3)])
  show "ok (fst (op_revokeFamily ops f now s))" using call_ok [OF assms(1), of "(RevokeFamily f, now)"] by simp
  show "rt_state r = Revoked"
    if "vw now (fst (op_revokeFamily ops f now s)) t = Some r" and "rt_familyId r = f" for t r
    using family_dead_now [OF assms(1) that] .
qed

lemma call_vw_cong:
  assumes "ok s" and "ok s'" and "vw now' s = vw now' s'" and "now \<le> now'"
  shows "vw now' (call_step ops (c, now) s) = vw now' (call_step ops (c, now) s')"
  using assms
  by (cases c) (auto simp: consume_vw issue_vw revoke_vw family_vw user_vw active_vw fun_eq_iff)

lemma view_determines_answers:
  assumes "ok s" and "ok s'" and "\<And>now'. now \<le> now' \<Longrightarrow> vw now' s = vw now' s'"
    and "sorted (now # map snd cs)"
  shows "consumptions ops cs s = consumptions ops cs s'"
  using assms
proof (induction cs arbitrary: s s' now)
  case Nil
  then show ?case by simp
next
  case (Cons c cs)
  obtain k n where c: "c = (k, n)" by fastforce
  have le: "now \<le> n" and srt: "sorted (n # map snd cs)" using Cons.prems(4) by (auto simp: c)
  have "vw n' (call_step ops c s) = vw n' (call_step ops c s')" if "n \<le> n'" for n'
    using call_vw_cong [OF Cons.prems(1,2) Cons.prems(3) that] le that by (simp add: c)
  then have "consumptions ops cs (call_step ops c s) = consumptions ops cs (call_step ops c s')"
    using Cons.IH [of "call_step ops c s" "call_step ops c s'" n] Cons.prems(1,2) srt by (simp add: call_ok)
  moreover have "vw n s = vw n s'" using Cons.prems(3) [OF le] .
  ultimately show ?case by (auto simp: c consume_out split: store_call.splits)
qed

end

lemma isActive_view: "now \<le> now' \<Longrightarrow> view now' (fst (isActive t now s)) = view now' s"
  using live_view [of now now' t s] by (auto simp: isActive_def split: prod.splits)

lemma isActive_ok [inv_intros]: "store_ok s \<Longrightarrow> store_ok (fst (isActive t now s))"
  using live_ok [of s t now] by (auto simp: isActive_def split: prod.splits)

lemma memory_call_ok: "store_ok s \<Longrightarrow> store_ok (call_step memory_ops c s)"
  by (cases c; cases "fst c") (auto simp: memory_ops_def intro: inv_intros)

interpretation mem: refresh_store view store_ok memory_ops
  by unfold_locales
     (simp_all add: memory_ops_def view_later consume_outcome consume_view issue_view revoke_view
        revokeFamily_view revokeAllForUser_view isActive_view memory_call_ok [unfolded memory_ops_def])

interpretation mem_inv: step_invariant "call_step memory_ops" store_ok
  by unfold_locales (rule memory_call_ok)

text \<open>A store after any history of calls.\<close>

definition store_after :: "int \<Rightarrow> (store_call \<times> int) list \<Rightarrow> token_store" where
  "store_after n0 hist = fold (call_step memory_ops) hist (createInMemoryTokenStore n0)"

lemma store_after_ok: "store_ok (store_after n0 hist)"
  unfolding store_after_def
  by (rule mem_inv.run_keeps) (simp add: createInMemoryTokenStore_def store_ok_def)

section \<open>Properties\<close>

text \<open>
  C2: Whatever happened before and whatever calls follow, as long as the token is not issued
  again, at most one \<open>consume\<close> of it answers \<open>rotated\<close>: two refreshes with one token never
  both win.
\<close>

theorem consume_rotates_at_most_once:
  assumes "\<forall>c \<in> set cs. \<not> issues_token t c" and "sorted (map snd cs)"
  shows "length (filter (\<lambda>(t', out). t' = t \<and> is_rotated out)
           (consumptions memory_ops cs (store_after n0 hist))) \<le> 1"
  by (rule mem.rotated_once [OF store_after_ok assms])

theorem consume_rotates_at_most_once_witness:
  "length (filter (\<lambda>(t', out). t' = ''a'' \<and> is_rotated out)
     (consumptions memory_ops [(Consume ''a'', 5), (Consume ''a'', 6), (RevokeFamily ''f'', 7), (Consume ''a'', 8)]
       (store_after 0 [(Issue \<lparr>nt_token = ''a'', nt_userId = ''u'', nt_familyId = ''f'', nt_expiresAt = 100\<rparr>, 1)]))) = 1"
proof -
  let ?cs = "[(Consume ''a'', 5), (Consume ''a'', 6), (RevokeFamily ''f'', 7), (Consume ''a'', 8)]"
  let ?h = "[(Issue \<lparr>nt_token = ''a'', nt_userId = ''u'', nt_familyId = ''f'', nt_expiresAt = 100\<rparr>, 1)]"
  have "length (filter (\<lambda>(t', out). t' = ''a'' \<and> is_rotated out)
     (consumptions memory_ops ?cs (store_after 0 ?h))) \<le> 1"
    by (rule consume_rotates_at_most_once) simp_all
  moreover have "consumptions memory_ops ?cs (store_after 0 ?h) =
      [(''a'', CRotated ''u'' ''f''), (''a'', CReuse ''u'' ''f''), (''a'', CRevoked ''u'' ''f'')]"
    by code_simp
  ultimately show ?thesis by simp
qed

text \<open>
  Once a family is revoked, and while no new token is issued into it, every later
  \<open>consume\<close> of any of its tokens answers \<open>revoked\<close>: none is rotated and none raises the
  reuse alarm again.
\<close>

lemma revoked_family_is_terminal:
  assumes "\<forall>c \<in> set cs. \<not> issues_into f c" and "sorted (now # map snd cs)"
  shows "\<forall>(t, out) \<in> set (consumptions memory_ops cs (fst (revokeFamily f now (store_after n0 hist)))).
           family_of out = Some f \<longrightarrow> is_revoked out"
  using mem.revoked_family_is_dead [OF store_after_ok assms] by (simp add: memory_ops_def)

text \<open>
  The amortised sweep is unobservable: pruning at \<open>now\<close> changes no answer of any later
  sequence of calls.
\<close>

lemma prune_changes_no_answer:
  assumes "sorted (now # map snd cs)"
  shows "consumptions memory_ops cs (fst (prune now (store_after n0 hist))) =
         consumptions memory_ops cs (store_after n0 hist)"
  using mem.view_determines_answers [OF prune_ok [OF store_after_ok] store_after_ok _ assms]
    prune_view [OF store_after_ok] by blast

end
