(* ===== verification/Auth_Service.thy ===== *)
theory Auth_Service
  imports Token_Store
begin

text \<open>
  The session side of \<open>src/auth/auth.service.ts\<close>: issuing a session, refreshing it, logging
  out. The refresh-token store is the injected record of operations, as in the source. The
  \<open>jsonwebtoken\<close> package is outside the repository: \<open>jwt_verify now t\<close> is the payload
  \<open>jwt.verify\<close> returns (\<open>None\<close> where it throws) and \<open>jwt_sign\<close> is \<open>jwt.sign\<close> with its
  secret, expiry and fresh \<open>jwtid\<close>.
\<close>

section \<open>Tokens\<close>

datatype token_type = Access | Refresh

record jwt_payload =
  jp_userId :: string
  jp_roles :: "string list"
  jp_type :: token_type
  jp_exp :: "int option"

record token_pair =
  accessToken :: string
  refreshToken :: string

datatype auth_error =
    TOKEN_INVALID
  | TOKEN_TYPE_MISMATCH
  | TOKEN_REVOKED
  | TOKEN_MISSING_EXP

fun auth_status :: "auth_error \<Rightarrow> nat" where
  "auth_status TOKEN_INVALID = 401"
| "auth_status TOKEN_TYPE_MISMATCH = 401"
| "auth_status TOKEN_REVOKED = 401"
| "auth_status TOKEN_MISSING_EXP = 500"

type_synonym jwt_verifier = "int \<Rightarrow> string \<Rightarrow> jwt_payload option"
type_synonym jwt_signer = "token_type \<Rightarrow> string \<Rightarrow> string list \<Rightarrow> string"

definition verifyRefreshToken :: "jwt_verifier \<Rightarrow> int \<Rightarrow> string \<Rightarrow> auth_error + jwt_payload" where
  "verifyRefreshToken jwt_verify now token =
     (case jwt_verify now token of None \<Rightarrow> Inl TOKEN_INVALID | Some p \<Rightarrow> Inr p)"

definition createTokenPair :: "jwt_signer \<Rightarrow> string \<Rightarrow> string list \<Rightarrow> token_pair" where
  "createTokenPair jwt_sign uid roles =
     \<lparr>accessToken = jwt_sign Access uid roles, refreshToken = jwt_sign Refresh uid roles\<rparr>"

definition refreshTokenExpiresAt :: "jwt_verifier \<Rightarrow> int \<Rightarrow> string \<Rightarrow> auth_error + int" where
  "refreshTokenExpiresAt jwt_verify now token =
     (case verifyRefreshToken jwt_verify now token of
        Inl e \<Rightarrow> Inl e
      | Inr p \<Rightarrow> (case jp_exp p of None \<Rightarrow> Inl TOKEN_MISSING_EXP | Some e \<Rightarrow> Inr (e * 1000)))"

section \<open>The service\<close>

datatype auth_event =
    LoginSucceeded string string
  | RefreshReused string string nat
  | SessionRevokedSingle string
  | SessionRevokedAll string

record 's auth_state =
  as_tokens :: 's
  as_published :: "auth_event list"

definition publish :: "auth_event \<Rightarrow> 's auth_state \<Rightarrow> 's auth_state" where
  "publish e st = st\<lparr>as_published := as_published st @ [e]\<rparr>"

text \<open>
  \<open>issueSession\<close> after the strategy has named the principal; \<open>fam\<close> is the \<open>randomUUID()\<close>
  drawn for the new family.
\<close>

definition issueSession ::
  "'s refresh_token_ops \<Rightarrow> jwt_verifier \<Rightarrow> jwt_signer \<Rightarrow> string \<Rightarrow> string list \<Rightarrow> string \<Rightarrow> string
   \<Rightarrow> int \<Rightarrow> 's auth_state \<Rightarrow> 's auth_state \<times> (auth_error + token_pair)" where
  "issueSession ops jwt_verify jwt_sign uid roles strategy fam now st =
     (let pair = createTokenPair jwt_sign uid roles in
      case refreshTokenExpiresAt jwt_verify now (refreshToken pair) of
        Inl e \<Rightarrow> (st, Inl e)
      | Inr ex \<Rightarrow>
          (let st1 = st\<lparr>as_tokens := op_issue ops
                 \<lparr>nt_token = refreshToken pair, nt_userId = uid, nt_familyId = fam, nt_expiresAt = ex\<rparr>
                 now (as_tokens st)\<rparr>
           in (publish (LoginSucceeded uid strategy) st1, Inr pair)))"

text \<open>
  \<open>refresh\<close> suspends at \<open>await tokens.consume(...)\<close>: \<open>refresh_begin\<close> is the run up to it and
  \<open>refresh_resume\<close> the run after it. Another request can run in between when the store is
  not in this process.
\<close>

definition refresh_begin ::
  "'s refresh_token_ops \<Rightarrow> jwt_verifier \<Rightarrow> string \<Rightarrow> int \<Rightarrow> 's auth_state
   \<Rightarrow> 's auth_state \<times> (auth_error + jwt_payload \<times> consumption)" where
  "refresh_begin ops jwt_verify token now st =
     (case verifyRefreshToken jwt_verify now token of
        Inl e \<Rightarrow> (st, Inl e)
      | Inr p \<Rightarrow>
          if jp_type p \<noteq> Refresh then (st, Inl TOKEN_TYPE_MISMATCH)
          else (case op_consume ops token now (as_tokens st) of
                  (s1, out) \<Rightarrow> (st\<lparr>as_tokens := s1\<rparr>, Inr (p, out))))"

definition refresh_resume ::
  "'s refresh_token_ops \<Rightarrow> jwt_verifier \<Rightarrow> jwt_signer \<Rightarrow> int \<Rightarrow> jwt_payload \<Rightarrow> consumption
   \<Rightarrow> 's auth_state \<Rightarrow> 's auth_state \<times> (auth_error + token_pair)" where
  "refresh_resume ops jwt_verify jwt_sign now p out st =
     (case out of
        CReuse uid fam \<Rightarrow>
          (case op_revokeFamily ops fam now (as_tokens st) of
             (s1, n) \<Rightarrow> (publish (RefreshReused uid fam n) (st\<lparr>as_tokens := s1\<rparr>), Inl TOKEN_REVOKED))
      | CRotated uid fam \<Rightarrow>
          (let pair = createTokenPair jwt_sign (jp_userId p) (jp_roles p) in
           case refreshTokenExpiresAt jwt_verify now (refreshToken pair) of
             Inl e \<Rightarrow> (st, Inl e)
           | Inr ex \<Rightarrow>
               (st\<lparr>as_tokens := op_issue ops
                    \<lparr>nt_token = refreshToken pair, nt_userId = jp_userId p,
                     nt_familyId = fam, nt_expiresAt = ex\<rparr> now (as_tokens st)\<rparr>, Inr pair))
      | _ \<Rightarrow> (st, Inl TOKEN_REVOKED))"

definition refresh ::
  "'s refresh_token_ops \<Rightarrow> jwt_verifier \<Rightarrow> jwt_signer \<Rightarrow> string \<Rightarrow> int \<Rightarrow> 's auth_state
   \<Rightarrow> 's auth_state \<times> (auth_error + token_pair)" where
  "refresh ops jwt_verify jwt_sign token now st =
     (case refresh_begin ops jwt_verify token now st of
        (st1, Inl e) \<Rightarrow> (st1, Inl e)
      | (st1, Inr (p, out)) \<Rightarrow> refresh_resume ops jwt_verify jwt_sign now p out st1)"

definition logout ::
  "'s refresh_token_ops \<Rightarrow> jwt_verifier \<Rightarrow> string \<Rightarrow> int \<Rightarrow> 's auth_state \<Rightarrow> 's auth_state" where
  "logout ops jwt_verify token now st =
     (case verifyRefreshToken jwt_verify now token of
        Inl e \<Rightarrow> st
      | Inr p \<Rightarrow>
          if jp_type p = Refresh
          then publish (SessionRevokedSingle (jp_userId p))
                 (st\<lparr>as_tokens := op_revoke ops token now (as_tokens st)\<rparr>)
          else st)"

definition logoutAll ::
  "'s refresh_token_ops \<Rightarrow> string \<Rightarrow> int \<Rightarrow> 's auth_state \<Rightarrow> 's auth_state" where
  "logoutAll ops uid now st =
     publish (SessionRevokedAll uid) (st\<lparr>as_tokens := op_revokeAllForUser ops uid now (as_tokens st)\<rparr>)"

text \<open>
  Two requests that carry the same active token, interleaved at the \<open>await\<close>: the first is
  suspended after its \<open>consume\<close>, the second runs to its end, then the first resumes.
\<close>

definition interleaved_refresh ::
  "'s refresh_token_ops \<Rightarrow> jwt_verifier \<Rightarrow> jwt_signer \<Rightarrow> string \<Rightarrow> int \<Rightarrow> int \<Rightarrow> int \<Rightarrow> 's auth_state
   \<Rightarrow> 's auth_state \<times> (auth_error + token_pair) \<times> (auth_error + token_pair)" where
  "interleaved_refresh ops jwt_verify jwt_sign token n1 n2 n3 st =
     (case refresh_begin ops jwt_verify token n1 st of
        (st1, Inl e) \<Rightarrow> (st1, Inl e, Inl e)
      | (st1, Inr (p, out)) \<Rightarrow>
          (case refresh ops jwt_verify jwt_sign token n2 st1 of
             (st2, second) \<Rightarrow>
               (case refresh_resume ops jwt_verify jwt_sign n3 p out st2 of
                  (st3, first) \<Rightarrow> (st3, first, second))))"

section \<open>What the service guarantees over any store that keeps the contract\<close>

context refresh_store
begin

lemma refresh_consumes:
  assumes "jwt_verify now t = Some p" and "jp_type p = Refresh"
  shows "refresh ops jwt_verify jwt_sign t now st =
    refresh_resume ops jwt_verify jwt_sign now p (outcome_of (vw now (as_tokens st) t))
      (st\<lparr>as_tokens := fst (op_consume ops t now (as_tokens st))\<rparr>)"
  using assms consume_out [of t now "as_tokens st"]
  by (cases "op_consume ops t now (as_tokens st)") (simp add: refresh_def refresh_begin_def verifyRefreshToken_def)

lemma refresh_reuse_kills_family:
  assumes "ok (as_tokens st)" and "jwt_verify now t = Some p" and "jp_type p = Refresh"
    and held: "vw now (as_tokens st) t = Some r" and "rt_state r = Rotated"
  shows "\<exists>s' n. refresh ops jwt_verify jwt_sign t now st =
             (\<lparr>as_tokens = s', as_published = as_published st @ [RefreshReused (rt_userId r) (rt_familyId r) n]\<rparr>,
              Inl TOKEN_REVOKED)
         \<and> ok s' \<and> (\<forall>t' r'. vw now s' t' = Some r' \<longrightarrow> rt_familyId r' = rt_familyId r \<longrightarrow> rt_state r' = Revoked)"
proof -
  let ?s1 = "fst (op_consume ops t now (as_tokens st))"
  let ?s2 = "fst (op_revokeFamily ops (rt_familyId r) now ?s1)"
  have ok1: "ok ?s1" using call_ok [OF assms(1), of "(Consume t, now)"] by simp
  have ok2: "ok ?s2" using call_ok [OF ok1, of "(RevokeFamily (rt_familyId r), now)"] by simp
  have "outcome_of (vw now (as_tokens st) t) = CReuse (rt_userId r) (rt_familyId r)"
    using held assms(5) by (simp add: outcome_of_def)
  then have "\<exists>n. refresh ops jwt_verify jwt_sign t now st =
    (\<lparr>as_tokens = ?s2, as_published = as_published st @ [RefreshReused (rt_userId r) (rt_familyId r) n]\<rparr>,
     Inl TOKEN_REVOKED)"
    using refresh_consumes [of jwt_verify now t p jwt_sign st] assms(2,3)
    by (cases st) (simp add: refresh_resume_def publish_def split: prod.splits)
  moreover have "rt_state r' = Revoked" if "vw now ?s2 t' = Some r'" "rt_familyId r' = rt_familyId r" for t' r'
    using family_dead_now [OF ok1 that] .
  ultimately show ?thesis using ok2 by blast
qed

lemma refresh_rotates:
  assumes "ok (as_tokens st)" and "jwt_verify now t = Some p" and "jp_type p = Refresh"
    and held: "vw now (as_tokens st) t = Some r" and "rt_state r = Active"
    and new: "jwt_sign Refresh (jp_userId p) (jp_roles p) = t'" and "t' \<noteq> t"
    and ver: "jwt_verify now t' = Some p'" and "jp_exp p' = Some e" and "now < e * 1000"
  shows "\<exists>s'. refresh ops jwt_verify jwt_sign t now st =
            (st\<lparr>as_tokens := s'\<rparr>, Inr (createTokenPair jwt_sign (jp_userId p) (jp_roles p)))
         \<and> vw now s' t = Some (r\<lparr>rt_state := Rotated\<rparr>)
         \<and> vw now s' t' = Some \<lparr>rt_userId = jp_userId p, rt_familyId = rt_familyId r,
                                 rt_state = Active, rt_expiresAt = e * 1000\<rparr>
         \<and> (\<forall>u. u \<noteq> t \<and> u \<noteq> t' \<longrightarrow> vw now s' u = vw now (as_tokens st) u)"
proof -
  let ?s1 = "fst (op_consume ops t now (as_tokens st))"
  let ?n = "\<lparr>nt_token = t', nt_userId = jp_userId p, nt_familyId = rt_familyId r, nt_expiresAt = e * 1000\<rparr>"
  let ?s2 = "op_issue ops ?n now ?s1"
  have ok1: "ok ?s1" using call_ok [OF assms(1), of "(Consume t, now)"] by simp
  have out: "outcome_of (vw now (as_tokens st) t) = CRotated (rt_userId r) (rt_familyId r)"
    using held assms(5) by (simp add: outcome_of_def)
  have "refresh ops jwt_verify jwt_sign t now st =
    (st\<lparr>as_tokens := ?s2\<rparr>, Inr (createTokenPair jwt_sign (jp_userId p) (jp_roles p)))"
    using refresh_consumes [of jwt_verify now t p jwt_sign st] assms(2,3) out new ver assms(9)
    by (simp add: refresh_resume_def createTokenPair_def refreshTokenExpiresAt_def verifyRefreshToken_def Let_def)
  moreover have "vw now ?s2 = ((vw now (as_tokens st))(t := map_option retire (vw now (as_tokens st) t)))
      (t' := unexpired now (Some (issued ?n)))"
    using issue_vw [OF ok1, of now now ?n] consume_vw [OF assms(1), of now now t] by simp
  ultimately show ?thesis
    using assms(5,7,10) held by (auto simp: retire_def issued_def unexpired_def)
qed

lemma interleaved_refresh_revives:
  assumes ok: "ok (as_tokens st)" and n12: "n1 \<le> n2" and n23: "n2 \<le> n3"
    and ver1: "jwt_verify n1 t = Some p" "jp_type p = Refresh"
    and ver2: "jwt_verify n2 t = Some p2" "jp_type p2 = Refresh"
    and held: "vw n2 (as_tokens st) t = Some r" and act: "rt_state r = Active"
    and new: "jwt_sign Refresh (jp_userId p) (jp_roles p) = t'"
    and ver': "jwt_verify n3 t' = Some p'" "jp_exp p' = Some e" "n3 < e * 1000"
  shows "\<exists>st' n. interleaved_refresh ops jwt_verify jwt_sign t n1 n2 n3 st =
            (st', Inr (createTokenPair jwt_sign (jp_userId p) (jp_roles p)), Inl TOKEN_REVOKED)
         \<and> as_published st' = as_published st @ [RefreshReused (rt_userId r) (rt_familyId r) n]
         \<and> (\<forall>u r'. u \<noteq> t' \<and> vw n3 (as_tokens st') u = Some r' \<and> rt_familyId r' = rt_familyId r \<longrightarrow> rt_state r' = Revoked)
         \<and> vw n3 (as_tokens st') t' = Some \<lparr>rt_userId = jp_userId p, rt_familyId = rt_familyId r,
                                 rt_state = Active, rt_expiresAt = e * 1000\<rparr>"
proof -
  let ?st1 = "st\<lparr>as_tokens := fst (op_consume ops t n1 (as_tokens st))\<rparr>"
  have ok1: "ok (as_tokens ?st1)" using call_ok [OF ok, of "(Consume t, n1)"] by simp
  have "outcome_of (vw n1 (as_tokens st) t) = CRotated (rt_userId r) (rt_familyId r)"
    using vw_later [OF n12 held] act by (simp add: outcome_of_def)
  then have b: "refresh_begin ops jwt_verify t n1 st = (?st1, Inr (p, CRotated (rt_userId r) (rt_familyId r)))"
    using ver1 consume_out [of t n1 "as_tokens st"]
    by (simp add: refresh_begin_def verifyRefreshToken_def split_beta)
  have "vw n2 (as_tokens ?st1) t = Some (r\<lparr>rt_state := Rotated\<rparr>)"
    using consume_vw [OF ok n12, of t] held act by (simp add: retire_def)
  then obtain s2 n where s2: "refresh ops jwt_verify jwt_sign t n2 ?st1 =
      (\<lparr>as_tokens = s2, as_published = as_published st @ [RefreshReused (rt_userId r) (rt_familyId r) n]\<rparr>,
       Inl TOKEN_REVOKED)" and ok2: "ok s2"
    and dead: "\<forall>u r'. vw n2 s2 u = Some r' \<longrightarrow> rt_familyId r' = rt_familyId r \<longrightarrow> rt_state r' = Revoked"
    using refresh_reuse_kills_family
        [of ?st1 jwt_verify n2 t p2 "r\<lparr>rt_state := Rotated\<rparr>" jwt_sign] ok1 ver2
    by auto
  let ?n = "\<lparr>nt_token = t', nt_userId = jp_userId p, nt_familyId = rt_familyId r, nt_expiresAt = e * 1000\<rparr>"
  have "interleaved_refresh ops jwt_verify jwt_sign t n1 n2 n3 st =
     (\<lparr>as_tokens = op_issue ops ?n n3 s2,
       as_published = as_published st @ [RefreshReused (rt_userId r) (rt_familyId r) n]\<rparr>,
      Inr (createTokenPair jwt_sign (jp_userId p) (jp_roles p)), Inl TOKEN_REVOKED)"
    using b s2 new ver'
    by (simp add: interleaved_refresh_def refresh_resume_def createTokenPair_def refreshTokenExpiresAt_def
        verifyRefreshToken_def Let_def)
  moreover have issue: "vw n3 (op_issue ops ?n n3 s2) = (vw n3 s2)(t' := Some (issued ?n))"
    using issue_vw [OF ok2, of n3 n3 ?n] ver'(3) by (simp add: unexpired_def issued_def)
  moreover have "rt_state r' = Revoked" if "u \<noteq> t'" "vw n3 (op_issue ops ?n n3 s2) u = Some r'" "rt_familyId r' = rt_familyId r" for u r'
    using that issue dead vw_later [OF n23, of s2 u r'] by simp
  ultimately show ?thesis by (simp add: issued_def)
qed

end

section \<open>Properties\<close>

text \<open>
  C7: Presenting a refresh token that was already rotated away answers the ordinary 401
  \<open>TOKEN_REVOKED\<close>, publishes the reuse alarm, and leaves no usable token in the family.
\<close>

theorem refresh_reuse_revokes_family:
  assumes "jwt_verify now t = Some p" and "jp_type p = Refresh"
    and "view now (store_after n0 hist) t = Some r" and "rt_state r = Rotated"
  shows "\<exists>s' n. refresh memory_ops jwt_verify jwt_sign t now \<lparr>as_tokens = store_after n0 hist, as_published = evs\<rparr> =
             (\<lparr>as_tokens = s', as_published = evs @ [RefreshReused (rt_userId r) (rt_familyId r) n]\<rparr>, Inl TOKEN_REVOKED)
         \<and> (\<forall>t' r'. view now s' t' = Some r' \<longrightarrow> rt_familyId r' = rt_familyId r \<longrightarrow> rt_state r' = Revoked)"
  using mem.refresh_reuse_kills_family
      [of "\<lparr>as_tokens = store_after n0 hist, as_published = evs\<rparr>" jwt_verify now t p r jwt_sign]
    assms store_after_ok [of n0 hist]
  by auto

text \<open>The package stubs the witnesses use: every string is a valid refresh token of \<open>u\<close>.\<close>

definition demo_verify :: jwt_verifier where
  "demo_verify now t = Some \<lparr>jp_userId = ''u'', jp_roles = [], jp_type = Refresh, jp_exp = Some 1\<rparr>"

definition demo_sign :: jwt_signer where
  "demo_sign ty u roles = (case ty of Access \<Rightarrow> ''acc'' | Refresh \<Rightarrow> ''b'')"

definition demo_hist :: "(store_call \<times> int) list" where
  "demo_hist = [(Issue \<lparr>nt_token = ''a'', nt_userId = ''u'', nt_familyId = ''f'', nt_expiresAt = 1000\<rparr>, 1)]"

theorem refresh_reuse_revokes_family_witness:
  "\<exists>s' n. refresh memory_ops demo_verify demo_sign ''a'' 5
       \<lparr>as_tokens = store_after 0 (demo_hist @ [(Consume ''a'', 2)]), as_published = []\<rparr> =
     (\<lparr>as_tokens = s', as_published = [RefreshReused ''u'' ''f'' n]\<rparr>, Inl TOKEN_REVOKED)"
proof -
  let ?r = "\<lparr>rt_userId = ''u'', rt_familyId = ''f'', rt_state = Rotated, rt_expiresAt = 1000\<rparr>"
  have "view 5 (store_after 0 (demo_hist @ [(Consume ''a'', 2)])) ''a'' = Some ?r" by code_simp
  then show ?thesis
    using refresh_reuse_revokes_family [of demo_verify 5 "''a''" _ 0 "demo_hist @ [(Consume ''a'', 2)]" ?r demo_sign "[]"]
    by (auto simp: demo_verify_def)
qed

text \<open>
  A refresh with the live token succeeds, retires it, and makes its successor the live
  token of the same family; no other token changes. The signer gives a string different from
  the token it replaces and one that verifies with an unexpired \<open>exp\<close>.
\<close>

lemma refresh_rotates_within_family:
  assumes "jwt_verify now t = Some p" and "jp_type p = Refresh"
    and "view now (store_after n0 hist) t = Some r" and "rt_state r = Active"
    and "jwt_sign Refresh (jp_userId p) (jp_roles p) = t'" and "t' \<noteq> t"
    and "jwt_verify now t' = Some p'" and "jp_exp p' = Some e" and "now < e * 1000"
  shows "\<exists>s'. refresh memory_ops jwt_verify jwt_sign t now \<lparr>as_tokens = store_after n0 hist, as_published = evs\<rparr> =
            (\<lparr>as_tokens = s', as_published = evs\<rparr>, Inr (createTokenPair jwt_sign (jp_userId p) (jp_roles p)))
         \<and> view now s' t = Some (r\<lparr>rt_state := Rotated\<rparr>)
         \<and> view now s' t' = Some \<lparr>rt_userId = jp_userId p, rt_familyId = rt_familyId r,
                                 rt_state = Active, rt_expiresAt = e * 1000\<rparr>
         \<and> (\<forall>u. u \<noteq> t \<and> u \<noteq> t' \<longrightarrow> view now s' u = view now (store_after n0 hist) u)"
  using mem.refresh_rotates
      [of "\<lparr>as_tokens = store_after n0 hist, as_published = evs\<rparr>" jwt_verify now t p r jwt_sign t' p' e]
    assms store_after_ok [of n0 hist]
  by simp

text \<open>
  C35: \<open>consume\<close> is atomic but \<open>consume\<close> followed by \<open>issue\<close> is not: when a second request
  with the same token runs while the first is suspended between them, the reuse is detected,
  every token of the family is revoked and the alarm is published, and the first request still mints a
  live token into the revoked family, the only one of its tokens that is not revoked.
\<close>

theorem interleaved_refresh_revives_family:
  assumes "n1 \<le> n2" and "n2 \<le> n3" and "jwt_verify n1 t = Some p" "jp_type p = Refresh"
    and "jwt_verify n2 t = Some p2" "jp_type p2 = Refresh"
    and "view n2 (store_after n0 hist) t = Some r" and "rt_state r = Active"
    and "jwt_sign Refresh (jp_userId p) (jp_roles p) = t'"
    and "jwt_verify n3 t' = Some p'" "jp_exp p' = Some e" "n3 < e * 1000"
  shows "\<exists>st' n. interleaved_refresh memory_ops jwt_verify jwt_sign t n1 n2 n3
              \<lparr>as_tokens = store_after n0 hist, as_published = evs\<rparr> =
            (st', Inr (createTokenPair jwt_sign (jp_userId p) (jp_roles p)), Inl TOKEN_REVOKED)
         \<and> as_published st' = evs @ [RefreshReused (rt_userId r) (rt_familyId r) n]
         \<and> (\<forall>u r'. u \<noteq> t' \<and> view n3 (as_tokens st') u = Some r' \<and> rt_familyId r' = rt_familyId r \<longrightarrow> rt_state r' = Revoked)
         \<and> view n3 (as_tokens st') t' = Some \<lparr>rt_userId = jp_userId p, rt_familyId = rt_familyId r,
                                 rt_state = Active, rt_expiresAt = e * 1000\<rparr>"
  using mem.interleaved_refresh_revives
      [of "\<lparr>as_tokens = store_after n0 hist, as_published = evs\<rparr>" n1 n2 n3 jwt_verify t p p2 r jwt_sign t' p' e]
    assms store_after_ok [of n0 hist]
  by simp

theorem interleaved_refresh_revives_family_witness:
  "\<exists>st' n. interleaved_refresh memory_ops demo_verify demo_sign ''a'' 5 6 7
       \<lparr>as_tokens = store_after 0 demo_hist, as_published = []\<rparr> =
     (st', Inr (createTokenPair demo_sign ''u'' []), Inl TOKEN_REVOKED)
   \<and> as_published st' = [RefreshReused ''u'' ''f'' n]
   \<and> (\<forall>u r'. u \<noteq> ''b'' \<and> view 7 (as_tokens st') u = Some r' \<and> rt_familyId r' = ''f'' \<longrightarrow> rt_state r' = Revoked)
   \<and> view 7 (as_tokens st') ''b'' =
       Some \<lparr>rt_userId = ''u'', rt_familyId = ''f'', rt_state = Active, rt_expiresAt = 1000\<rparr>"
proof -
  let ?r = "\<lparr>rt_userId = ''u'', rt_familyId = ''f'', rt_state = Active, rt_expiresAt = 1000\<rparr>"
  have "view 6 (store_after 0 demo_hist) ''a'' = Some ?r" by code_simp
  then show ?thesis
    using interleaved_refresh_revives_family
        [of 5 6 7 demo_verify "''a''" _ _ 0 demo_hist ?r demo_sign "''b''" _ 1 "[]"]
    by (auto simp: demo_verify_def demo_sign_def)
qed

end
