(* ===== verification/Js_String.thy ===== *)
theory Js_String
  imports Prelude
begin

text \<open>
  The string functions the parsers use: \<open>trim\<close>, \<open>toLowerCase\<close>, \<open>indexOf\<close>, \<open>split\<close> and
  \<open>join\<close> on a one-character separator, and decimal numerals. A header value is a string of
  Latin-1 characters, which is how Node decodes it, so a \<open>char\<close> is one code unit.
\<close>

definition code :: "char \<Rightarrow> nat" where
  "code c = of_char c"

text \<open>White space of \<open>String.prototype.trim\<close> in Latin-1: TAB, LF, VT, FF, CR, SP, NBSP.\<close>

definition is_ws :: "char \<Rightarrow> bool" where
  "is_ws c \<longleftrightarrow> (9 \<le> code c \<and> code c \<le> 13) \<or> code c = 32 \<or> code c = 160"

definition trim :: "string \<Rightarrow> string" where
  "trim s = rev (dropWhile is_ws (rev (dropWhile is_ws s)))"

text \<open>\<open>toLowerCase\<close> on Latin-1: A-Z and the accented capitals U+00C0 to U+00DE but U+00D7.\<close>

definition lower_char :: "char \<Rightarrow> char" where
  "lower_char c =
     (if (65 \<le> code c \<and> code c \<le> 90) \<or> (192 \<le> code c \<and> code c \<le> 222 \<and> code c \<noteq> 215)
      then char_of (code c + 32) else c)"

definition toLowerCase :: "string \<Rightarrow> string" where
  "toLowerCase s = map lower_char s"

text \<open>\<open>toUpperCase\<close> on ASCII, which is all an HTTP method can hold.\<close>

definition upper_char :: "char \<Rightarrow> char" where
  "upper_char c = (if 97 \<le> code c \<and> code c \<le> 122 then char_of (code c - 32) else c)"

definition toUpperCase :: "string \<Rightarrow> string" where
  "toUpperCase s = map upper_char s"

text \<open>\<open>s.indexOf(c)\<close>; \<open>None\<close> is -1.\<close>

fun index_of :: "'a \<Rightarrow> 'a list \<Rightarrow> nat option" where
  "index_of c [] = None"
| "index_of c (x # xs) = (if x = c then Some 0 else map_option Suc (index_of c xs))"

text \<open>\<open>s.split(c)\<close> for a one-character separator; never empty.\<close>

fun split_on :: "'a \<Rightarrow> 'a list \<Rightarrow> 'a list list" where
  "split_on c [] = [[]]"
| "split_on c (x # xs) =
     (if x = c then [] # split_on c xs
      else (case split_on c xs of [] \<Rightarrow> [[x]] | p # ps \<Rightarrow> (x # p) # ps))"

fun join :: "'a list \<Rightarrow> 'a list list \<Rightarrow> 'a list" where
  "join sep [] = []"
| "join sep [p] = p"
| "join sep (p # q # ps) = p @ sep @ join sep (q # ps)"

definition is_digit :: "char \<Rightarrow> bool" where
  "is_digit c \<longleftrightarrow> 48 \<le> code c \<and> code c \<le> 57"

text \<open>\<open>Number(text)\<close> of a run of digits, as the exact integer.\<close>

definition of_digits :: "string \<Rightarrow> nat" where
  "of_digits s = foldl (\<lambda>n c. 10 * n + (code c - 48)) 0 s"

definition digit :: "nat \<Rightarrow> char" where
  "digit n = char_of (48 + n)"

text \<open>\<open>String(n)\<close> of a non-negative integer.\<close>

fun show_nat :: "nat \<Rightarrow> string" where
  "show_nat n = (if n < 10 then [digit n] else show_nat (n div 10) @ [digit (n mod 10)])"

declare show_nat.simps [simp del]

definition MAX_SAFE_INTEGER :: nat where
  "MAX_SAFE_INTEGER = 9007199254740991"

section \<open>Separators\<close>

lemma split_on_not_Nil [simp]: "split_on c s \<noteq> []"
  by (induction s) (auto split: list.splits)

lemma index_of_None: "index_of c s = None \<longleftrightarrow> c \<notin> set s"
  by (induction s) auto

lemma index_of_Some:
  "index_of c s = Some i \<Longrightarrow> i < length s \<and> s ! i = c \<and> c \<notin> set (take i s)"
  by (induction s arbitrary: i) (auto split: if_splits simp: nth_Cons')

lemma index_of_append: "c \<notin> set p \<Longrightarrow> index_of c (p @ c # r) = Some (length p)"
  by (induction p) auto

lemma split_on_append: "c \<notin> set p \<Longrightarrow> split_on c (p @ c # r) = p # split_on c r"
  by (induction p) auto

lemma split_on_single: "c \<notin> set p \<Longrightarrow> split_on c p = [p]"
  by (induction p) auto

lemma split_join:
  assumes "ps \<noteq> []" and "\<And>p. p \<in> set ps \<Longrightarrow> c \<notin> set p"
  shows "split_on c (join [c] ps) = ps"
  using assms
proof (induction "[c]" ps rule: join.induct)
  case (2 p)
  then show ?case by (simp add: split_on_single)
next
  case (3 p q ps)
  then have "split_on c (join [c] (q # ps)) = q # ps" by auto
  then show ?case using split_on_append [of c p "join [c] (q # ps)"] 3 by auto
qed simp

lemma join_inject:
  assumes "ps \<noteq> []" "qs \<noteq> []" and "\<And>p. p \<in> set ps \<union> set qs \<Longrightarrow> c \<notin> set p"
    and "join [c] ps = join [c] qs"
  shows "ps = qs"
  using split_join [of ps c] split_join [of qs c] assms by (metis UnCI)

section \<open>White space\<close>

lemma trim_id: "s = [] \<or> \<not> is_ws (hd s) \<and> \<not> is_ws (last s) \<Longrightarrow> trim s = s"
proof (cases "s = []")
  case False
  assume "s = [] \<or> \<not> is_ws (hd s) \<and> \<not> is_ws (last s)"
  with False have "dropWhile is_ws s = s" and "dropWhile is_ws (rev s) = rev s"
    by (auto simp: dropWhile_eq_self_iff hd_rev)
  then show ?thesis by (simp add: trim_def)
qed (simp add: trim_def)

lemma trim_no_ws: "\<forall>c \<in> set s. \<not> is_ws c \<Longrightarrow> trim s = s"
  by (rule trim_id) (metis hd_in_set last_in_set)

section \<open>Decimal numerals\<close>

lemma code_char_of: "n < 256 \<Longrightarrow> code (char_of n) = n"
  by (simp add: code_def)

lemma code_inject: "code a = code b \<longleftrightarrow> a = b"
  by (simp add: code_def)

lemma code_digit [simp]: "n < 10 \<Longrightarrow> code (digit n) = 48 + n"
  by (simp add: digit_def code_char_of)

lemma is_digit_digit [simp]: "n < 10 \<Longrightarrow> is_digit (digit n)"
  by (simp add: is_digit_def)

lemma is_digit_not_ws: "is_digit c \<Longrightarrow> \<not> is_ws c"
  by (simp add: is_digit_def is_ws_def)

lemma show_nat_not_Nil [simp]: "show_nat n \<noteq> []"
  by (subst show_nat.simps) simp

lemma show_nat_digits: "\<forall>c \<in> set (show_nat n). is_digit c"
proof (induction n rule: show_nat.induct)
  case (1 n)
  then show ?case by (cases "n < 10") (auto simp: show_nat.simps [of n])
qed

lemma of_digits_snoc: "of_digits (s @ [c]) = 10 * of_digits s + (code c - 48)"
  by (simp add: of_digits_def)

lemma of_digits_show [simp]: "of_digits (show_nat n) = n"
proof (induction n rule: show_nat.induct)
  case (1 n)
  show ?case
  proof (cases "n < 10")
    case True
    then show ?thesis by (simp add: show_nat.simps [of n] of_digits_def)
  next
    case False
    with 1 show ?thesis by (simp add: show_nat.simps [of n] of_digits_snoc)
  qed
qed

lemma show_nat_inject: "show_nat m = show_nat n \<longleftrightarrow> m = n"
  by (metis of_digits_show)

lemma length_show_nat: "n < 10 ^ k \<Longrightarrow> 0 < k \<Longrightarrow> length (show_nat n) \<le> k"
proof (induction n arbitrary: k rule: show_nat.induct)
  case (1 n)
  show ?case
  proof (cases "n < 10")
    case True
    then show ?thesis using 1 by (simp add: show_nat.simps [of n])
  next
    case False
    with 1 obtain j where k: "k = Suc j" "0 < j" by (cases k; cases "k - 1") auto
    with 1 False have "n div 10 < 10 ^ j" by (simp add: less_mult_imp_div_less)
    with 1 False k have "length (show_nat (n div 10)) \<le> j" by blast
    then show ?thesis using False k by (simp add: show_nat.simps [of n])
  qed
qed

lemma of_digits_bound: "\<forall>c \<in> set s. is_digit c \<Longrightarrow> of_digits s < 10 ^ length s"
proof (induction s rule: rev_induct)
  case Nil
  then show ?case by (simp add: of_digits_def)
next
  case (snoc c s)
  then have "of_digits s < 10 ^ length s" and "code c - 48 < 10"
    by (auto simp: is_digit_def)
  then show ?case by (simp add: of_digits_snoc)
qed

lemma cut_first: "a @ c # x = b @ c # y \<Longrightarrow> c \<notin> set a \<Longrightarrow> c \<notin> set b \<Longrightarrow> a = b \<and> x = y"
proof (induction a arbitrary: b)
  case Nil
  then show ?case
    by (cases b) auto
next
  case (Cons d a)
  then show ?case
    by (cases b) auto
qed

lemma cut_last:
  assumes "x @ c # a = y @ c # b" "c \<notin> set a" "c \<notin> set b"
  shows "x = y \<and> a = b"
proof -
  have "rev a @ c # rev x = rev b @ c # rev y"
    using arg_cong [OF assms(1), of rev] by simp
  from cut_first [OF this] show ?thesis
    using assms by simp
qed

end
