(* ===== verification/Webhook_Signature.thy ===== *)
theory Webhook_Signature
  imports Js_String
begin

text \<open>
  Signed webhook deliveries: the canonical request and the signature header
  (\<open>src/webhooks/signature.ts\<close>), the ring of signing secrets
  (\<open>src/webhooks/signing-secrets.ts\<close>), the replay guard (\<open>src/webhooks/replay-guard.ts\<close>)
  and the handler that puts them together (\<open>src/webhooks/verify-signature.middleware.ts\<close>).
  A byte buffer is a \<open>string\<close>, a \<open>char\<close> per byte. SHA-256 and HMAC-SHA-256, hexadecimal
  encoded, are the parameters \<open>sha256\<close> and \<open>hmac\<close>; base 64 and \<open>JSON.parse\<close> are parameters
  of the definitions that use them.
\<close>

section \<open>The signature scheme\<close>

datatype malformed =
    MalformedField
  | DuplicateField string
  | MissingField string
  | BadTimestamp string
  | NegativeTimestamp int
  | BadNonce
  | BadDigest
  | BadTarget
  | RepeatedHeader

definition WEBHOOK_SIGNATURE_VERSION :: string where
  "WEBHOOK_SIGNATURE_VERSION = ''v1''"

definition DIGEST_HEX_LENGTH :: nat where
  "DIGEST_HEX_LENGTH = 64"

definition is_lower_hex :: "char \<Rightarrow> bool" where
  "is_lower_hex c \<longleftrightarrow> is_digit c \<or> (97 \<le> code c \<and> code c \<le> 102)"

definition is_id_char :: "char \<Rightarrow> bool" where
  "is_id_char c \<longleftrightarrow> is_digit c \<or> (65 \<le> code c \<and> code c \<le> 90) \<or> (97 \<le> code c \<and> code c \<le> 122)
     \<or> c = CHR ''_'' \<or> c = CHR ''.'' \<or> c = CHR ''-''"

definition hex_pattern :: "string \<Rightarrow> bool" where
  "hex_pattern s \<longleftrightarrow> s \<noteq> [] \<and> list_all is_lower_hex s"

definition unsigned_integer_pattern :: "string \<Rightarrow> bool" where
  "unsigned_integer_pattern s \<longleftrightarrow> 1 \<le> length s \<and> length s \<le> 15 \<and> list_all is_digit s"

definition nonce_pattern :: "string \<Rightarrow> bool" where
  "nonce_pattern s \<longleftrightarrow> 16 \<le> length s \<and> length s \<le> 64 \<and> list_all is_id_char s"

record signing_parts =
  sp_timestamp :: int
  sp_nonce :: string
  sp_method :: string
  sp_target :: string
  sp_body :: string

record parsed_signature =
  ps_timestamp :: nat
  ps_nonce :: string
  ps_keyId :: string
  ps_digest :: string

definition bodyDigest :: "(string \<Rightarrow> string) \<Rightarrow> string \<Rightarrow> string" where
  "bodyDigest sha256 body = sha256 body"

definition canonicalRequest :: "(string \<Rightarrow> string) \<Rightarrow> signing_parts \<Rightarrow> malformed + string" where
  "canonicalRequest sha256 p =
     (if sp_timestamp p < 0 then Inl (NegativeTimestamp (sp_timestamp p))
      else if \<not> nonce_pattern (sp_nonce p) then Inl BadNonce
      else if list_ex (\<lambda>c. code c = 13 \<or> code c = 10) (sp_target p) then Inl BadTarget
      else Inr (join [char_of (10::nat)]
        [WEBHOOK_SIGNATURE_VERSION, show_nat (nat (sp_timestamp p)), sp_nonce p,
         toUpperCase (sp_method p), sp_target p, bodyDigest sha256 (sp_body p)]))"

definition computeDigest :: "(string \<Rightarrow> string \<Rightarrow> string) \<Rightarrow> string \<Rightarrow> string \<Rightarrow> string" where
  "computeDigest hmac secret canonical = hmac secret canonical"

definition formatSignatureHeader :: "parsed_signature \<Rightarrow> string" where
  "formatSignatureHeader s =
     ''t='' @ show_nat (ps_timestamp s) @ '',n='' @ ps_nonce s @ '',kid='' @ ps_keyId s @ '',''
     @ WEBHOOK_SIGNATURE_VERSION @ ''='' @ ps_digest s"

text \<open>The loop over \<open>raw.split(',')\<close>, with the parameters read so far.\<close>

fun parse_fields :: "string list \<Rightarrow> (string, string) js_map \<Rightarrow> malformed + (string, string) js_map" where
  "parse_fields [] m = Inr m"
| "parse_fields (field # rest) m =
     (let trimmed = trim field in
      if trimmed = [] then parse_fields rest m
      else case index_of (CHR ''='') trimmed of
          None \<Rightarrow> Inl MalformedField
        | Some i \<Rightarrow>
            if i = 0 then Inl MalformedField
            else let name = take i trimmed in
              if js_has m name then Inl (DuplicateField name)
              else parse_fields rest (js_set name (drop (Suc i) trimmed) m))"

definition parseSignatureHeader :: "string \<Rightarrow> malformed + parsed_signature" where
  "parseSignatureHeader raw =
     (case parse_fields (split_on (CHR '','') raw) [] of
        Inl e \<Rightarrow> Inl e
      | Inr m \<Rightarrow>
          (case js_get m ''t'' of None \<Rightarrow> Inl (MissingField ''t'') | Some rawTimestamp \<Rightarrow>
          (case js_get m ''n'' of None \<Rightarrow> Inl (MissingField ''n'') | Some nonce \<Rightarrow>
          (case js_get m ''kid'' of None \<Rightarrow> Inl (MissingField ''kid'') | Some keyId \<Rightarrow>
          (case js_get m WEBHOOK_SIGNATURE_VERSION of
             None \<Rightarrow> Inl (MissingField WEBHOOK_SIGNATURE_VERSION) | Some digest \<Rightarrow>
             if \<not> unsigned_integer_pattern rawTimestamp then Inl (BadTimestamp rawTimestamp)
             else if \<not> nonce_pattern nonce then Inl BadNonce
             else if length digest \<noteq> DIGEST_HEX_LENGTH \<or> \<not> hex_pattern digest then Inl BadDigest
             else Inr \<lparr>ps_timestamp = of_digits rawTimestamp, ps_nonce = nonce,
                       ps_keyId = keyId, ps_digest = digest\<rparr>)))))"

definition hex_val :: "char \<Rightarrow> nat option" where
  "hex_val c =
     (if is_digit c then Some (code c - 48)
      else if 97 \<le> code c \<and> code c \<le> 102 then Some (code c - 87)
      else if 65 \<le> code c \<and> code c \<le> 70 then Some (code c - 55)
      else None)"

text \<open>\<open>Buffer.from(s, 'hex')\<close>: stops at the first pair that is not hexadecimal.\<close>

fun hex_bytes :: "string \<Rightarrow> nat list" where
  "hex_bytes (a # b # s) =
     (case (hex_val a, hex_val b) of
        (Some x, Some y) \<Rightarrow> (16 * x + y) # hex_bytes s
      | _ \<Rightarrow> [])"
| "hex_bytes _ = []"

definition digestsMatch :: "string \<Rightarrow> string \<Rightarrow> bool" where
  "digestsMatch expected presented =
     (if length expected \<noteq> length presented then False
      else let e = hex_bytes expected; p = hex_bytes presented in
        if length e \<noteq> length p then False
        else if length e = 0 then False
        else e = p)"

section \<open>The ring of signing secrets\<close>

record signing_secret =
  ss_id :: string
  ss_secret :: string

record secret_ring =
  sr_activeKeyId :: string
  sr_active :: signing_secret
  sr_byId :: "(string, signing_secret) js_map"

datatype secret_error =
    NoSeparator nat
  | BadKeyId nat string
  | NotBase64 nat string
  | BadSecretLength nat string nat
  | NoEntries
  | DuplicateKeyId string
  | ActiveKeyMissing string

definition MIN_SECRET_BYTES :: nat where "MIN_SECRET_BYTES = 32"

definition MAX_SECRET_BYTES :: nat where "MAX_SECRET_BYTES = 64"

definition key_id_pattern :: "string \<Rightarrow> bool" where
  "key_id_pattern s \<longleftrightarrow> 1 \<le> length s \<and> length s \<le> 32 \<and> list_all is_id_char s"

definition parseEntry ::
  "(string \<Rightarrow> string) \<Rightarrow> (string \<Rightarrow> string) \<Rightarrow> string \<Rightarrow> nat \<Rightarrow> secret_error + signing_secret" where
  "parseEntry unbase64 base64 raw position =
     (case index_of (CHR '':'') raw of
        None \<Rightarrow> Inl (NoSeparator position)
      | Some separator \<Rightarrow>
          if separator = 0 then Inl (NoSeparator position)
          else let sid = take separator raw in
            if \<not> key_id_pattern sid then Inl (BadKeyId position sid)
            else let encoded = drop (Suc separator) raw; secret = unbase64 encoded in
              if base64 secret \<noteq> encoded then Inl (NotBase64 position sid)
              else if length secret < MIN_SECRET_BYTES \<or> MAX_SECRET_BYTES < length secret
              then Inl (BadSecretLength position sid (length secret))
              else Inr \<lparr>ss_id = sid, ss_secret = secret\<rparr>)"

fun collect_entries ::
  "(string \<Rightarrow> string) \<Rightarrow> (string \<Rightarrow> string) \<Rightarrow> string list \<Rightarrow> nat \<Rightarrow> (string, signing_secret) js_map
   \<Rightarrow> secret_error + (string, signing_secret) js_map" where
  "collect_entries unbase64 base64 [] index byId = Inr byId"
| "collect_entries unbase64 base64 (raw # rest) index byId =
     (case parseEntry unbase64 base64 raw (index + 1) of
        Inl e \<Rightarrow> Inl e
      | Inr entry \<Rightarrow>
          if js_has byId (ss_id entry) then Inl (DuplicateKeyId (ss_id entry))
          else collect_entries unbase64 base64 rest (index + 1) (js_set (ss_id entry) entry byId))"

definition parseWebhookSigningSecrets ::
  "(string \<Rightarrow> string) \<Rightarrow> (string \<Rightarrow> string) \<Rightarrow> string \<Rightarrow> string \<Rightarrow> secret_error + secret_ring" where
  "parseWebhookSigningSecrets unbase64 base64 spec activeKeyId =
     (let entries = filter (\<lambda>e. 0 < length e) (map trim (split_on (CHR '','') spec)) in
      if length entries = 0 then Inl NoEntries
      else case collect_entries unbase64 base64 entries 0 [] of
          Inl e \<Rightarrow> Inl e
        | Inr byId \<Rightarrow>
            (case js_get byId activeKeyId of
               None \<Rightarrow> Inl (ActiveKeyMissing activeKeyId)
             | Some active \<Rightarrow> Inr \<lparr>sr_activeKeyId = activeKeyId, sr_active = active, sr_byId = byId\<rparr>))"

definition ring_find :: "secret_ring \<Rightarrow> string \<Rightarrow> signing_secret option" where
  "ring_find ring keyId = js_get (sr_byId ring) keyId"

definition ring_ids :: "secret_ring \<Rightarrow> string list" where
  "ring_ids ring = map fst (sr_byId ring)"

section \<open>The sending side\<close>

record signed_webhook_request =
  sw_header :: string
  sw_signature :: parsed_signature
  sw_canonical :: string

text \<open>\<open>parse_url\<close> is \<open>new URL(url)\<close>, reduced to its path and its query.\<close>

definition toTarget :: "(string \<Rightarrow> string \<times> string) \<Rightarrow> string \<Rightarrow> string" where
  "toTarget parse_url url =
     (if url \<noteq> [] \<and> hd url = CHR ''/'' then url
      else case parse_url url of (pathname, query) \<Rightarrow> pathname @ query)"

definition signWebhookRequest ::
  "(string \<Rightarrow> string) \<Rightarrow> (string \<Rightarrow> string \<Rightarrow> string) \<Rightarrow> (string \<Rightarrow> string \<times> string) \<Rightarrow> secret_ring \<Rightarrow> string \<Rightarrow> string
   \<Rightarrow> string \<Rightarrow> int \<Rightarrow> string \<Rightarrow> malformed + signed_webhook_request" where
  "signWebhookRequest sha256 hmac parse_url ring verb url bodyBytes now nonce =
     (let entry = sr_active ring;
          parts = \<lparr>sp_timestamp = now div 1000, sp_nonce = nonce, sp_method = verb,
                   sp_target = toTarget parse_url url, sp_body = bodyBytes\<rparr> in
      case canonicalRequest sha256 parts of
        Inl e \<Rightarrow> Inl e
      | Inr canonical \<Rightarrow>
          (let signature = \<lparr>ps_timestamp = nat (sp_timestamp parts), ps_nonce = sp_nonce parts,
                            ps_keyId = ss_id entry,
                            ps_digest = computeDigest hmac (ss_secret entry) canonical\<rparr> in
           Inr \<lparr>sw_header = formatSignatureHeader signature, sw_signature = signature,
                sw_canonical = canonical\<rparr>))"

section \<open>The replay guard\<close>

datatype replay_decision = Accepted | Replayed | CacheFull

record replay_guard =
  rg_seen :: "(string, int) js_map"
  rg_maxEntries :: nat

definition createMemoryReplayGuard :: "int \<Rightarrow> int + replay_guard" where
  "createMemoryReplayGuard maxEntries =
     (if maxEntries \<le> 0 then Inl maxEntries
      else Inr \<lparr>rg_seen = [], rg_maxEntries = nat maxEntries\<rparr>)"

definition sweep :: "int \<Rightarrow> replay_guard \<Rightarrow> replay_guard" where
  "sweep now g = g\<lparr>rg_seen := js_sweep (\<lambda>expiresAt. expiresAt \<le> now) (rg_seen g)\<rparr>"

definition guard_insert :: "string \<Rightarrow> int \<Rightarrow> int \<Rightarrow> replay_guard \<Rightarrow> replay_guard \<times> replay_decision" where
  "guard_insert key expiresAtMs now g =
     (if rg_maxEntries g \<le> length (rg_seen g)
      then let g1 = sweep now g in
        if rg_maxEntries g1 \<le> length (rg_seen g1) then (g1, CacheFull)
        else (g1\<lparr>rg_seen := js_set key expiresAtMs (rg_seen g1)\<rparr>, Accepted)
      else (g\<lparr>rg_seen := js_set key expiresAtMs (rg_seen g)\<rparr>, Accepted))"

definition remember :: "string \<Rightarrow> int \<Rightarrow> int \<Rightarrow> replay_guard \<Rightarrow> replay_guard \<times> replay_decision" where
  "remember key expiresAtMs now g =
     (case js_get (rg_seen g) key of
        Some held \<Rightarrow>
          if now < held then (g, Replayed)
          else guard_insert key expiresAtMs now (g\<lparr>rg_seen := js_delete key (rg_seen g)\<rparr>)
      | None \<Rightarrow> guard_insert key expiresAtMs now g)"

section \<open>The handler\<close>

datatype header_field = Absent | Single string | Multiple

record webhook_request =
  wq_signature :: header_field
  wq_method :: string
  wq_originalUrl :: string
  wq_rawBody :: "string option"

datatype webhook_error =
    WebhookSignatureRequired
  | WebhookSignatureMalformed malformed
  | RawBodyMissing
  | WebhookTimestampOutOfWindow int
  | UnknownKeyId
  | DigestMismatch
  | WebhookReplayed
  | WebhookReplayCacheFull
  | WebhookBodyMalformed

text \<open>The status and the code each refusal is rendered with.\<close>

primrec webhook_error_status :: "webhook_error \<Rightarrow> nat \<times> string" where
  "webhook_error_status WebhookSignatureRequired = (401, ''WEBHOOK_SIGNATURE_REQUIRED'')"
| "webhook_error_status (WebhookSignatureMalformed reason) = (400, ''WEBHOOK_SIGNATURE_MALFORMED'')"
| "webhook_error_status RawBodyMissing = (500, ''WEBHOOK_RAW_BODY_MISSING'')"
| "webhook_error_status (WebhookTimestampOutOfWindow skew) = (400, ''WEBHOOK_TIMESTAMP_OUT_OF_WINDOW'')"
| "webhook_error_status UnknownKeyId = (401, ''WEBHOOK_SIGNATURE_INVALID'')"
| "webhook_error_status DigestMismatch = (401, ''WEBHOOK_SIGNATURE_INVALID'')"
| "webhook_error_status WebhookReplayed = (409, ''WEBHOOK_REPLAYED'')"
| "webhook_error_status WebhookReplayCacheFull = (503, ''WEBHOOK_REPLAY_CACHE_FULL'')"
| "webhook_error_status WebhookBodyMalformed = (400, ''WEBHOOK_BODY_MALFORMED'')"

record 'j verified_webhook =
  vw_signature :: parsed_signature
  vw_bodyDigest :: string
  vw_rawBody :: string
  vw_body :: "'j option"

definition readSignatureHeader :: "webhook_request \<Rightarrow> webhook_error + string" where
  "readSignatureHeader req =
     (case wq_signature req of
        Absent \<Rightarrow> Inl WebhookSignatureRequired
      | Multiple \<Rightarrow> Inl (WebhookSignatureMalformed RepeatedHeader)
      | Single raw \<Rightarrow> Inr raw)"

definition readRawBody :: "webhook_request \<Rightarrow> webhook_error + string" where
  "readRawBody req = (case wq_rawBody req of None \<Rightarrow> Inl RawBodyMissing | Some b \<Rightarrow> Inr b)"

text \<open>
  Everything before the nonce is recorded: the parsed header and the raw body, or the
  refusal. \<open>now\<close> is in milliseconds and \<open>toleranceSeconds\<close> an integer, as
  \<open>WEBHOOK_TOLERANCE_SECONDS\<close> is.
\<close>

definition authenticate_delivery ::
  "(string \<Rightarrow> string) \<Rightarrow> (string \<Rightarrow> string \<Rightarrow> string) \<Rightarrow> (string \<Rightarrow> signing_secret option) \<Rightarrow> int \<Rightarrow> int
   \<Rightarrow> webhook_request \<Rightarrow> webhook_error + parsed_signature \<times> string" where
  "authenticate_delivery sha256 hmac find_key toleranceSeconds now req =
     (case readSignatureHeader req of Inl e \<Rightarrow> Inl e | Inr raw \<Rightarrow>
     (case parseSignatureHeader raw of Inl m \<Rightarrow> Inl (WebhookSignatureMalformed m) | Inr presented \<Rightarrow>
     (case readRawBody req of Inl e \<Rightarrow> Inl e | Inr rawBody \<Rightarrow>
       (let skewSeconds = now div 1000 - int (ps_timestamp presented) in
        if toleranceSeconds < \<bar>skewSeconds\<bar> then Inl (WebhookTimestampOutOfWindow skewSeconds)
        else case find_key (ps_keyId presented) of
            None \<Rightarrow> Inl UnknownKeyId
          | Some entry \<Rightarrow>
              (case canonicalRequest sha256
                  \<lparr>sp_timestamp = int (ps_timestamp presented), sp_nonce = ps_nonce presented,
                   sp_method = wq_method req, sp_target = wq_originalUrl req, sp_body = rawBody\<rparr> of
                 Inl m \<Rightarrow> Inl (WebhookSignatureMalformed m)
               | Inr canonical \<Rightarrow>
                   if \<not> digestsMatch (computeDigest hmac (ss_secret entry) canonical) (ps_digest presented)
                   then Inl DigestMismatch
                   else Inr (presented, rawBody))))))"

definition nonce_key :: "parsed_signature \<Rightarrow> string" where
  "nonce_key s = ps_keyId s @ '':'' @ ps_nonce s"

definition nonce_expiry :: "int \<Rightarrow> parsed_signature \<Rightarrow> int" where
  "nonce_expiry toleranceSeconds s = (int (ps_timestamp s) + toleranceSeconds) * 1000"

text \<open>The guard reads its own clock, after the handler: \<open>guardNow\<close>.\<close>

definition verifyWebhookSignatureHandler ::
  "(string \<Rightarrow> string) \<Rightarrow> (string \<Rightarrow> string \<Rightarrow> string) \<Rightarrow> (string \<Rightarrow> 'j option)
   \<Rightarrow> (string \<Rightarrow> int \<Rightarrow> int \<Rightarrow> 'g \<Rightarrow> 'g \<times> replay_decision) \<Rightarrow> (string \<Rightarrow> signing_secret option) \<Rightarrow> int \<Rightarrow> bool
   \<Rightarrow> int \<Rightarrow> int \<Rightarrow> webhook_request \<Rightarrow> 'g \<Rightarrow> 'g \<times> (webhook_error + 'j verified_webhook)" where
  "verifyWebhookSignatureHandler sha256 hmac json_parse remember' find_key toleranceSeconds parseJsonBody now guardNow req g =
     (case authenticate_delivery sha256 hmac find_key toleranceSeconds now req of
        Inl e \<Rightarrow> (g, Inl e)
      | Inr (presented, rawBody) \<Rightarrow>
          (case remember' (nonce_key presented) (nonce_expiry toleranceSeconds presented) guardNow g of
             (g1, Replayed) \<Rightarrow> (g1, Inl WebhookReplayed)
           | (g1, CacheFull) \<Rightarrow> (g1, Inl WebhookReplayCacheFull)
           | (g1, Accepted) \<Rightarrow>
               (let verified = \<lparr>vw_signature = presented, vw_bodyDigest = bodyDigest sha256 rawBody,
                                vw_rawBody = rawBody, vw_body = None\<rparr> in
                if parseJsonBody
                then (case json_parse rawBody of
                        None \<Rightarrow> (g1, Inl WebhookBodyMalformed)
                      | Some j \<Rightarrow> (g1, Inr (verified\<lparr>vw_body := Some j\<rparr>)))
                else (g1, Inr verified))))"

text \<open>The factory refuses a tolerance that is not positive before it returns the handler.\<close>

definition verifyWebhookSignature ::
  "(string \<Rightarrow> string) \<Rightarrow> (string \<Rightarrow> string \<Rightarrow> string) \<Rightarrow> (string \<Rightarrow> 'j option)
   \<Rightarrow> (string \<Rightarrow> int \<Rightarrow> int \<Rightarrow> 'g \<Rightarrow> 'g \<times> replay_decision) \<Rightarrow> (string \<Rightarrow> signing_secret option) \<Rightarrow> int \<Rightarrow> bool
   \<Rightarrow> int + (int \<Rightarrow> int \<Rightarrow> webhook_request \<Rightarrow> 'g \<Rightarrow> 'g \<times> (webhook_error + 'j verified_webhook))" where
  "verifyWebhookSignature sha256 hmac json_parse remember' find_key toleranceSeconds parseJsonBody =
     (if toleranceSeconds \<le> 0 then Inl toleranceSeconds
      else Inr (verifyWebhookSignatureHandler sha256 hmac json_parse remember' find_key
                  toleranceSeconds parseJsonBody))"

text \<open>A sequence of deliveries, each with the clock readings it is handled at.\<close>

type_synonym delivery = "int \<times> int \<times> webhook_request"

definition deliver ::
  "(int \<Rightarrow> int \<Rightarrow> webhook_request \<Rightarrow> 'g \<Rightarrow> 'g \<times> (webhook_error + 'j verified_webhook)) \<Rightarrow> delivery \<Rightarrow> 'g \<Rightarrow> 'g" where
  "deliver handler d g = (case d of (now, guardNow, req) \<Rightarrow> fst (handler now guardNow req g))"

section \<open>Lemmas on the signature scheme\<close>

lemma is_id_char_plain:
  assumes "is_id_char c"
  shows "c \<noteq> CHR '',''" "c \<noteq> CHR '':''" "c \<noteq> char_of (10::nat)" "\<not> is_ws c"
proof -
  have "code c \<noteq> 44" "code c \<noteq> 58" "code c \<noteq> 10" "\<not> is_ws c"
    using assms by (auto simp: is_id_char_def is_digit_def is_ws_def code_def)
  then show "c \<noteq> CHR '',''" "c \<noteq> CHR '':''" "c \<noteq> char_of (10::nat)" "\<not> is_ws c"
    by (auto simp: code_def)
qed

lemma is_digit_id: "is_digit c \<Longrightarrow> is_id_char c"
  by (simp add: is_id_char_def)

lemma is_lower_hex_id: "is_lower_hex c \<Longrightarrow> is_id_char c"
  by (auto simp: is_lower_hex_def is_id_char_def)

lemma show_nat_id: "list_all is_id_char (show_nat n)"
  using show_nat_digits [of n] by (auto simp: list_all_iff is_digit_id)

lemma id_chars_plain:
  assumes "list_all is_id_char s"
  shows "CHR '','' \<notin> set s" "CHR '':'' \<notin> set s" "char_of (10::nat) \<notin> set s" "\<forall>c \<in> set s. \<not> is_ws c"
  using assms unfolding list_all_iff by (blast dest: is_id_char_plain)+

lemma canonicalRequest_Inr:
  "canonicalRequest sha256 p = Inr s \<longleftrightarrow>
     0 \<le> sp_timestamp p \<and> nonce_pattern (sp_nonce p)
     \<and> list_all (\<lambda>c. code c \<noteq> 13 \<and> code c \<noteq> 10) (sp_target p)
     \<and> s = ''v1'' @ char_of (10::nat) # show_nat (nat (sp_timestamp p)) @ char_of (10::nat) # sp_nonce p
           @ char_of (10::nat) # toUpperCase (sp_method p) @ char_of (10::nat) # sp_target p
           @ char_of (10::nat) # sha256 (sp_body p)"
  by (auto simp: canonicalRequest_def bodyDigest_def WEBHOOK_SIGNATURE_VERSION_def list_ex_iff list_all_iff)

lemma hex_val_lower: "is_lower_hex c \<Longrightarrow> \<exists>v < 16. hex_val c = Some v"
  by (auto simp: is_lower_hex_def hex_val_def is_digit_def)

lemma hex_val_inject:
  "is_lower_hex a \<Longrightarrow> is_lower_hex b \<Longrightarrow> hex_val a = hex_val b \<Longrightarrow> a = b"
  by (auto simp: is_lower_hex_def hex_val_def is_digit_def code_inject [symmetric] split: if_splits)

lemma byte_inject:
  fixes a b c d :: nat
  assumes "16 * a + b = 16 * c + d" "b < 16" "d < 16"
  shows "a = c \<and> b = d"
proof -
  have "(16 * a + b) div 16 = a" "(16 * c + d) div 16 = c"
    using assms(2,3) by simp_all
  then have "a = c"
    using assms(1) by simp
  then show ?thesis
    using assms(1) by simp
qed

lemma hex_bytes_inject:
  "length s = length t \<Longrightarrow> even (length s) \<Longrightarrow> list_all is_lower_hex s \<Longrightarrow> list_all is_lower_hex t
   \<Longrightarrow> hex_bytes s = hex_bytes t \<Longrightarrow> s = t"
proof (induction s arbitrary: t rule: hex_bytes.induct)
  case (1 a b s)
  obtain c d u where t: "t = c # d # u"
    using "1.prems"(1) by (cases t rule: hex_bytes.cases) auto
  have h: "is_lower_hex a" "is_lower_hex b" "is_lower_hex c" "is_lower_hex d"
    using "1.prems" t by simp_all
  then obtain va vb vc vd where v: "hex_val a = Some va" "hex_val b = Some vb" "hex_val c = Some vc"
    "hex_val d = Some vd" "vb < 16" "vd < 16"
    using hex_val_lower by meson
  have e: "16 * va + vb = 16 * vc + vd" and rest: "hex_bytes s = hex_bytes u"
    using "1.prems"(5) v by (simp_all add: t)
  have "va = vc" "vb = vd"
    using byte_inject [OF e v(5,6)] by simp_all
  then have "a = c" "b = d"
    using v hex_val_inject [OF h(1,3)] hex_val_inject [OF h(2,4)] by simp_all
  moreover have "s = u"
    using v(1,2) rest "1.prems"(1-4) t by (intro "1.IH") simp_all
  ultimately show ?case
    using t by simp
qed auto

lemma hex_bytes_not_Nil: "2 \<le> length s \<Longrightarrow> list_all is_lower_hex s \<Longrightarrow> hex_bytes s \<noteq> []"
  by (induction s rule: hex_bytes.induct) (auto dest!: hex_val_lower)

lemma digestsMatch_eq:
  assumes "length e = 64" "hex_pattern e" "length p = 64" "hex_pattern p"
  shows "digestsMatch e p \<longleftrightarrow> e = p"
  using assms hex_bytes_inject [of e p] hex_bytes_not_Nil [of e]
  by (auto simp: digestsMatch_def hex_pattern_def Let_def)

definition wf_signature :: "parsed_signature \<Rightarrow> bool" where
  "wf_signature s \<longleftrightarrow> ps_timestamp s < 10 ^ 15 \<and> nonce_pattern (ps_nonce s)
     \<and> length (ps_digest s) = DIGEST_HEX_LENGTH \<and> hex_pattern (ps_digest s)"

lemma parseSignatureHeader_wf: "parseSignatureHeader raw = Inr s \<Longrightarrow> wf_signature s"
proof (clarsimp simp: parseSignatureHeader_def wf_signature_def split: sum.splits option.splits if_splits)
  fix t :: string
  assume u: "unsigned_integer_pattern t"
  have "of_digits t < 10 ^ length t"
    using of_digits_bound [of t] u by (auto simp: unsigned_integer_pattern_def list_all_iff)
  also have "(10::nat) ^ length t \<le> 10 ^ 15"
    using u by (intro power_increasing) (auto simp: unsigned_integer_pattern_def)
  finally show "of_digits t < 1000000000000000"
    by simp
qed

lemma trim_field:
  assumes "list_all is_id_char v" "v \<noteq> []" "k \<noteq> []" "list_all is_id_char k"
  shows "trim (k @ ''='' @ v) = k @ ''='' @ v"
  using assms id_chars_plain(4) [of k] id_chars_plain(4) [of v] by (intro trim_id) auto

lemma id_no_eq: "is_id_char c \<Longrightarrow> c \<noteq> CHR ''=''"
  by (auto simp: is_id_char_def is_digit_def code_def)

lemma parse_fields_step:
  assumes "list_all is_id_char v" "v \<noteq> []" "list_all is_id_char k" "k \<noteq> []" "js_get m k = None"
  shows "parse_fields ((k @ ''='' @ v) # fs) m = parse_fields fs (m @ [(k, v)])"
proof -
  have "CHR ''='' \<notin> set k"
    using assms(3) unfolding list_all_iff by (blast dest: id_no_eq)
  then have i: "index_of (CHR ''='') (k @ CHR ''='' # v) = Some (length k)"
    by (rule index_of_append)
  show ?thesis
    using assms trim_field [OF assms(1,2,4,3)]
    by (simp add: i js_set_new Let_def)
qed

lemma format_split:
  assumes "list_all is_id_char (ps_nonce s)" "list_all is_id_char (ps_keyId s)" "list_all is_id_char (ps_digest s)"
  shows "split_on (CHR '','') (formatSignatureHeader s) =
    [''t='' @ show_nat (ps_timestamp s), ''n='' @ ps_nonce s, ''kid='' @ ps_keyId s, ''v1='' @ ps_digest s]"
proof -
  have e: "formatSignatureHeader s = (''t='' @ show_nat (ps_timestamp s)) @ CHR '','' # (''n='' @ ps_nonce s)
      @ CHR '','' # (''kid='' @ ps_keyId s) @ CHR '','' # (''v1='' @ ps_digest s)"
    by (simp add: formatSignatureHeader_def WEBHOOK_SIGNATURE_VERSION_def)
  have c: "CHR '','' \<notin> set (''t='' @ show_nat (ps_timestamp s))" "CHR '','' \<notin> set (''n='' @ ps_nonce s)"
    "CHR '','' \<notin> set (''kid='' @ ps_keyId s)" "CHR '','' \<notin> set (''v1='' @ ps_digest s)"
    using id_chars_plain(1) [OF show_nat_id] id_chars_plain(1) [OF assms(1)] id_chars_plain(1) [OF assms(2)]
      id_chars_plain(1) [OF assms(3)] by auto
  show ?thesis
    unfolding e by (simp only: split_on_append [OF c(1)] split_on_append [OF c(2)] split_on_append [OF c(3)]
        split_on_single [OF c(4)])
qed

lemma id_chars_of_wf:
  "wf_signature s \<Longrightarrow> list_all is_id_char (ps_nonce s) \<and> list_all is_id_char (ps_digest s)
     \<and> ps_nonce s \<noteq> [] \<and> ps_digest s \<noteq> []"
  by (auto simp: wf_signature_def nonce_pattern_def hex_pattern_def list_all_iff is_lower_hex_id)

lemma unsigned_show: "n < 10 ^ 15 \<Longrightarrow> unsigned_integer_pattern (show_nat n)"
  using length_show_nat [of n 15] show_nat_digits [of n]
  by (simp add: unsigned_integer_pattern_def list_all_iff Suc_le_eq)

lemma parse_format:
  assumes w: "wf_signature s" and k: "key_id_pattern (ps_keyId s)"
  shows "parse_fields (split_on (CHR '','') (formatSignatureHeader s)) [] =
    Inr [(''t'', show_nat (ps_timestamp s)), (''n'', ps_nonce s), (''kid'', ps_keyId s), (''v1'', ps_digest s)]"
proof -
  have i: "list_all is_id_char ''t''" "list_all is_id_char ''n''" "list_all is_id_char ''kid''"
    "list_all is_id_char ''v1''"
    by code_simp+
  have kid: "list_all is_id_char (ps_keyId s)" "ps_keyId s \<noteq> []"
    using k by (auto simp: key_id_pattern_def)
  note ids = id_chars_of_wf [OF w]
  show ?thesis
    unfolding format_split [OF conjunct1 [OF ids] kid(1) conjunct1 [OF conjunct2 [OF ids]]]
    using parse_fields_step [OF show_nat_id [of "ps_timestamp s"] show_nat_not_Nil i(1)]
      parse_fields_step [OF _ _ i(2), of "ps_nonce s"] parse_fields_step [OF kid i(3)]
      parse_fields_step [OF _ _ i(4), of "ps_digest s"] ids
    by simp
qed

section \<open>The interface of a replay guard\<close>

text \<open>
  What \<open>ReplayGuard\<close> promises its caller: \<open>held g k\<close> is the deadline recorded for \<open>k\<close>. A key
  is refused as replayed exactly while an unexpired record of it is held, an accepted key is
  recorded with its deadline, and no call drops an unexpired record.
\<close>

locale nonce_guard =
  fixes held :: "'g \<Rightarrow> string \<Rightarrow> int option"
    and ok :: "'g \<Rightarrow> bool"
    and remember_op :: "string \<Rightarrow> int \<Rightarrow> int \<Rightarrow> 'g \<Rightarrow> 'g \<times> replay_decision"
  assumes keeps_ok: "ok g \<Longrightarrow> ok (fst (remember_op k e now g))"
    and replayed_iff: "ok g \<Longrightarrow> snd (remember_op k e now g) = Replayed \<longleftrightarrow> (\<exists>h. held g k = Some h \<and> now < h)"
    and accepted_held: "ok g \<Longrightarrow> snd (remember_op k e now g) = Accepted \<Longrightarrow> held (fst (remember_op k e now g)) k = Some e"
    and unexpired_kept: "ok g \<Longrightarrow> held g j = Some h \<Longrightarrow> now < h \<Longrightarrow> held (fst (remember_op k e now g)) j = Some h"
begin

lemma handler_keeps_ok:
  "ok g \<Longrightarrow> ok (fst (verifyWebhookSignatureHandler sha256 hmac js remember_op fk tol pj now gnow req g))"
  using keeps_ok
  by (auto simp: verifyWebhookSignatureHandler_def Let_def split: sum.splits prod.splits replay_decision.splits
      option.splits) (metis fst_conv)+

lemma handler_Inr:
  assumes "verifyWebhookSignatureHandler sha256 hmac js remember_op fk tol pj now gnow req g = (g1, Inr v)"
  shows "\<exists>raw. authenticate_delivery sha256 hmac fk tol now req = Inr (vw_signature v, raw)
     \<and> remember_op (nonce_key (vw_signature v)) (nonce_expiry tol (vw_signature v)) gnow g = (g1, Accepted)
     \<and> vw_rawBody v = raw \<and> vw_bodyDigest v = sha256 raw"
  using assms
  by (auto simp: verifyWebhookSignatureHandler_def Let_def bodyDigest_def
      split: sum.splits prod.splits replay_decision.splits option.splits if_splits)

lemma handler_keeps_held:
  assumes "ok g" "held g k = Some h" "gnow < h"
  shows "held (fst (verifyWebhookSignatureHandler sha256 hmac js remember_op fk tol pj now gnow req g)) k = Some h"
  using assms unexpired_kept [OF assms]
  by (auto simp: verifyWebhookSignatureHandler_def Let_def split: sum.splits prod.splits replay_decision.splits
      option.splits) (metis fst_conv)+

lemma deliveries_keep_held:
  "ok g \<Longrightarrow> held g k = Some h \<Longrightarrow> \<forall>(now', gnow', req') \<in> set ds. gnow' < h
   \<Longrightarrow> held (fold (deliver (verifyWebhookSignatureHandler sha256 hmac js remember_op fk tol pj)) ds g) k = Some h
     \<and> ok (fold (deliver (verifyWebhookSignatureHandler sha256 hmac js remember_op fk tol pj)) ds g)"
  by (induction ds arbitrary: g) (auto simp: deliver_def handler_keeps_held handler_keeps_ok)

lemma no_second_admission:
  assumes "ok g"
    and first: "verifyWebhookSignatureHandler sha256 hmac js remember_op fk tol pj now gnow req g = (g1, Inr v)"
    and between: "\<forall>(now', gnow', req') \<in> set ds. gnow' < nonce_expiry tol (vw_signature v)"
    and before: "gnow2 < nonce_expiry tol (vw_signature v)"
    and second: "verifyWebhookSignatureHandler sha256 hmac js remember_op fk tol pj now2 gnow2 req2
       (fold (deliver (verifyWebhookSignatureHandler sha256 hmac js remember_op fk tol pj)) ds g1) = (g2, Inr w)"
  shows "nonce_key (vw_signature w) \<noteq> nonce_key (vw_signature v)"
proof
  assume same: "nonce_key (vw_signature w) = nonce_key (vw_signature v)"
  let ?g = "fold (deliver (verifyWebhookSignatureHandler sha256 hmac js remember_op fk tol pj)) ds g1"
  have r: "remember_op (nonce_key (vw_signature v)) (nonce_expiry tol (vw_signature v)) gnow g = (g1, Accepted)"
    using handler_Inr [OF first] by blast
  have "ok g1" "held g1 (nonce_key (vw_signature v)) = Some (nonce_expiry tol (vw_signature v))"
    using keeps_ok [OF assms(1)] accepted_held [OF assms(1)] r by (metis fst_conv, metis fst_conv snd_conv)
  then have "held ?g (nonce_key (vw_signature v)) = Some (nonce_expiry tol (vw_signature v))" "ok ?g"
    using deliveries_keep_held [OF _ _ between] by blast+
  then have "snd (remember_op (nonce_key (vw_signature w)) e gnow2 ?g) = Replayed" for e
    using replayed_iff same before by auto
  then show False
    using handler_Inr [OF second] by (metis replay_decision.distinct(1) snd_conv)
qed

end

definition guard_ok :: "replay_guard \<Rightarrow> bool" where
  "guard_ok g \<longleftrightarrow> js_ok (rg_seen g) \<and> length (rg_seen g) \<le> rg_maxEntries g"

definition guard_held :: "replay_guard \<Rightarrow> string \<Rightarrow> int option" where
  "guard_held g k = js_get (rg_seen g) k"

lemma sweep_fields [simp]:
  "rg_maxEntries (sweep now g) = rg_maxEntries g"
  "rg_seen (sweep now g) = js_sweep (\<lambda>e. e \<le> now) (rg_seen g)"
  by (simp_all add: sweep_def)

lemma guard_insert_ok:
  "guard_ok g \<Longrightarrow> js_get (rg_seen g) k = None \<Longrightarrow> guard_ok (fst (guard_insert k e now g))"
  using length_sweep_le [of "\<lambda>e. e \<le> now" "rg_seen g"]
  by (auto simp: guard_ok_def guard_insert_def Let_def length_js_set split: if_splits)

lemma guard_insert_decision: "snd (guard_insert k e now g) \<noteq> Replayed"
  by (simp add: guard_insert_def Let_def)

lemma guard_insert_held:
  "snd (guard_insert k e now g) = Accepted \<Longrightarrow> guard_held (fst (guard_insert k e now g)) k = Some e"
  by (auto simp: guard_insert_def guard_held_def Let_def split: if_splits)

lemma guard_insert_keeps:
  "guard_ok g \<Longrightarrow> j \<noteq> k \<Longrightarrow> guard_held g j = Some h \<Longrightarrow> now < h
   \<Longrightarrow> guard_held (fst (guard_insert k e now g)) j = Some h"
  by (auto simp: guard_insert_def guard_held_def guard_ok_def Let_def js_get_sweep)

lemma guard_ok_delete:
  "guard_ok g \<Longrightarrow> guard_ok (g\<lparr>rg_seen := js_delete k (rg_seen g)\<rparr>)"
  using length_delete_le [of k "rg_seen g"] by (auto simp: guard_ok_def)

interpretation memory_guard: nonce_guard guard_held guard_ok remember
proof
  fix g k e now
  assume ok: "guard_ok g"
  note del = guard_ok_delete [OF ok, of k]
  show "guard_ok (fst (remember k e now g))"
    using ok guard_insert_ok [OF ok] guard_insert_ok [OF del]
    by (auto simp: remember_def split: option.splits)
  show "snd (remember k e now g) = Replayed \<longleftrightarrow> (\<exists>h. guard_held g k = Some h \<and> now < h)"
    by (auto simp: remember_def guard_held_def guard_insert_decision split: option.splits)
  show "guard_held (fst (remember k e now g)) k = Some e" if "snd (remember k e now g) = Accepted"
    using that by (auto simp: remember_def guard_insert_held split: option.splits if_splits)
  fix j h
  assume "guard_held g j = Some h" "now < h"
  then show "guard_held (fst (remember k e now g)) j = Some h"
    using guard_insert_keeps [OF ok] guard_insert_keeps [OF del]
    by (cases "j = k") (auto simp: remember_def guard_held_def split: option.splits)
qed

lemma authenticate_Inr:
  assumes "authenticate_delivery sha256 hmac fk tol now req = Inr (presented, raw)"
  shows "wf_signature presented \<and> \<bar>now div 1000 - int (ps_timestamp presented)\<bar> \<le> tol \<and> wq_rawBody req = Some raw
    \<and> (\<exists>entry canonical. fk (ps_keyId presented) = Some entry
        \<and> canonicalRequest sha256 \<lparr>sp_timestamp = int (ps_timestamp presented), sp_nonce = ps_nonce presented,
            sp_method = wq_method req, sp_target = wq_originalUrl req, sp_body = raw\<rparr> = Inr canonical
        \<and> digestsMatch (hmac (ss_secret entry) canonical) (ps_digest presented))"
proof -
  from assms obtain h entry canonical where "readSignatureHeader req = Inr h" and p: "parseSignatureHeader h = Inr presented"
    and b: "readRawBody req = Inr raw" and t: "\<bar>now div 1000 - int (ps_timestamp presented)\<bar> \<le> tol"
    and k: "fk (ps_keyId presented) = Some entry"
    and c: "canonicalRequest sha256 \<lparr>sp_timestamp = int (ps_timestamp presented), sp_nonce = ps_nonce presented,
            sp_method = wq_method req, sp_target = wq_originalUrl req, sp_body = raw\<rparr> = Inr canonical"
    and d: "digestsMatch (hmac (ss_secret entry) canonical) (ps_digest presented)"
    by (auto simp: authenticate_delivery_def Let_def computeDigest_def split: sum.splits option.splits if_splits)
  have "wq_rawBody req = Some raw"
    using b by (auto simp: readRawBody_def split: option.splits)
  then show ?thesis
    using parseSignatureHeader_wf [OF p] t k c d by blast
qed

lemma parseEntry_Inr:
  "parseEntry unbase64 base64 raw pos = Inr e
   \<Longrightarrow> key_id_pattern (ss_id e) \<and> MIN_SECRET_BYTES \<le> length (ss_secret e) \<and> length (ss_secret e) \<le> MAX_SECRET_BYTES"
  by (auto simp: parseEntry_def Let_def split: option.splits if_splits)

definition ring_entries_ok :: "(string, signing_secret) js_map \<Rightarrow> bool" where
  "ring_entries_ok m \<longleftrightarrow> js_ok m \<and> list_all (\<lambda>(k, e). ss_id e = k \<and> key_id_pattern k
     \<and> MIN_SECRET_BYTES \<le> length (ss_secret e) \<and> length (ss_secret e) \<le> MAX_SECRET_BYTES) m"

lemma collect_entries_ok:
  "ring_entries_ok m \<Longrightarrow> collect_entries unbase64 base64 raws n m = Inr m' \<Longrightarrow> ring_entries_ok m'"
proof (induction raws arbitrary: n m)
  case (Cons raw raws)
  then obtain e where e: "parseEntry unbase64 base64 raw (n + 1) = Inr e" "js_get m (ss_id e) = None"
    "collect_entries unbase64 base64 raws (n + 1) (js_set (ss_id e) e m) = Inr m'"
    by (auto split: sum.splits if_splits)
  have "ring_entries_ok (js_set (ss_id e) e m)"
    using Cons.prems(1) parseEntry_Inr [OF e(1)] js_set_new [OF e(2), of e] js_ok_set [of m "ss_id e" e]
    by (simp add: ring_entries_ok_def)
  then show ?case
    using Cons.IH e(3) by blast
qed simp

lemma guard_insert_full:
  assumes "guard_ok g" "snd (guard_insert k e now g) = CacheFull"
  shows "length (filter (\<lambda>(j, h). now < h) (rg_seen g)) = rg_maxEntries g"
proof -
  have "js_sweep (\<lambda>h. h \<le> now) (rg_seen g) = filter (\<lambda>(j, h). now < h) (rg_seen g)"
    by (auto simp: js_sweep_def intro!: filter_cong)
  then show ?thesis
    using assms by (auto simp: guard_insert_def guard_ok_def Let_def intro: le_antisym split: if_splits)
qed

definition remember_step :: "string \<times> int \<times> int \<Rightarrow> replay_guard \<Rightarrow> replay_guard" where
  "remember_step = (\<lambda>(k, e, now) g. fst (remember k e now g))"

interpretation guard_inv: step_invariant remember_step guard_ok
  by unfold_locales (auto simp: remember_step_def memory_guard.keeps_ok)

lemma guard_after_ok:
  "createMemoryReplayGuard n = Inr g0 \<Longrightarrow> guard_ok (fold remember_step calls g0)"
  by (rule guard_inv.run_keeps) (auto simp: createMemoryReplayGuard_def guard_ok_def split: if_splits)

lemma parse_format_signature:
  assumes "wf_signature s" "key_id_pattern (ps_keyId s)"
  shows "parseSignatureHeader (formatSignatureHeader s) = Inr s"
  using assms parse_format [OF assms] unsigned_show [of "ps_timestamp s"]
  by (simp add: parseSignatureHeader_def wf_signature_def WEBHOOK_SIGNATURE_VERSION_def)

lemma signWebhookRequest_Inr:
  assumes "signWebhookRequest sha256 hmac parse_url ring verb url body now nonce = Inr signed"
  shows "sw_header signed = formatSignatureHeader (sw_signature signed)"
    "sw_signature signed = \<lparr>ps_timestamp = nat (now div 1000), ps_nonce = nonce, ps_keyId = ss_id (sr_active ring),
       ps_digest = hmac (ss_secret (sr_active ring)) (sw_canonical signed)\<rparr>"
    "canonicalRequest sha256 \<lparr>sp_timestamp = now div 1000, sp_nonce = nonce, sp_method = verb,
       sp_target = toTarget parse_url url, sp_body = body\<rparr> = Inr (sw_canonical signed)"
  using assms by (auto simp: signWebhookRequest_def Let_def computeDigest_def split: sum.splits)

lemma canonicalRequest_cong:
  "toUpperCase (sp_method p) = toUpperCase (sp_method q) \<Longrightarrow> sp_timestamp p = sp_timestamp q \<Longrightarrow> sp_nonce p = sp_nonce q
   \<Longrightarrow> sp_target p = sp_target q \<Longrightarrow> sp_body p = sp_body q \<Longrightarrow> canonicalRequest sha256 p = canonicalRequest sha256 q"
  by (simp add: canonicalRequest_def)

section \<open>Properties\<close>

text \<open>
  No two requests that differ in timestamp, nonce, upper-cased verb, target or body digest
  have the same canonical string, so a signature covers each of them; the verb may hold
  anything, a newline included.
\<close>

lemma canonical_request_injective:
  assumes hex: "\<forall>b. hex_pattern (sha256 b)"
    and p: "canonicalRequest sha256 p = Inr s" and q: "canonicalRequest sha256 q = Inr s"
  shows "sp_timestamp p = sp_timestamp q \<and> sp_nonce p = sp_nonce q
    \<and> toUpperCase (sp_method p) = toUpperCase (sp_method q) \<and> sp_target p = sp_target q
    \<and> sha256 (sp_body p) = sha256 (sp_body q)"
proof -
  let ?n = "char_of (10::nat) :: char"
  have n: "?n \<notin> set (show_nat k)" "?n \<notin> set (sha256 b)" for k b
    using id_chars_plain(3) [OF show_nat_id] hex is_lower_hex_id
      id_chars_plain(3) [of "sha256 b"] by (auto simp: hex_pattern_def list_all_iff)
  have c: "?n \<notin> set (sp_nonce r) \<and> ?n \<notin> set (sp_target r) \<and> 0 \<le> sp_timestamp r"
    if "canonicalRequest sha256 r = Inr s" for r
    using that id_chars_plain(3) [of "sp_nonce r"] code_char_of [of 10]
    by (auto simp: canonicalRequest_Inr nonce_pattern_def list_all_iff)
  note cp = c [OF p] and cq = c [OF q]
  have e: "show_nat (nat (sp_timestamp p)) @ ?n # sp_nonce p @ ?n # toUpperCase (sp_method p) @ ?n # sp_target p
      @ ?n # sha256 (sp_body p) = show_nat (nat (sp_timestamp q)) @ ?n # sp_nonce q @ ?n # toUpperCase (sp_method q)
      @ ?n # sp_target q @ ?n # sha256 (sp_body q)"
    using p q by (simp add: canonicalRequest_Inr)
  note e1 = cut_first [OF e n(1) n(1)]
  then have ts: "sp_timestamp p = sp_timestamp q"
    using cp cq by (simp add: show_nat_inject eq_nat_nat_iff)
  note e2 = cut_first [OF conjunct2 [OF e1]]
  then have "sp_nonce p = sp_nonce q" and e3: "(toUpperCase (sp_method p) @ ?n # sp_target p) @ ?n # sha256 (sp_body p)
      = (toUpperCase (sp_method q) @ ?n # sp_target q) @ ?n # sha256 (sp_body q)"
    using cp cq by simp_all
  moreover note e4 = cut_last [OF e3 n(2) n(2)]
  moreover note cut_last [OF conjunct1 [OF e4]]
  ultimately show ?thesis
    using ts cp cq by simp
qed

definition demo_hash :: "string \<Rightarrow> string" where
  "demo_hash s = replicate 63 (CHR ''0'') @ [if even (length s) then CHR ''a'' else CHR ''b'']"

definition demo_hmac :: "string \<Rightarrow> string \<Rightarrow> string" where
  "demo_hmac secret s = demo_hash (secret @ s)"

lemma demo_hash_hex: "hex_pattern (demo_hash s) \<and> length (demo_hash s) = 64"
  by (simp add: demo_hash_def hex_pattern_def is_lower_hex_def is_digit_def code_def list_all_iff)

definition demo_signature :: parsed_signature where
  "demo_signature = \<lparr>ps_timestamp = 1000, ps_nonce = ''nonce-0123456789'', ps_keyId = ''k1'',
     ps_digest = replicate 63 (CHR ''0'') @ ''a''\<rparr>"

definition demo_request :: webhook_request where
  "demo_request = \<lparr>wq_signature = Single (formatSignatureHeader demo_signature), wq_method = ''post'',
     wq_originalUrl = ''/in'', wq_rawBody = Some ''{}''\<rparr>"

definition demo_find :: "string \<Rightarrow> signing_secret option" where
  "demo_find k = (if k = ''k1'' then Some \<lparr>ss_id = ''k1'', ss_secret = ''0123456789abcdef0123456789abcdef''\<rparr> else None)"

definition demo_handle :: "int \<Rightarrow> int \<Rightarrow> webhook_request \<Rightarrow> replay_guard \<Rightarrow> replay_guard \<times> (webhook_error + string verified_webhook)" where
  "demo_handle = verifyWebhookSignatureHandler demo_hash demo_hmac Some remember demo_find 300 True"

definition demo_guard :: replay_guard where
  "demo_guard = \<lparr>rg_seen = [], rg_maxEntries = 2\<rparr>"

definition demo_admitted :: "string verified_webhook" where
  "demo_admitted = \<lparr>vw_signature = demo_signature, vw_bodyDigest = demo_hash ''{}'', vw_rawBody = ''{}'', vw_body = Some ''{}''\<rparr>"

definition demo_parts :: "string \<Rightarrow> signing_parts" where
  "demo_parts m = \<lparr>sp_timestamp = 1000, sp_nonce = ''nonce-0123456789'', sp_method = m, sp_target = ''/in'', sp_body = ''{}''\<rparr>"

text \<open>
  A request signed by the sending side is authenticated by the receiving side: when the
  receiver's ring holds the sender's active key, the request arrives with the signed target, body
  and verb and the clocks agree within the tolerance, every check before the replay guard
  passes and yields the signature that was sent.
\<close>

lemma signed_request_is_authenticated:
  assumes hex: "\<forall>k m. hex_pattern (hmac k m) \<and> length (hmac k m) = 64"
    and key: "key_id_pattern (ss_id (sr_active ring))" and found: "fk (ss_id (sr_active ring)) = Some (sr_active ring)"
    and signed: "signWebhookRequest sha256 hmac parse_url ring verb url body sent nonce = Inr signed"
    and clock: "sent < 10 ^ 18" "\<bar>now div 1000 - sent div 1000\<bar> \<le> tol"
    and req: "wq_signature req = Single (sw_header signed)" "wq_rawBody req = Some body"
      "wq_originalUrl req = toTarget parse_url url" "toUpperCase (wq_method req) = toUpperCase verb"
  shows "authenticate_delivery sha256 hmac fk tol now req = Inr (sw_signature signed, body)"
proof -
  note sg = signWebhookRequest_Inr [OF signed]
  have ts: "0 \<le> sent div 1000" and nonce: "nonce_pattern nonce"
    using sg(3) by (auto simp: canonicalRequest_Inr)
  have "nat (sent div 1000) < 10 ^ 15"
    using clock(1) ts by (simp add: nat_less_iff)
  then have "wf_signature (sw_signature signed)"
    using hex nonce by (simp add: wf_signature_def sg(2) DIGEST_HEX_LENGTH_def)
  then have p: "parseSignatureHeader (sw_header signed) = Inr (sw_signature signed)"
    unfolding sg(1) using key by (intro parse_format_signature) (simp_all add: sg(2))
  have c: "canonicalRequest sha256 \<lparr>sp_timestamp = sent div 1000, sp_nonce = nonce, sp_method = wq_method req,
      sp_target = toTarget parse_url url, sp_body = body\<rparr> = Inr (sw_canonical signed)"
    unfolding sg(3) [symmetric] by (rule canonicalRequest_cong) (simp_all add: req)
  have d: "digestsMatch (hmac k m) (hmac k m)" for k m
    using hex digestsMatch_eq by blast
  show ?thesis
    using ts clock(2) c d
    by (simp add: authenticate_delivery_def readSignatureHeader_def readRawBody_def req p sg(2) found computeDigest_def)
qed

definition demo_ring1 :: secret_ring where
  "demo_ring1 = (let e = \<lparr>ss_id = ''k1'', ss_secret = ''0123456789abcdef0123456789abcdef''\<rparr> in
     \<lparr>sr_activeKeyId = ''k1'', sr_active = e, sr_byId = [(''k1'', e)]\<rparr>)"

text \<open>
  C24: a delivery reaches the route only when its timestamp is within the tolerance and its digest
  is the HMAC, under the secret its key id names, of the canonical string of this very request
  and raw body.
\<close>

theorem admitted_delivery_is_authentic:
  assumes hex: "\<forall>k m. hex_pattern (hmac k m) \<and> length (hmac k m) = 64"
    and "verifyWebhookSignatureHandler sha256 hmac js remember fk tol pj now gnow req g = (g1, Inr v)"
  shows "\<bar>now div 1000 - int (ps_timestamp (vw_signature v))\<bar> \<le> tol
    \<and> wq_rawBody req = Some (vw_rawBody v) \<and> vw_bodyDigest v = sha256 (vw_rawBody v)
    \<and> (\<exists>entry canonical. fk (ps_keyId (vw_signature v)) = Some entry
        \<and> canonicalRequest sha256 \<lparr>sp_timestamp = int (ps_timestamp (vw_signature v)),
            sp_nonce = ps_nonce (vw_signature v), sp_method = wq_method req,
            sp_target = wq_originalUrl req, sp_body = vw_rawBody v\<rparr> = Inr canonical
        \<and> ps_digest (vw_signature v) = hmac (ss_secret entry) canonical)"
proof -
  obtain raw where a: "authenticate_delivery sha256 hmac fk tol now req = Inr (vw_signature v, raw)"
    and r: "vw_rawBody v = raw" "vw_bodyDigest v = sha256 raw"
    using memory_guard.handler_Inr [OF assms(2)] by blast
  have "wf_signature (vw_signature v)"
    using authenticate_Inr [OF a] by blast
  then have "digestsMatch (hmac k m) (ps_digest (vw_signature v)) \<longleftrightarrow> hmac k m = ps_digest (vw_signature v)" for k m
    using hex digestsMatch_eq by (simp add: wf_signature_def DIGEST_HEX_LENGTH_def)
  then show ?thesis
    using authenticate_Inr [OF a] r by metis
qed

lemma demo_handle_admits:
  "verifyWebhookSignatureHandler demo_hash demo_hmac Some remember demo_find 300 True 1000500 1000500 demo_request demo_guard
   = (\<lparr>rg_seen = [(''k1:nonce-0123456789'', 1300000)], rg_maxEntries = 2\<rparr>, Inr demo_admitted)"
  by code_simp

theorem admitted_delivery_is_authentic_witness:
  "snd (demo_handle 1000500 1000500 demo_request demo_guard) = Inr demo_admitted
   \<and> wq_rawBody demo_request = Some (vw_rawBody demo_admitted)"
  using admitted_delivery_is_authentic [OF _ demo_handle_admits] demo_hash_hex
  by (simp add: demo_handle_admits demo_handle_def demo_hmac_def)

text \<open>
  C5: once a delivery is admitted, no delivery with the same key id and nonce is admitted while
  the guard's clock reads less than \<open>(timestamp + tolerance) * 1000\<close>, whatever deliveries
  come in between and however full the guard is.
\<close>

theorem delivery_not_admitted_twice:
  assumes "createMemoryReplayGuard n = Inr g0"
    and "verifyWebhookSignatureHandler sha256 hmac js remember fk tol pj now gnow req (fold remember_step calls g0) = (g1, Inr v)"
    and "\<forall>(now', gnow', req') \<in> set ds. gnow' < nonce_expiry tol (vw_signature v)"
    and "gnow2 < nonce_expiry tol (vw_signature v)"
    and "verifyWebhookSignatureHandler sha256 hmac js remember fk tol pj now2 gnow2 req2
       (fold (deliver (verifyWebhookSignatureHandler sha256 hmac js remember fk tol pj)) ds g1) = (g2, Inr w)"
  shows "(ps_keyId (vw_signature w), ps_nonce (vw_signature w)) \<noteq> (ps_keyId (vw_signature v), ps_nonce (vw_signature v))"
  using memory_guard.no_second_admission [OF guard_after_ok [OF assms(1)] assms(2-)]
  by (auto simp: nonce_key_def)

definition demo_signature2 :: parsed_signature where
  "demo_signature2 = demo_signature\<lparr>ps_nonce := ''nonce-9876543210'', ps_timestamp := 1001\<rparr>"

definition demo_request2 :: webhook_request where
  "demo_request2 = demo_request\<lparr>wq_signature := Single (formatSignatureHeader demo_signature2)\<rparr>"

lemma demo_handle_replayed:
  "fold (deliver (verifyWebhookSignatureHandler demo_hash demo_hmac Some remember demo_find 300 True))
     [(1000600, 1000600, demo_request)] \<lparr>rg_seen = [(''k1:nonce-0123456789'', 1300000)], rg_maxEntries = 2\<rparr>
   = \<lparr>rg_seen = [(''k1:nonce-0123456789'', 1300000)], rg_maxEntries = 2\<rparr>"
  by code_simp

lemma demo_handle_other:
  "verifyWebhookSignatureHandler demo_hash demo_hmac Some remember demo_find 300 True 1000700 1000700 demo_request2
     \<lparr>rg_seen = [(''k1:nonce-0123456789'', 1300000)], rg_maxEntries = 2\<rparr>
   = (\<lparr>rg_seen = [(''k1:nonce-0123456789'', 1300000), (''k1:nonce-9876543210'', 1301000)], rg_maxEntries = 2\<rparr>,
      Inr (demo_admitted\<lparr>vw_signature := demo_signature2\<rparr>))"
  by code_simp

lemma demo_expiry: "nonce_expiry 300 (vw_signature demo_admitted) = 1300000"
  by code_simp

theorem delivery_not_admitted_twice_witness:
  "createMemoryReplayGuard 2 = Inr demo_guard
   \<and> snd (demo_handle 1000500 1000500 demo_request demo_guard) = Inr demo_admitted
   \<and> (ps_keyId demo_signature2, ps_nonce demo_signature2)
      \<noteq> (ps_keyId demo_signature, ps_nonce demo_signature)"
proof -
  have c: "createMemoryReplayGuard 2 = Inr demo_guard"
    by (simp add: createMemoryReplayGuard_def demo_guard_def)
  have second: "verifyWebhookSignatureHandler demo_hash demo_hmac Some remember demo_find 300 True 1000700 1000700 demo_request2
     (fold (deliver (verifyWebhookSignatureHandler demo_hash demo_hmac Some remember demo_find 300 True))
       [(1000600, 1000600, demo_request)] \<lparr>rg_seen = [(''k1:nonce-0123456789'', 1300000)], rg_maxEntries = 2\<rparr>)
   = (\<lparr>rg_seen = [(''k1:nonce-0123456789'', 1300000), (''k1:nonce-9876543210'', 1301000)], rg_maxEntries = 2\<rparr>,
      Inr (demo_admitted\<lparr>vw_signature := demo_signature2\<rparr>))"
    unfolding demo_handle_replayed by (rule demo_handle_other)
  have first: "verifyWebhookSignatureHandler demo_hash demo_hmac Some remember demo_find 300 True 1000500 1000500 demo_request
      (fold remember_step [] demo_guard)
    = (\<lparr>rg_seen = [(''k1:nonce-0123456789'', 1300000)], rg_maxEntries = 2\<rparr>, Inr demo_admitted)"
    using demo_handle_admits by simp
  have "(ps_keyId (vw_signature (demo_admitted\<lparr>vw_signature := demo_signature2\<rparr>)),
      ps_nonce (vw_signature (demo_admitted\<lparr>vw_signature := demo_signature2\<rparr>)))
    \<noteq> (ps_keyId (vw_signature demo_admitted), ps_nonce (vw_signature demo_admitted))"
    by (rule delivery_not_admitted_twice [OF c first _ _ second]) (simp_all add: demo_expiry)
  then show ?thesis
    using c demo_handle_admits by (simp add: demo_handle_def demo_admitted_def)
qed

text \<open>
  In the last second of the window, when the clock has reached
  \<open>(timestamp + tolerance) * 1000\<close> but \<open>floor(now / 1000)\<close> is still \<open>timestamp + tolerance\<close>, an
  admitted delivery is admitted again when it is replayed at once: the nonce record has already
  expired while the window check still admits the timestamp.
\<close>

lemma last_second_replay_admitted:
  assumes "guard_ok g"
    and "verifyWebhookSignatureHandler sha256 hmac js remember fk tol pj now gnow req g = (g1, Inr v)"
    and late: "nonce_expiry tol (vw_signature v) \<le> gnow"
  shows "verifyWebhookSignatureHandler sha256 hmac js remember fk tol pj now gnow req g1
    = (g1\<lparr>rg_seen := js_set (nonce_key (vw_signature v)) (nonce_expiry tol (vw_signature v))
            (js_delete (nonce_key (vw_signature v)) (rg_seen g1))\<rparr>, Inr v)"
proof -
  let ?k = "nonce_key (vw_signature v)" and ?e = "nonce_expiry tol (vw_signature v)"
  obtain raw where a: "authenticate_delivery sha256 hmac fk tol now req = Inr (vw_signature v, raw)"
    and r: "remember ?k ?e gnow g = (g1, Accepted)"
    using memory_guard.handler_Inr [OF assms(2)] by blast
  have held: "js_get (rg_seen g1) ?k = Some ?e" and ok: "guard_ok g1"
    using memory_guard.accepted_held [OF assms(1), of ?k ?e gnow] memory_guard.keeps_ok [OF assms(1), of ?k ?e gnow] r
    by (simp_all add: guard_held_def)
  have "length (js_delete ?k (rg_seen g1)) < length (rg_seen g1)"
    by (rule length_js_delete_less [OF held])
  then have "\<not> rg_maxEntries g1 \<le> length (js_delete ?k (rg_seen g1))"
    using ok by (simp add: guard_ok_def)
  then have "remember ?k ?e gnow g1 = (g1\<lparr>rg_seen := js_set ?k ?e (js_delete ?k (rg_seen g1))\<rparr>, Accepted)"
    using held late by (simp add: remember_def guard_insert_def)
  then show ?thesis
    using assms(2) by (auto simp: verifyWebhookSignatureHandler_def a r Let_def split: option.splits if_splits)
qed

lemma demo_handle_late:
  "verifyWebhookSignatureHandler demo_hash demo_hmac Some remember demo_find 300 True 1300000 1300000 demo_request demo_guard
   = (\<lparr>rg_seen = [(''k1:nonce-0123456789'', 1300000)], rg_maxEntries = 2\<rparr>, Inr demo_admitted)"
  by code_simp

text \<open>
  Whatever calls the guard has served, it holds at most \<open>maxEntries\<close> records, and it answers
  cache-full only when that many of them are unexpired.
\<close>

lemma guard_capacity:
  assumes "createMemoryReplayGuard n = Inr g0"
  shows "length (rg_seen (fold remember_step calls g0)) \<le> rg_maxEntries (fold remember_step calls g0)
    \<and> (snd (remember k e now (fold remember_step calls g0)) = CacheFull
      \<longrightarrow> length (filter (\<lambda>(j, h). now < h) (rg_seen (fold remember_step calls g0)))
          = rg_maxEntries (fold remember_step calls g0))"
proof -
  define g where "g = fold remember_step calls g0"
  have ok: "guard_ok g"
    unfolding g_def by (rule guard_after_ok [OF assms])
  have "length (filter (\<lambda>(j, h). now < h) (rg_seen g)) = rg_maxEntries g"
    if "snd (remember k e now g) = CacheFull"
  proof (cases "js_get (rg_seen g) k")
    case None
    then show ?thesis
      using that guard_insert_full [OF ok] by (simp add: remember_def)
  next
    case (Some h)
    then have "guard_ok (g\<lparr>rg_seen := js_delete k (rg_seen g)\<rparr>)" "length (js_delete k (rg_seen g)) < length (rg_seen g)"
      using guard_ok_delete [OF ok] length_js_delete_less [OF Some] by blast+
    then show ?thesis
      using that Some ok by (auto simp: remember_def guard_insert_def guard_ok_def split: if_splits)
  qed
  then show ?thesis
    using ok by (simp add: g_def guard_ok_def)
qed

text \<open>
  A parsed ring holds every key id once, under its own name, with a secret of 32 to 64
  bytes, and its active secret is the one its active key id finds.
\<close>

lemma signing_ring_wellformed:
  assumes "parseWebhookSigningSecrets unbase64 base64 spec activeKeyId = Inr ring"
  shows "distinct (ring_ids ring) \<and> ring_find ring activeKeyId = Some (sr_active ring)
    \<and> (\<forall>k e. ring_find ring k = Some e \<longrightarrow> ss_id e = k \<and> k \<in> set (ring_ids ring) \<and> key_id_pattern k
         \<and> 32 \<le> length (ss_secret e) \<and> length (ss_secret e) \<le> 64)"
proof -
  obtain raws byId active where c: "collect_entries unbase64 base64 raws 0 [] = Inr byId"
    and r: "ring = \<lparr>sr_activeKeyId = activeKeyId, sr_active = active, sr_byId = byId\<rparr>" "js_get byId activeKeyId = Some active"
    using assms by (auto simp: parseWebhookSigningSecrets_def Let_def split: if_splits sum.splits option.splits)
  have ok: "ring_entries_ok byId"
    by (rule collect_entries_ok [OF _ c]) (simp add: ring_entries_ok_def)
  have "ss_id e = k \<and> k \<in> fst ` set byId \<and> key_id_pattern k \<and> 32 \<le> length (ss_secret e) \<and> length (ss_secret e) \<le> 64"
    if "js_get byId k = Some e" for k e
    using js_get_in_set [OF that] ok
    by (force simp: ring_entries_ok_def list_all_iff MIN_SECRET_BYTES_def MAX_SECRET_BYTES_def)
  then show ?thesis
    using ok r by (auto simp: ring_find_def ring_ids_def ring_entries_ok_def js_ok_def)
qed

definition demo_ring :: secret_ring where
  "demo_ring = \<lparr>sr_activeKeyId = ''b'', sr_active = \<lparr>ss_id = ''b'', ss_secret = replicate 40 (CHR ''y'')\<rparr>,
     sr_byId = [(''a'', \<lparr>ss_id = ''a'', ss_secret = replicate 32 (CHR ''x'')\<rparr>),
                (''b'', \<lparr>ss_id = ''b'', ss_secret = replicate 40 (CHR ''y'')\<rparr>)]\<rparr>"

end
