(* ===== verification/Idempotency.thy ===== *)
theory Idempotency
  imports Js_String
begin

text \<open>
  The in-memory idempotency store (\<open>src/idempotency/memory.store.ts\<close>) and the pipeline step over
  it (\<open>src/idempotency/idempotency.middleware.ts\<close>). The store keys its map by a string built from
  scope and key; its contract, the functions \<open>spec_*\<close>, is over pairs of them, and the locale
  \<open>idempotency_store\<close> states that an implementation refines it. \<open>Date.now()\<close> and
  \<open>randomUUID()\<close> are arguments of the operations that read them.
\<close>

section \<open>The store\<close>

datatype idempotency_state = InProgress | Completed

record 'b recorded_response =
  rr_status :: nat
  rr_hasBody :: bool
  rr_body :: "'b option"

record idempotency_claim =
  ic_scope :: string
  ic_key :: string
  ic_claimId :: string

record claim_request =
  cr_scope :: string
  cr_key :: string
  cr_fingerprint :: string

datatype 'b claim_result =
    Claimed idempotency_claim
  | Replay "'b recorded_response"
  | ClaimInProgress
  | Mismatch

record 'b stored_record =
  st_claimId :: string
  st_fingerprint :: string
  st_state :: idempotency_state
  st_response :: "'b recorded_response option"
  st_claimedAt :: int
  st_expiresAt :: int

record 'b idempotency_store =
  is_records :: "(string, 'b stored_record) js_map"
  is_retentionMs :: int
  is_leaseMs :: int

definition recordKey :: "string \<Rightarrow> string \<Rightarrow> string" where
  "recordKey scope key = show_nat (length scope) @ '':'' @ scope @ key"

text \<open>The constructor's \<open>assertPositive\<close>; the error names the option it refuses.\<close>

definition createMemoryIdempotencyStore :: "int \<Rightarrow> int \<Rightarrow> string + 'b idempotency_store" where
  "createMemoryIdempotencyStore retentionMs leaseMs =
     (if retentionMs \<le> 0 then Inl ''retentionMs''
      else if leaseMs \<le> 0 then Inl ''leaseMs''
      else Inr \<lparr>is_records = [], is_retentionMs = retentionMs, is_leaseMs = leaseMs\<rparr>)"

definition live_size :: "int \<Rightarrow> 'b idempotency_store \<Rightarrow> nat" where
  "live_size now s = length (filter (\<lambda>(k, r). now < st_expiresAt r) (is_records s))"

definition isDead :: "int \<Rightarrow> 'b stored_record \<Rightarrow> int \<Rightarrow> bool" where
  "isDead leaseMs r now \<longleftrightarrow>
     st_expiresAt r \<le> now \<or> (st_state r = InProgress \<and> st_claimedAt r + leaseMs \<le> now)"

definition fresh_record :: "int \<Rightarrow> claim_request \<Rightarrow> string \<Rightarrow> int \<Rightarrow> 'b stored_record" where
  "fresh_record retentionMs req claimId now =
     \<lparr>st_claimId = claimId, st_fingerprint = cr_fingerprint req, st_state = InProgress,
      st_response = None, st_claimedAt = now, st_expiresAt = now + retentionMs\<rparr>"

definition judge_existing :: "'b stored_record \<Rightarrow> string \<Rightarrow> 'b claim_result" where
  "judge_existing existing fingerprint =
     (if st_fingerprint existing \<noteq> fingerprint then Mismatch
      else if st_state existing = Completed
      then (case st_response existing of Some response \<Rightarrow> Replay response | None \<Rightarrow> ClaimInProgress)
      else ClaimInProgress)"

definition claim :: "claim_request \<Rightarrow> string \<Rightarrow> int \<Rightarrow> 'b idempotency_store \<Rightarrow> 'b idempotency_store \<times> 'b claim_result" where
  "claim req uuid now s =
     (let rid = recordKey (cr_scope req) (cr_key req);
          take_over = (s\<lparr>is_records := js_set rid (fresh_record (is_retentionMs s) req uuid now) (is_records s)\<rparr>,
            Claimed \<lparr>ic_scope = cr_scope req, ic_key = cr_key req, ic_claimId = uuid\<rparr>) in
      case js_get (is_records s) rid of
        None \<Rightarrow> take_over
      | Some existing \<Rightarrow>
          if isDead (is_leaseMs s) existing now then take_over
          else (s, judge_existing existing (cr_fingerprint req)))"

definition ownedRecord :: "idempotency_claim \<Rightarrow> 'b idempotency_store \<Rightarrow> 'b stored_record option" where
  "ownedRecord c s =
     (case js_get (is_records s) (recordKey (ic_scope c) (ic_key c)) of
        None \<Rightarrow> None
      | Some r \<Rightarrow>
          if st_claimId r \<noteq> ic_claimId c then None
          else if st_state r \<noteq> InProgress then None
          else Some r)"

definition complete :: "idempotency_claim \<Rightarrow> 'b recorded_response \<Rightarrow> int \<Rightarrow> 'b idempotency_store \<Rightarrow> 'b idempotency_store \<times> bool" where
  "complete c response now s =
     (case ownedRecord c s of
        None \<Rightarrow> (s, False)
      | Some r \<Rightarrow>
          (s\<lparr>is_records := js_set (recordKey (ic_scope c) (ic_key c))
              (r\<lparr>st_state := Completed, st_response := Some response,
                 st_expiresAt := now + is_retentionMs s\<rparr>) (is_records s)\<rparr>, True))"

definition release :: "idempotency_claim \<Rightarrow> 'b idempotency_store \<Rightarrow> 'b idempotency_store \<times> bool" where
  "release c s =
     (case ownedRecord c s of
        None \<Rightarrow> (s, False)
      | Some r \<Rightarrow> (s\<lparr>is_records := js_delete (recordKey (ic_scope c) (ic_key c)) (is_records s)\<rparr>, True))"

definition purgeExpired :: "int \<Rightarrow> 'b idempotency_store \<Rightarrow> 'b idempotency_store \<times> nat" where
  "purgeExpired now s =
     (s\<lparr>is_records := js_sweep (\<lambda>r. st_expiresAt r \<le> now) (is_records s)\<rparr>,
      length (filter (\<lambda>(k, r). st_expiresAt r \<le> now) (is_records s)))"

definition clear_store :: "'b idempotency_store \<Rightarrow> 'b idempotency_store" where
  "clear_store s = s\<lparr>is_records := []\<rparr>"

section \<open>The pipeline step\<close>

datatype idempotency_error =
    KeyRequired
  | KeyTooLong
  | KeyNotPrintable
  | KeyInProgress
  | KeyReused

primrec idempotency_error_status :: "idempotency_error \<Rightarrow> nat \<times> string" where
  "idempotency_error_status KeyRequired = (400, ''IDEMPOTENCY_KEY_REQUIRED'')"
| "idempotency_error_status KeyTooLong = (400, ''IDEMPOTENCY_KEY_INVALID'')"
| "idempotency_error_status KeyNotPrintable = (400, ''IDEMPOTENCY_KEY_INVALID'')"
| "idempotency_error_status KeyInProgress = (409, ''IDEMPOTENCY_KEY_IN_PROGRESS'')"
| "idempotency_error_status KeyReused = (422, ''IDEMPOTENCY_KEY_REUSED'')"

definition MAX_KEY_LENGTH :: nat where "MAX_KEY_LENGTH = 255"

definition NEVER_REPLAYABLE :: "nat list" where "NEVER_REPLAYABLE = [408, 425, 429]"

definition key_pattern :: "string \<Rightarrow> bool" where
  "key_pattern s \<longleftrightarrow> s \<noteq> [] \<and> list_all (\<lambda>c. 33 \<le> code c \<and> code c \<le> 126) s"

definition defaultIsReplayable :: "nat \<Rightarrow> bool" where
  "defaultIsReplayable status \<longleftrightarrow> 200 \<le> status \<and> status < 500 \<and> status \<notin> set NEVER_REPLAYABLE"

definition readKey :: "string option \<Rightarrow> bool \<Rightarrow> idempotency_error + string option" where
  "readKey header required =
     (case header of
        None \<Rightarrow> (if required then Inl KeyRequired else Inr None)
      | Some h \<Rightarrow>
          if h = [] then (if required then Inl KeyRequired else Inr None)
          else if MAX_KEY_LENGTH < length h then Inl KeyTooLong
          else if \<not> key_pattern h then Inl KeyNotPrintable
          else Inr (Some h))"

definition scopeFor :: "string option \<Rightarrow> string \<Rightarrow> string \<Rightarrow> string" where
  "scopeFor userId verb originalUrl =
     (case userId of None \<Rightarrow> ''anonymous'' | Some u \<Rightarrow> u) @ '':'' @ toUpperCase verb @ '':'' @ originalUrl"

record 'b idem_request =
  iq_keyHeader :: "string option"
  iq_userId :: "string option"
  iq_method :: string
  iq_originalUrl :: string
  iq_body :: 'b

text \<open>
  What the step leaves to do: run the operation without recording, run it and record its answer
  under the claim, write the recorded response instead, or refuse. \<open>fingerprint\<close> is
  \<open>requestFingerprint\<close>, a SHA-256 over the canonical JSON of the body.
\<close>

datatype 'b idem_step =
    RunUnrecorded
  | RunRecorded idempotency_claim
  | ReplayRecorded "'b recorded_response"
  | Refuse idempotency_error

definition idempotent ::
  "('a \<Rightarrow> string) \<Rightarrow> bool \<Rightarrow> (claim_request \<Rightarrow> 's \<Rightarrow> 's \<times> 'b claim_result) \<Rightarrow> 'a idem_request \<Rightarrow> 's
   \<Rightarrow> 's \<times> 'b idem_step" where
  "idempotent fingerprint required claim_op req s =
     (case readKey (iq_keyHeader req) required of
        Inl e \<Rightarrow> (s, Refuse e)
      | Inr None \<Rightarrow> (s, RunUnrecorded)
      | Inr (Some key) \<Rightarrow>
          (let (s1, result) = claim_op \<lparr>cr_scope = scopeFor (iq_userId req) (iq_method req) (iq_originalUrl req),
                 cr_key = key, cr_fingerprint = fingerprint (iq_body req)\<rparr> s in
           (s1, case result of
                  Claimed c \<Rightarrow> RunRecorded c
                | Replay response \<Rightarrow> ReplayRecorded response
                | ClaimInProgress \<Rightarrow> Refuse KeyInProgress
                | Mismatch \<Rightarrow> Refuse KeyReused)))"

text \<open>How the operation ends the response: \<open>res.json\<close>, \<open>res.end()\<close>, or \<open>res.end\<close> with a chunk.\<close>

datatype 'b answer = AnswerJson nat 'b | AnswerEmpty nat | AnswerChunk nat

definition recordThenFlush ::
  "(nat \<Rightarrow> bool) \<Rightarrow> (idempotency_claim \<Rightarrow> 'b recorded_response \<Rightarrow> 's \<Rightarrow> 's \<times> bool) \<Rightarrow> (idempotency_claim \<Rightarrow> 's \<Rightarrow> 's \<times> bool)
   \<Rightarrow> idempotency_claim \<Rightarrow> 'b recorded_response \<Rightarrow> 's \<Rightarrow> 's" where
  "recordThenFlush isReplayable complete_op release_op c response s =
     (if isReplayable (rr_status response) then fst (complete_op c response s) else fst (release_op c s))"

definition captureResponse ::
  "(nat \<Rightarrow> bool) \<Rightarrow> (idempotency_claim \<Rightarrow> 'b recorded_response \<Rightarrow> 's \<Rightarrow> 's \<times> bool) \<Rightarrow> (idempotency_claim \<Rightarrow> 's \<Rightarrow> 's \<times> bool)
   \<Rightarrow> idempotency_claim \<Rightarrow> 'b answer \<Rightarrow> 's \<Rightarrow> 's" where
  "captureResponse isReplayable complete_op release_op c ans s =
     (case ans of
        AnswerJson status body \<Rightarrow>
          recordThenFlush isReplayable complete_op release_op c
            \<lparr>rr_status = status, rr_hasBody = True, rr_body = Some body\<rparr> s
      | AnswerEmpty status \<Rightarrow>
          recordThenFlush isReplayable complete_op release_op c
            \<lparr>rr_status = status, rr_hasBody = False, rr_body = None\<rparr> s
      | AnswerChunk status \<Rightarrow> fst (release_op c s))"

text \<open>What \<open>replayResponse\<close> writes: the status and the body, if any, of the recorded response.\<close>

definition replayResponse :: "'b recorded_response \<Rightarrow> nat \<times> 'b option" where
  "replayResponse response =
     (if \<not> rr_hasBody response then (rr_status response, None) else (rr_status response, rr_body response))"

section \<open>The contract\<close>

type_synonym 'b idem_spec = "string \<times> string \<Rightarrow> 'b stored_record option"

datatype 'b idem_event =
    EClaim claim_request string int
  | EComplete idempotency_claim "'b recorded_response" int
  | ERelease idempotency_claim
  | EPurge int

definition spec_owned :: "idempotency_claim \<Rightarrow> 'b idem_spec \<Rightarrow> 'b stored_record option" where
  "spec_owned c m =
     (case m (ic_scope c, ic_key c) of
        None \<Rightarrow> None
      | Some r \<Rightarrow> if st_claimId r = ic_claimId c \<and> st_state r = InProgress then Some r else None)"

definition spec_answer :: "int \<Rightarrow> claim_request \<Rightarrow> string \<Rightarrow> int \<Rightarrow> 'b idem_spec \<Rightarrow> 'b claim_result" where
  "spec_answer lease req uuid now m =
     (case m (cr_scope req, cr_key req) of
        Some r \<Rightarrow> if isDead lease r now
          then Claimed \<lparr>ic_scope = cr_scope req, ic_key = cr_key req, ic_claimId = uuid\<rparr>
          else judge_existing r (cr_fingerprint req)
      | None \<Rightarrow> Claimed \<lparr>ic_scope = cr_scope req, ic_key = cr_key req, ic_claimId = uuid\<rparr>)"

primrec spec_step :: "int \<Rightarrow> int \<Rightarrow> 'b idem_event \<Rightarrow> 'b idem_spec \<Rightarrow> 'b idem_spec" where
  "spec_step retention lease (EClaim req uuid now) m =
     (case spec_answer lease req uuid now m of
        Claimed c \<Rightarrow> m((cr_scope req, cr_key req) \<mapsto> fresh_record retention req uuid now)
      | _ \<Rightarrow> m)"
| "spec_step retention lease (EComplete c response now) m =
     (case spec_owned c m of
        None \<Rightarrow> m
      | Some r \<Rightarrow> m((ic_scope c, ic_key c) \<mapsto>
          r\<lparr>st_state := Completed, st_response := Some response, st_expiresAt := now + retention\<rparr>))"
| "spec_step retention lease (ERelease c) m =
     (case spec_owned c m of None \<Rightarrow> m | Some r \<Rightarrow> m((ic_scope c, ic_key c) := None))"
| "spec_step retention lease (EPurge now) m =
     (\<lambda>k. case m k of Some r \<Rightarrow> if st_expiresAt r \<le> now then None else Some r | None \<Rightarrow> None)"

primrec store_step :: "'b idem_event \<Rightarrow> 'b idempotency_store \<Rightarrow> 'b idempotency_store" where
  "store_step (EClaim req uuid now) s = fst (claim req uuid now s)"
| "store_step (EComplete c response now) s = fst (complete c response now s)"
| "store_step (ERelease c) s = fst (release c s)"
| "store_step (EPurge now) s = fst (purgeExpired now s)"

definition idem_abs :: "'b idempotency_store \<Rightarrow> 'b idem_spec" where
  "idem_abs s = (\<lambda>(scope, key). js_get (is_records s) (recordKey scope key))"

section \<open>The store implements the contract\<close>

lemma recordKey_inject [simp]: "recordKey a b = recordKey c d \<longleftrightarrow> a = c \<and> b = d"
proof
  assume e: "recordKey a b = recordKey c d"
  have colon: "CHR '':'' \<notin> set (show_nat n)" for n
    using show_nat_digits [of n] by (auto simp: is_digit_def code_def)
  have "show_nat (length a) = show_nat (length c) \<and> a @ b = c @ d"
    using e cut_first [OF _ colon colon] by (simp add: recordKey_def)
  then show "a = c \<and> b = d"
    by (auto simp: show_nat_inject)
qed simp

definition idem_ok :: "int \<Rightarrow> int \<Rightarrow> 'b idempotency_store \<Rightarrow> bool" where
  "idem_ok retention lease s \<longleftrightarrow> js_ok (is_records s) \<and> is_retentionMs s = retention \<and> is_leaseMs s = lease"

lemma idem_abs_apply: "idem_abs s (a, b) = js_get (is_records s) (recordKey a b)"
  by (simp add: idem_abs_def)

lemma idem_abs_set:
  "idem_abs (s\<lparr>is_records := js_set (recordKey a b) r (is_records s)\<rparr>) = (idem_abs s)((a, b) \<mapsto> r)"
  by (auto simp: idem_abs_def fun_eq_iff)

lemma idem_abs_delete:
  "idem_abs (s\<lparr>is_records := js_delete (recordKey a b) (is_records s)\<rparr>) = (idem_abs s)((a, b) := None)"
  by (auto simp: idem_abs_def fun_eq_iff)

lemma ownedRecord_spec: "ownedRecord c s = spec_owned c (idem_abs s)"
  by (auto simp: ownedRecord_def spec_owned_def idem_abs_apply split: option.splits)

lemma claim_answer: "idem_ok ret lease s \<Longrightarrow> snd (claim req u now s) = spec_answer lease req u now (idem_abs s)"
  by (auto simp: claim_def spec_answer_def idem_abs_apply Let_def idem_ok_def split: option.splits)

lemma judge_not_claimed [simp]: "judge_existing r f \<noteq> Claimed c"
  by (auto simp: judge_existing_def split: option.splits)

lemma claim_abs:
  "idem_ok ret lease s \<Longrightarrow> idem_abs (fst (claim req u now s)) = spec_step ret lease (EClaim req u now) (idem_abs s)"
  by (auto simp: claim_def spec_answer_def idem_abs_apply idem_abs_set Let_def idem_ok_def
      split: option.splits claim_result.splits)

lemma complete_abs:
  "idem_ok ret lease s
   \<Longrightarrow> idem_abs (fst (complete c resp now s)) = spec_step ret lease (EComplete c resp now) (idem_abs s)"
  by (auto simp: complete_def ownedRecord_spec idem_abs_set idem_ok_def split: option.splits)

lemma release_abs: "idem_abs (fst (release c s)) = spec_step ret lease (ERelease c) (idem_abs s)"
  by (auto simp: release_def ownedRecord_spec idem_abs_delete split: option.splits)

lemma purge_abs:
  "idem_ok ret lease s \<Longrightarrow> idem_abs (fst (purgeExpired now s)) = spec_step ret lease (EPurge now) (idem_abs s)"
  by (auto simp: purgeExpired_def idem_abs_def idem_ok_def js_get_sweep fun_eq_iff split: option.splits)

lemma store_step_ok: "idem_ok ret lease s \<Longrightarrow> idem_ok ret lease (store_step e s)"
  by (cases e) (auto simp: idem_ok_def claim_def complete_def release_def purgeExpired_def Let_def split: option.splits)

section \<open>The interface of an idempotency store\<close>

locale idempotency_store =
  fixes abs :: "'s \<Rightarrow> 'b idem_spec"
    and ok :: "'s \<Rightarrow> bool"
    and step :: "'b idem_event \<Rightarrow> 's \<Rightarrow> 's"
    and answer :: "claim_request \<Rightarrow> string \<Rightarrow> int \<Rightarrow> 's \<Rightarrow> 'b claim_result"
    and retention lease :: int
  assumes ok_step: "ok s \<Longrightarrow> ok (step e s)"
    and abs_step: "ok s \<Longrightarrow> abs (step e s) = spec_step retention lease e (abs s)"
    and answer_spec: "ok s \<Longrightarrow> answer req u now s = spec_answer lease req u now (abs s)"
begin

lemma abs_run: "ok s \<Longrightarrow> abs (fold step es s) = fold (spec_step retention lease) es (abs s) \<and> ok (fold step es s)"
  by (induction es arbitrary: s) (simp_all add: abs_step ok_step)

end

text \<open>
  An event that cannot disturb the record of \<open>k\<close>: it happens before the deadline \<open>d\<close> and is
  not the completion or the release of the claim \<open>u\<close> on it.
\<close>

primrec harmless :: "string \<times> string \<Rightarrow> string option \<Rightarrow> int \<Rightarrow> 'b idem_event \<Rightarrow> bool" where
  "harmless k u d (EClaim req uuid now) = (now < d)"
| "harmless k u d (EComplete c response now) = ((ic_scope c, ic_key c) \<noteq> k \<or> Some (ic_claimId c) \<noteq> u)"
| "harmless k u d (ERelease c) = ((ic_scope c, ic_key c) \<noteq> k \<or> Some (ic_claimId c) \<noteq> u)"
| "harmless k u d (EPurge now) = (now < d)"

lemma in_progress_kept:
  assumes "m k = Some r" "st_state r = InProgress" "d \<le> st_expiresAt r" "d \<le> st_claimedAt r + lease"
    and "harmless k (Some (st_claimId r)) d e"
  shows "spec_step ret lease e m k = Some r"
  using assms
  by (cases e) (auto simp: spec_answer_def spec_owned_def isDead_def split: option.splits claim_result.splits)

lemma completed_kept:
  assumes "m k = Some r" "st_state r = Completed" "d \<le> st_expiresAt r" "harmless k None d e"
  shows "spec_step ret lease e m k = Some r"
  using assms
  by (cases e) (auto simp: spec_answer_def spec_owned_def isDead_def split: option.splits claim_result.splits)

lemma in_progress_run:
  "m k = Some r \<Longrightarrow> st_state r = InProgress \<Longrightarrow> d \<le> st_expiresAt r \<Longrightarrow> d \<le> st_claimedAt r + lease
   \<Longrightarrow> list_all (harmless k (Some (st_claimId r)) d) es \<Longrightarrow> fold (spec_step ret lease) es m k = Some r"
  by (induction es arbitrary: m) (auto intro: in_progress_kept)

lemma completed_run:
  "m k = Some r \<Longrightarrow> st_state r = Completed \<Longrightarrow> d \<le> st_expiresAt r
   \<Longrightarrow> list_all (harmless k None d) es \<Longrightarrow> fold (spec_step ret lease) es m k = Some r"
  by (induction es arbitrary: m) (auto intro: completed_kept)

context idempotency_store
begin

lemma claimed_record:
  assumes "ok s" "answer req u now s = Claimed c"
  shows "abs (step (EClaim req u now) s) (cr_scope req, cr_key req) = Some (fresh_record retention req u now)
    \<and> c = \<lparr>ic_scope = cr_scope req, ic_key = cr_key req, ic_claimId = u\<rparr>"
  using assms by (auto simp: answer_spec abs_step spec_answer_def split: option.splits if_splits)

lemma exclusive:
  assumes "ok s" "answer req u now s = Claimed c"
    and d: "d \<le> now + retention" "d \<le> now + lease"
    and es: "list_all (harmless (cr_scope req, cr_key req) (Some u) d) es"
    and req': "cr_scope req' = cr_scope req" "cr_key req' = cr_key req" "now' < d"
  shows "answer req' u' now' (fold step es (step (EClaim req u now) s))
    = (if cr_fingerprint req' = cr_fingerprint req then ClaimInProgress else Mismatch)"
proof -
  let ?s = "step (EClaim req u now) s"
  have "abs (fold step es ?s) (cr_scope req, cr_key req) = Some (fresh_record retention req u now)"
    using abs_run [OF ok_step [OF assms(1)]] claimed_record [OF assms(1,2)] d es
    by (auto intro!: in_progress_run [of _ _ _ d] simp: fresh_record_def)
  moreover have "ok (fold step es ?s)"
    using abs_run [OF ok_step [OF assms(1)]] by blast
  ultimately show ?thesis
    using d req' by (auto simp: answer_spec spec_answer_def isDead_def judge_existing_def fresh_record_def)
qed

lemma replayed:
  assumes "ok s" "answer req u now s = Claimed c"
    and d: "d \<le> now + retention" "d \<le> now + lease"
    and es: "list_all (harmless (cr_scope req, cr_key req) (Some u) d) es"
    and es': "list_all (harmless (cr_scope req, cr_key req) None (doneAt + retention)) es'"
    and req': "cr_scope req' = cr_scope req" "cr_key req' = cr_key req" "now' < doneAt + retention"
  shows "answer req' u' now' (fold step es' (step (EComplete c resp doneAt) (fold step es (step (EClaim req u now) s))))
    = (if cr_fingerprint req' = cr_fingerprint req then Replay resp else Mismatch)"
proof -
  let ?s = "fold step es (step (EClaim req u now) s)" and ?r = "fresh_record retention req u now"
  let ?k = "(cr_scope req, cr_key req)"
  let ?r' = "?r\<lparr>st_state := Completed, st_response := Some resp, st_expiresAt := doneAt + retention\<rparr>"
  have ok: "ok ?s" and r: "abs ?s ?k = Some ?r"
    using abs_run [OF ok_step [OF assms(1)]] claimed_record [OF assms(1,2)] d es
    by (auto intro!: in_progress_run [of _ _ _ d] simp: fresh_record_def)
  have "abs (step (EComplete c resp doneAt) ?s) ?k = Some ?r'"
    using r claimed_record [OF assms(1,2)] by (simp add: abs_step [OF ok] spec_owned_def fresh_record_def)
  then have "abs (fold step es' (step (EComplete c resp doneAt) ?s)) ?k = Some ?r'"
    using abs_run [OF ok_step [OF ok]] es' by (auto intro!: completed_run [of _ _ _ "doneAt + retention"])
  moreover have "ok (fold step es' (step (EComplete c resp doneAt) ?s))"
    using abs_run [OF ok_step [OF ok]] by blast
  ultimately show ?thesis
    using req' by (auto simp: answer_spec spec_answer_def isDead_def judge_existing_def fresh_record_def)
qed

end

interpretation memory_idem: idempotency_store idem_abs "idem_ok retention lease" store_step
    "\<lambda>req u now s. snd (claim req u now s)" retention lease
  for retention lease :: int
proof
  fix s :: "'b idempotency_store" and e req u now
  assume ok: "idem_ok retention lease s"
  show "idem_ok retention lease (store_step e s)"
    by (rule store_step_ok [OF ok])
  show "idem_abs (store_step e s) = spec_step retention lease e (idem_abs s)"
    using claim_abs [OF ok] complete_abs [OF ok] release_abs purge_abs [OF ok]
    by (cases e) (simp_all del: spec_step.simps)
  show "snd (claim req u now s) = spec_answer lease req u now (idem_abs s)"
    by (rule claim_answer [OF ok])
qed

lemma create_ok:
  "createMemoryIdempotencyStore retention lease = Inr s \<Longrightarrow> idem_ok retention lease s \<and> idem_abs s = Map.empty"
  by (auto simp: createMemoryIdempotencyStore_def idem_ok_def idem_abs_def split: if_splits)

lemma run_ok: "createMemoryIdempotencyStore retention lease = Inr s \<Longrightarrow> idem_ok retention lease (fold store_step es s)"
  using memory_idem.abs_run create_ok by blast

lemma idempotent_RunRecorded:
  assumes "idempotent fp required (\<lambda>r. claim r u now) req s = (s1, RunRecorded c)"
  obtains key r where "readKey (iq_keyHeader req) required = Inr (Some key)"
    "r = \<lparr>cr_scope = scopeFor (iq_userId req) (iq_method req) (iq_originalUrl req), cr_key = key,
       cr_fingerprint = fp (iq_body req)\<rparr>"
    "snd (claim r u now s) = Claimed c" "s1 = store_step (EClaim r u now) s"
  using assms by (auto simp: idempotent_def Let_def split: sum.splits option.splits prod.splits claim_result.splits)

text \<open>The claim id \<open>u\<close> holds no record of \<open>k\<close>: true after a takeover, and kept while no new claim uses \<open>u\<close>.\<close>

definition not_owner :: "string \<times> string \<Rightarrow> string \<Rightarrow> 'b idem_spec \<Rightarrow> bool" where
  "not_owner k u m \<longleftrightarrow> (\<forall>r. m k = Some r \<longrightarrow> st_claimId r \<noteq> u)"

primrec other_claim :: "string \<Rightarrow> 'b idem_event \<Rightarrow> bool" where
  "other_claim u (EClaim req uuid now) = (uuid \<noteq> u)"
| "other_claim u (EComplete c response now) = True"
| "other_claim u (ERelease c) = True"
| "other_claim u (EPurge now) = True"

lemma not_owner_step: "not_owner k u m \<Longrightarrow> other_claim u e \<Longrightarrow> not_owner k u (spec_step ret lease e m)"
  by (cases e) (auto simp: not_owner_def spec_answer_def spec_owned_def fresh_record_def
      split: option.splits claim_result.splits if_splits)

lemma not_owner_run:
  "not_owner k u m \<Longrightarrow> list_all (other_claim u) es \<Longrightarrow> not_owner k u (fold (spec_step ret lease) es m)"
  by (induction es arbitrary: m) (auto simp: not_owner_step)

section \<open>Properties\<close>

text \<open>
  C8: the store keyed by strings behaves, for every history of claims, completions, releases and
  purges, as the map keyed by pairs of scope and key does, and answers every claim as it does.
\<close>

theorem memory_store_refines_spec:
  assumes "createMemoryIdempotencyStore retention lease = Inr s"
  shows "idem_abs (fold store_step es s) = fold (spec_step retention lease) es Map.empty
    \<and> snd (claim req u now (fold store_step es s)) = spec_answer lease req u now (fold (spec_step retention lease) es Map.empty)"
  using memory_idem.abs_run [of retention lease s es] create_ok [OF assms] claim_answer [OF run_ok [OF assms]] by simp

theorem memory_store_refines_spec_witness:
  "snd (claim \<lparr>cr_scope = ''1'', cr_key = ''23'', cr_fingerprint = ''f''\<rparr> ''u2'' 5
      (fold store_step [EClaim \<lparr>cr_scope = ''12'', cr_key = ''3'', cr_fingerprint = ''f''\<rparr> ''u1'' 1]
        \<lparr>is_records = [] :: (string, nat stored_record) js_map, is_retentionMs = 100, is_leaseMs = 10\<rparr>))
   = Claimed \<lparr>ic_scope = ''1'', ic_key = ''23'', ic_claimId = ''u2''\<rparr>"
proof -
  have c: "createMemoryIdempotencyStore 100 10
      = Inr \<lparr>is_records = [] :: (string, nat stored_record) js_map, is_retentionMs = 100, is_leaseMs = 10\<rparr>"
    by (simp add: createMemoryIdempotencyStore_def)
  show ?thesis
    using memory_store_refines_spec [OF c, of "[EClaim \<lparr>cr_scope = ''12'', cr_key = ''3'', cr_fingerprint = ''f''\<rparr> ''u1'' 1]"
        "\<lparr>cr_scope = ''1'', cr_key = ''23'', cr_fingerprint = ''f''\<rparr>" "''u2''" 5]
    by (simp add: spec_answer_def)
qed

text \<open>
  Once a request has claimed a key, every other request with that key is refused, as in
  progress or, with a different body, as a reuse, until the claim's lease or its retention
  ends, whatever else the store serves, as long as the holder has not recorded or released.
\<close>

lemma claimed_key_is_exclusive:
  assumes "createMemoryIdempotencyStore retention lease = Inr s"
    and "snd (claim req u now (fold store_step hist s)) = Claimed c"
    and "d = now + min retention lease" "now' < d"
    and "list_all (harmless (cr_scope req, cr_key req) (Some u) d) es"
    and "cr_scope req' = cr_scope req" "cr_key req' = cr_key req"
  shows "claim req' u' now' (fold store_step es (fst (claim req u now (fold store_step hist s))))
    = (fold store_step es (fst (claim req u now (fold store_step hist s))),
       if cr_fingerprint req' = cr_fingerprint req then ClaimInProgress else Mismatch)"
proof -
  let ?t = "fold store_step es (fst (claim req u now (fold store_step hist s)))"
  have a: "snd (claim req' u' now' ?t) = (if cr_fingerprint req' = cr_fingerprint req then ClaimInProgress else Mismatch)"
    using memory_idem.exclusive [OF run_ok [OF assms(1)] assms(2) _ _ assms(5) assms(6,7,4)] assms(3) by simp
  then have "fst (claim req' u' now' ?t) = ?t"
    by (auto simp: claim_def Let_def split: option.splits if_splits)
  with a show ?thesis
    by (simp add: prod_eq_iff)
qed

text \<open>
  C9: a retry of a request that was answered with a replayable JSON response, arriving with the
  same key, principal, route and body before the retention of that response ends, is answered
  with the recorded status and body and leaves the store unchanged; the operation is not run.
\<close>

theorem retry_replays_first_answer:
  assumes "createMemoryIdempotencyStore retention lease = Inr s"
    and first: "idempotent fp required (\<lambda>r. claim r u now) req (fold store_step hist s) = (s1, RunRecorded c)"
    and d: "d = now + min retention lease"
    and es: "list_all (harmless (ic_scope c, ic_key c) (Some u) d) es"
    and answered: "isReplayable status"
      "s2 = captureResponse isReplayable (\<lambda>c r. complete c r doneAt) release c (AnswerJson status body) (fold store_step es s1)"
    and es': "list_all (harmless (ic_scope c, ic_key c) None (doneAt + retention)) es'"
    and retry: "iq_keyHeader req' = iq_keyHeader req" "iq_userId req' = iq_userId req"
      "toUpperCase (iq_method req') = toUpperCase (iq_method req)" "iq_originalUrl req' = iq_originalUrl req"
      "fp (iq_body req') = fp (iq_body req)" "now' < doneAt + retention"
  shows "\<exists>resp. idempotent fp required (\<lambda>r. claim r u' now') req' (fold store_step es' s2)
      = (fold store_step es' s2, ReplayRecorded resp) \<and> replayResponse resp = (status, Some body)"
proof -
  obtain key r where key: "readKey (iq_keyHeader req) required = Inr (Some key)"
    and r: "r = \<lparr>cr_scope = scopeFor (iq_userId req) (iq_method req) (iq_originalUrl req), cr_key = key,
       cr_fingerprint = fp (iq_body req)\<rparr>"
    and cl: "snd (claim r u now (fold store_step hist s)) = Claimed c"
    and s1: "s1 = store_step (EClaim r u now) (fold store_step hist s)"
    by (rule idempotent_RunRecorded [OF first])
  let ?s = "fold store_step hist s"
  let ?resp = "\<lparr>rr_status = status, rr_hasBody = True, rr_body = Some body\<rparr>"
  let ?t = "fold store_step es' s2"
  have c: "ic_scope c = cr_scope r" "ic_key c = cr_key r"
    using memory_idem.claimed_record [OF run_ok [OF assms(1)] cl] by simp_all
  have s2: "s2 = store_step (EComplete c ?resp doneAt) (fold store_step es (store_step (EClaim r u now) ?s))"
    using answered s1 by (simp add: captureResponse_def recordThenFlush_def)
  have a: "snd (claim r u' now' ?t) = Replay ?resp"
    using memory_idem.replayed [OF run_ok [OF assms(1)] cl _ _ es [unfolded c] es' [unfolded c], of r now'] retry(6)
    unfolding s2 d by simp
  then have "fst (claim r u' now' ?t) = ?t"
    by (auto simp: claim_def Let_def split: option.splits if_splits)
  with a have "claim r u' now' ?t = (?t, Replay ?resp)"
    by (simp add: prod_eq_iff)
  moreover have "scopeFor (iq_userId req') (iq_method req') (iq_originalUrl req') = cr_scope r"
    using retry by (simp add: scopeFor_def r)
  ultimately have "idempotent fp required (\<lambda>r. claim r u' now') req' ?t = (?t, ReplayRecorded ?resp)"
    using key retry by (simp add: idempotent_def r)
  then show ?thesis
    by (auto simp: replayResponse_def)
qed

definition demo_idem_request :: "nat idem_request" where
  "demo_idem_request = \<lparr>iq_keyHeader = Some ''key-1'', iq_userId = Some ''u'', iq_method = ''post'',
     iq_originalUrl = ''/v1/users'', iq_body = 7\<rparr>"

definition demo_idem_store :: "nat idempotency_store" where
  "demo_idem_store = \<lparr>is_records = [], is_retentionMs = 100, is_leaseMs = 10\<rparr>"

definition demo_idem_claim :: idempotency_claim where
  "demo_idem_claim = \<lparr>ic_scope = ''u:POST:/v1/users'', ic_key = ''key-1'', ic_claimId = ''c1''\<rparr>"

theorem retry_replays_first_answer_witness:
  "\<exists>resp s. idempotent show_nat True (\<lambda>r. claim r ''c2'' 50) demo_idem_request s = (s, ReplayRecorded resp)
     \<and> replayResponse resp = (201, Some (42::nat))"
proof -
  have c: "createMemoryIdempotencyStore 100 10 = Inr demo_idem_store"
    by (simp add: createMemoryIdempotencyStore_def demo_idem_store_def)
  obtain s1 where f: "idempotent show_nat True (\<lambda>r. claim r ''c1'' 1) demo_idem_request (fold store_step [] demo_idem_store)
      = (s1, RunRecorded demo_idem_claim)"
  proof
    show "idempotent show_nat True (\<lambda>r. claim r ''c1'' 1) demo_idem_request (fold store_step [] demo_idem_store)
      = (fst (idempotent show_nat True (\<lambda>r. claim r ''c1'' 1) demo_idem_request demo_idem_store), RunRecorded demo_idem_claim)"
      by code_simp
  qed
  have "defaultIsReplayable 201"
    by (simp add: defaultIsReplayable_def NEVER_REPLAYABLE_def)
  from retry_replays_first_answer [where es = "[]" and es' = "[]" and doneAt = 5 and now' = 50 and u' = "''c2''" and body = 42
      and req' = demo_idem_request and fp = show_nat and isReplayable = defaultIsReplayable and status = 201
      and c = demo_idem_claim and u = "''c1''" and now = 1, OF c f refl _ this refl]
  show ?thesis
    by auto
qed

text \<open>
  A request whose claim was taken over after its lease can neither record a response nor
  release the key: both answer false and leave the store as it is, whatever happens meanwhile.
\<close>

lemma stale_claim_cannot_record:
  assumes "createMemoryIdempotencyStore retention lease = Inr s"
    and taken: "snd (claim req u' now' (fold store_step hist s)) = Claimed c'" and u: "u' \<noteq> u"
    and c: "ic_scope c = cr_scope req" "ic_key c = cr_key req" "ic_claimId c = u"
    and es: "list_all (other_claim u) es"
    and t: "t = fold store_step es (fst (claim req u' now' (fold store_step hist s)))"
  shows "complete c response doneAt t = (t, False) \<and> release c t = (t, False)"
proof -
  let ?k = "(cr_scope req, cr_key req)" and ?s1 = "store_step (EClaim req u' now') (fold store_step hist s)"
  note ok = run_ok [OF assms(1), of hist]
  have "not_owner ?k u (idem_abs ?s1)"
    using memory_idem.claimed_record [OF ok taken] u by (simp add: not_owner_def fresh_record_def)
  then have "not_owner ?k u (idem_abs t)"
    using memory_idem.abs_run [OF memory_idem.ok_step [OF ok], of es "EClaim req u' now'"] not_owner_run es t by simp
  then have "ownedRecord c t = None"
    using c by (auto simp: ownedRecord_spec spec_owned_def not_owner_def split: option.splits)
  then show ?thesis
    by (simp add: complete_def release_def)
qed

end
