(* ===== verification/Backoff.thy ===== *)
theory Backoff
  imports Complex_Main Js_String
begin

text \<open>
  Waiting and rate limiting: the jittered retry delay (\<open>src/lib/backoff.ts\<close>), the token bucket
  that limits a connection (\<open>src/ws/token-bucket.ts\<close>) and the reading of \<open>Retry-After\<close>
  (\<open>src/http/retry-after.ts\<close>). JavaScript numbers that take fractional values are rationals:
  the rounding of floating-point arithmetic is not modelled.
\<close>

section \<open>Full jitter\<close>

record backoff_options =
  bo_baseMs :: int
  bo_maxMs :: int

definition fullJitterDelay :: "nat \<Rightarrow> backoff_options \<Rightarrow> rat \<Rightarrow> int" where
  "fullJitterDelay attempt options random =
     (let cap = min (bo_maxMs options) (bo_baseMs options * 2 ^ (attempt - 1)) in \<lfloor>random * of_int cap\<rfloor>)"

section \<open>Token bucket\<close>

record token_bucket =
  tb_capacity :: rat
  tb_refillPerSecond :: rat
  tb_tokens :: rat
  tb_lastRefillMs :: rat

definition createTokenBucket :: "rat \<Rightarrow> rat \<Rightarrow> rat \<Rightarrow> string + token_bucket" where
  "createTokenBucket capacity refillPerSecond now =
     (if \<not> 0 < capacity then Inl ''capacity''
      else if \<not> 0 < refillPerSecond then Inl ''refillPerSecond''
      else Inr \<lparr>tb_capacity = capacity, tb_refillPerSecond = refillPerSecond,
                tb_tokens = capacity, tb_lastRefillMs = now\<rparr>)"

definition refill :: "rat \<Rightarrow> token_bucket \<Rightarrow> token_bucket" where
  "refill nowMs b =
     (let elapsedMs = nowMs - tb_lastRefillMs b in
      if elapsedMs \<le> 0 then b\<lparr>tb_lastRefillMs := nowMs\<rparr>
      else b\<lparr>tb_tokens := min (tb_capacity b) (tb_tokens b + elapsedMs / 1000 * tb_refillPerSecond b),
             tb_lastRefillMs := nowMs\<rparr>)"

definition tryRemove :: "rat \<Rightarrow> rat \<Rightarrow> token_bucket \<Rightarrow> string + token_bucket \<times> bool" where
  "tryRemove cost nowMs b =
     (if cost \<le> 0 then Inl ''cost''
      else let b1 = refill nowMs b in
        if tb_tokens b1 < cost then Inr (b1, False)
        else Inr (b1\<lparr>tb_tokens := tb_tokens b1 - cost\<rparr>, True))"

definition available :: "rat \<Rightarrow> token_bucket \<Rightarrow> token_bucket \<times> rat" where
  "available nowMs b = (let b1 = refill nowMs b in (b1, tb_tokens b1))"

definition retryAfterSeconds :: "rat \<Rightarrow> rat \<Rightarrow> token_bucket \<Rightarrow> token_bucket \<times> int" where
  "retryAfterSeconds cost nowMs b =
     (let b1 = refill nowMs b in
      (b1, if cost \<le> tb_tokens b1 then 0 else \<lceil>(cost - tb_tokens b1) / tb_refillPerSecond b1\<rceil>))"

section \<open>Retry-After\<close>

text \<open>
  \<open>is_number field\<close> is \<open>!Number.isNaN(Number(field))\<close> and \<open>date_parse\<close> is \<open>Date.parse\<close>,
  \<open>None\<close> for \<open>NaN\<close>.
\<close>

definition parseRetryAfter ::
  "(string \<Rightarrow> bool) \<Rightarrow> (string \<Rightarrow> int option) \<Rightarrow> string option \<Rightarrow> int \<Rightarrow> int option" where
  "parseRetryAfter is_number date_parse value now =
     (case value of
        None \<Rightarrow> None
      | Some v \<Rightarrow>
          (let field = trim v in
           if field = [] then None
           else if list_all is_digit field
           then (let seconds = of_digits field in
                 if MAX_SAFE_INTEGER < seconds \<or> MAX_SAFE_INTEGER < seconds * 1000 then None
                 else Some (int seconds * 1000))
           else if is_number field then None
           else (case date_parse field of
                   None \<Rightarrow> None
                 | Some instant \<Rightarrow> Some (max 0 (instant - now)))))"

section \<open>Lemmas\<close>

lemma jitter_bounds:
  assumes "0 \<le> r" "r < 1" "0 < bo_baseMs opt" "0 < bo_maxMs opt"
  shows "0 \<le> fullJitterDelay n opt r \<and> fullJitterDelay n opt r < bo_maxMs opt
    \<and> fullJitterDelay n opt r < bo_baseMs opt * 2 ^ (n - 1)"
proof -
  define cap where "cap = min (bo_maxMs opt) (bo_baseMs opt * 2 ^ (n - 1))"
  have pos: "0 < cap"
    using assms by (simp add: cap_def)
  then have "r * of_int cap < of_int cap"
    using assms(2) by (simp add: mult_less_cancel_right)
  then have "\<lfloor>r * of_int cap\<rfloor> < cap"
    by (simp add: floor_less_iff)
  moreover have "0 \<le> \<lfloor>r * of_int cap\<rfloor>"
    using pos assms(1) by simp
  ultimately show ?thesis
    by (simp add: fullJitterDelay_def cap_def)
qed

definition bucket_ok :: "token_bucket \<Rightarrow> bool" where
  "bucket_ok b \<longleftrightarrow> 0 < tb_capacity b \<and> 0 < tb_refillPerSecond b \<and> 0 \<le> tb_tokens b \<and> tb_tokens b \<le> tb_capacity b"

lemma refill_fields [simp]:
  "tb_capacity (refill t b) = tb_capacity b"
  "tb_refillPerSecond (refill t b) = tb_refillPerSecond b"
  "tb_lastRefillMs (refill t b) = t"
  by (simp_all add: refill_def Let_def)

lemma refill_ok: "bucket_ok b \<Longrightarrow> bucket_ok (refill t b)"
  by (auto simp: bucket_ok_def refill_def Let_def)

lemma refill_credit:
  assumes "bucket_ok b" "tb_lastRefillMs b \<le> t"
  shows "tb_tokens (refill t b) \<le> tb_tokens b + (t - tb_lastRefillMs b) / 1000 * tb_refillPerSecond b"
  using assms by (auto simp: refill_def Let_def)

text \<open>The cost a call of \<open>tryRemove\<close> spends, and the bucket it leaves.\<close>

definition spend :: "rat \<times> rat \<Rightarrow> token_bucket \<Rightarrow> token_bucket" where
  "spend = (\<lambda>(cost, t) b. case tryRemove cost t b of Inl e \<Rightarrow> b | Inr (b1, admitted) \<Rightarrow> b1)"

definition spent :: "rat \<times> rat \<Rightarrow> token_bucket \<Rightarrow> rat" where
  "spent = (\<lambda>(cost, t) b. case tryRemove cost t b of Inl e \<Rightarrow> 0 | Inr (b1, admitted) \<Rightarrow> if admitted then cost else 0)"

primrec total_spent :: "(rat \<times> rat) list \<Rightarrow> token_bucket \<Rightarrow> rat" where
  "total_spent [] b = 0"
| "total_spent (c # cs) b = spent c b + total_spent cs (spend c b)"

lemma spend_ok: "bucket_ok b \<Longrightarrow> bucket_ok (spend c b)"
  using refill_ok [of b "snd c"]
  by (cases c) (auto simp: spend_def tryRemove_def Let_def bucket_ok_def)

lemma spend_fields [simp]:
  "tb_capacity (spend c b) = tb_capacity b" "tb_refillPerSecond (spend c b) = tb_refillPerSecond b"
  by (cases c; simp add: spend_def tryRemove_def Let_def)+

interpretation bucket_inv: step_invariant spend bucket_ok
  by unfold_locales (rule spend_ok)

lemma spend_balance:
  assumes "bucket_ok b" "0 < cost" "tb_lastRefillMs b \<le> t"
  shows "tb_tokens (spend (cost, t) b) + spent (cost, t) b
      \<le> tb_tokens b + (t - tb_lastRefillMs b) / 1000 * tb_refillPerSecond b"
    and "tb_lastRefillMs (spend (cost, t) b) = t"
  using refill_credit [OF assms(1,3)] assms(2)
  by (auto simp: spend_def spent_def tryRemove_def Let_def)

lemma total_spent_bound:
  "bucket_ok b \<Longrightarrow> \<forall>(cost, t) \<in> set cs. 0 < cost \<and> t \<le> tend \<Longrightarrow> sorted (tb_lastRefillMs b # map snd cs)
   \<Longrightarrow> tb_lastRefillMs b \<le> tend
   \<Longrightarrow> total_spent cs b \<le> tb_tokens b + (tend - tb_lastRefillMs b) / 1000 * tb_refillPerSecond b"
proof (induction cs arbitrary: b)
  case Nil
  then show ?case
    by (auto simp: bucket_ok_def intro!: add_nonneg_nonneg mult_nonneg_nonneg)
next
  case (Cons c cs)
  obtain cost t where c: "c = (cost, t)"
    by force
  have pos: "0 < cost" "tb_lastRefillMs b \<le> t" "t \<le> tend"
    using Cons.prems c by auto
  note bal = spend_balance [OF Cons.prems(1) pos(1,2)]
  have "total_spent cs (spend c b)
      \<le> tb_tokens (spend c b) + (tend - t) / 1000 * tb_refillPerSecond b"
    using Cons.IH [of "spend c b"] Cons.prems bal(2) c spend_ok [OF Cons.prems(1), of c] by auto
  then have "total_spent (c # cs) b
      \<le> tb_tokens b + (t - tb_lastRefillMs b) / 1000 * tb_refillPerSecond b + (tend - t) / 1000 * tb_refillPerSecond b"
    using bal(1) c by simp
  also have "\<dots> = tb_tokens b + (tend - tb_lastRefillMs b) / 1000 * tb_refillPerSecond b"
    by (simp add: field_simps)
  finally show ?case .
qed

section \<open>Properties\<close>

text \<open>
  C33: with a clock that does not go back, the cost a bucket admits between two instants, however
  it was used before, is at most its capacity plus the refill of the time between them.
\<close>

theorem bucket_admits_at_most_burst_plus_rate:
  assumes "createTokenBucket capacity refillPerSecond start = Inr b0"
    and "b = fold spend used b0" "tb_lastRefillMs b \<le> tend"
    and "\<forall>(cost, t) \<in> set cs. 0 < cost \<and> t \<le> tend" "sorted (tb_lastRefillMs b # map snd cs)"
  shows "total_spent cs b \<le> capacity + (tend - tb_lastRefillMs b) / 1000 * refillPerSecond"
proof -
  have "bucket_ok b0" and b0: "tb_capacity b0 = capacity" "tb_refillPerSecond b0 = refillPerSecond"
    using assms(1) by (auto simp: createTokenBucket_def bucket_ok_def split: if_splits)
  then have ok: "bucket_ok b"
    unfolding assms(2) by (blast intro: bucket_inv.run_keeps)
  have "tb_capacity (fold spend cs' x) = tb_capacity x \<and> tb_refillPerSecond (fold spend cs' x) = tb_refillPerSecond x" for cs' x
    by (induction cs' arbitrary: x) simp_all
  then have "tb_capacity b = capacity" "tb_refillPerSecond b = refillPerSecond"
    using b0 assms(2) by simp_all
  then show ?thesis
    using total_spent_bound [OF ok assms(4,5,3)] ok by (simp add: bucket_ok_def)
qed

theorem bucket_admits_at_most_burst_plus_rate_witness:
  "total_spent [(2, 500), (2, 500), (1, 1000)] \<lparr>tb_capacity = 3, tb_refillPerSecond = 1, tb_tokens = 3, tb_lastRefillMs = 0\<rparr> = 3
   \<and> total_spent [(2, 500), (2, 500), (1, 1000)] \<lparr>tb_capacity = 3, tb_refillPerSecond = 1, tb_tokens = 3, tb_lastRefillMs = 0\<rparr>
      \<le> 3 + (1000 - 0) / 1000 * 1"
proof -
  let ?b = "\<lparr>tb_capacity = 3, tb_refillPerSecond = 1, tb_tokens = 3, tb_lastRefillMs = 0\<rparr>"
  have c: "createTokenBucket 3 1 0 = Inr ?b"
    by (simp add: createTokenBucket_def)
  have "total_spent [(2, 500), (2, 500), (1, 1000)] ?b = 3"
    by (simp add: spend_def spent_def tryRemove_def refill_def Let_def)
  moreover have "total_spent [(2, 500), (2, 500), (1, 1000)] ?b \<le> 3 + (1000 - tb_lastRefillMs ?b) / 1000 * 1"
    by (rule bucket_admits_at_most_burst_plus_rate [OF c, where used = "[]"]) simp_all
  ultimately show ?thesis
    by simp
qed

text \<open>
  A caller told to wait \<open>retryAfterSeconds\<close> for a cost within the capacity is admitted when it
  comes back after that many seconds and nothing was spent meanwhile.
\<close>

lemma retry_after_is_enough:
  assumes ok: "bucket_ok b" and cost: "0 < cost" "cost \<le> tb_capacity b"
    and wait: "retryAfterSeconds cost now b = (b1, secs)" and later: "now + 1000 * of_int secs \<le> t"
  shows "\<exists>b2. tryRemove cost t b1 = Inr (b2, True)"
proof -
  have b1: "b1 = refill now b" and ok1: "bucket_ok b1" and last: "tb_lastRefillMs b1 = now"
    using wait refill_ok [OF ok] by (auto simp: retryAfterSeconds_def Let_def)
  have "cost \<le> tb_tokens (refill t b1)"
  proof (cases "cost \<le> tb_tokens b1")
    case True
    then have "secs = 0"
      using wait by (auto simp: retryAfterSeconds_def Let_def)
    then show ?thesis
      using True later last ok1 cost b1 by (auto simp: refill_def Let_def bucket_ok_def intro!: add_increasing2)
  next
    case False
    then have secs: "(cost - tb_tokens b1) / tb_refillPerSecond b1 \<le> of_int secs"
      using wait by (auto simp: retryAfterSeconds_def Let_def)
    moreover have rate: "0 < tb_refillPerSecond b1"
      using ok1 by (simp add: bucket_ok_def)
    ultimately have "cost - tb_tokens b1 \<le> of_int secs * tb_refillPerSecond b1"
      by (simp add: divide_le_eq)
    also have "\<dots> \<le> (t - now) / 1000 * tb_refillPerSecond b1"
      using later rate by (intro mult_right_mono) simp_all
    finally have "cost \<le> tb_tokens b1 + (t - now) / 1000 * tb_refillPerSecond b1"
      by simp
    moreover have "0 < t - now"
    proof (rule ccontr)
      assume "\<not> 0 < t - now"
      then have "(t - now) / 1000 * tb_refillPerSecond b1 \<le> 0"
        using rate by (simp add: mult_le_0_iff)
      with \<open>cost \<le> tb_tokens b1 + (t - now) / 1000 * tb_refillPerSecond b1\<close> False show False
        by simp
    qed
    ultimately show ?thesis
      using cost last b1 by (simp add: refill_def [of t] Let_def)
  qed
  then show ?thesis
    using cost by (simp add: tryRemove_def Let_def)
qed

text \<open>
  After a clock step back the refill credits time a second time: for every bucket, a step
  back by \<open>d\<close> milliseconds and forward again to the instant of the last refill adds the refill
  of \<open>d\<close> milliseconds although no new time has passed.
\<close>

lemma clock_step_back_refills_twice:
  assumes "bucket_ok b" "0 < d"
  shows "tb_tokens (refill (tb_lastRefillMs b) (refill (tb_lastRefillMs b - d) b))
    = min (tb_capacity b) (tb_tokens b + d / 1000 * tb_refillPerSecond b)"
  using assms by (simp add: refill_def Let_def)

end
