(* ===== verification/Circuit_Breaker.thy ===== *)
theory Circuit_Breaker
  imports Backoff
begin

text \<open>
  The circuit breaker (\<open>src/resilience/circuit-breaker.ts\<close>). Every operation takes the clock
  reading it is called at; the operations that can open the circuit also take the draw of
  \<open>random\<close>, a rational in \<open>[0, 1)\<close>. Permits are values: who holds one settles it with
  \<open>settle\<close>. \<open>cb_changes\<close> lists the calls of \<open>onStateChange\<close>, latest last.
\<close>

section \<open>State\<close>

datatype circuit_state = Closed | Open | HalfOpen

datatype circuit_outcome = Success | Failure | Ignored

record breaker_options =
  co_windowMs :: int
  co_bucketCount :: int
  co_failureRateThreshold :: rat
  co_minimumThroughput :: int
  co_openMs :: int
  co_openJitterRatio :: rat
  co_halfOpenProbes :: int
  co_halfOpenSuccessThreshold :: int

record bucket =
  bk_epoch :: int
  bk_successes :: int
  bk_failures :: int

record state_change =
  sc_from :: circuit_state
  sc_to :: circuit_state
  sc_at :: int
  sc_failureRate :: "rat option"

record breaker =
  cb_options :: breaker_options
  cb_bucketMs :: int
  cb_buckets :: "bucket list"
  cb_state :: circuit_state
  cb_openUntil :: int
  cb_probesInFlight :: int
  cb_consecutiveProbeSuccesses :: int
  cb_generation :: int
  cb_changes :: "state_change list"

record permit =
  pm_issuedIn :: circuit_state
  pm_generation :: int
  pm_settled :: bool

definition HALF_OPEN_RETRY_AFTER_MS :: int where
  "HALF_OPEN_RETRY_AFTER_MS = 1000"

definition empty_bucket :: bucket where
  "empty_bucket = \<lparr>bk_epoch = -1, bk_successes = 0, bk_failures = 0\<rparr>"

section \<open>Operations\<close>

definition createCircuitBreaker :: "breaker_options \<Rightarrow> string + breaker" where
  "createCircuitBreaker opt =
     (if co_windowMs opt < 1 then Inl ''windowMs''
      else if co_bucketCount opt < 1 then Inl ''bucketCount''
      else if co_openMs opt < 1 then Inl ''openMs''
      else if co_halfOpenProbes opt < 1 then Inl ''halfOpenProbes''
      else if co_halfOpenSuccessThreshold opt < 1 then Inl ''halfOpenSuccessThreshold''
      else if co_minimumThroughput opt < 1 then Inl ''minimumThroughput''
      else if \<not> 0 < co_failureRateThreshold opt \<or> 1 < co_failureRateThreshold opt then Inl ''failureRateThreshold''
      else if co_openJitterRatio opt < 0 \<or> 1 \<le> co_openJitterRatio opt then Inl ''openJitterRatio''
      else if co_windowMs opt < co_bucketCount opt then Inl ''windowMs''
      else Inr \<lparr>cb_options = opt, cb_bucketMs = co_windowMs opt div co_bucketCount opt,
                cb_buckets = replicate (nat (co_bucketCount opt)) empty_bucket,
                cb_state = Closed, cb_openUntil = 0, cb_probesInFlight = 0,
                cb_consecutiveProbeSuccesses = 0, cb_generation = 0, cb_changes = []\<rparr>)"

definition transitionTo :: "circuit_state \<Rightarrow> rat option \<Rightarrow> int \<Rightarrow> breaker \<Rightarrow> breaker" where
  "transitionTo target failureRate now b =
     (if cb_state b = target then b
      else let b1 = (if target = HalfOpen
                     then b\<lparr>cb_generation := cb_generation b + 1, cb_probesInFlight := 0,
                            cb_consecutiveProbeSuccesses := 0\<rparr>
                     else b) in
        b1\<lparr>cb_state := target,
           cb_changes := cb_changes b1 @ [\<lparr>sc_from = cb_state b, sc_to = target, sc_at = now, sc_failureRate = failureRate\<rparr>]\<rparr>)"

text \<open>The \<open>state\<close> getter: it makes the transition from open to half-open that the clock is due for.\<close>

definition check_state :: "int \<Rightarrow> breaker \<Rightarrow> breaker" where
  "check_state now b =
     (if cb_state b = Open \<and> cb_openUntil b \<le> now then transitionTo HalfOpen None now b else b)"

definition bucket_index :: "int \<Rightarrow> breaker \<Rightarrow> nat" where
  "bucket_index epoch b = nat (epoch mod co_bucketCount (cb_options b))"

definition currentBucket :: "int \<Rightarrow> breaker \<Rightarrow> bucket" where
  "currentBucket now b =
     (let epoch = now div cb_bucketMs b; bucket = cb_buckets b ! bucket_index epoch b in
      if bk_epoch bucket \<noteq> epoch then \<lparr>bk_epoch = epoch, bk_successes = 0, bk_failures = 0\<rparr> else bucket)"

definition count_outcome :: "circuit_outcome \<Rightarrow> int \<Rightarrow> breaker \<Rightarrow> breaker" where
  "count_outcome outcome now b =
     (let bucket = currentBucket now b in
      b\<lparr>cb_buckets := (cb_buckets b)[bucket_index (now div cb_bucketMs b) b :=
          (if outcome = Success then bucket\<lparr>bk_successes := bk_successes bucket + 1\<rparr>
           else bucket\<lparr>bk_failures := bk_failures bucket + 1\<rparr>)]\<rparr>)"

definition totals :: "int \<Rightarrow> breaker \<Rightarrow> int \<times> int" where
  "totals now b =
     (let oldestEpoch = now div cb_bucketMs b - (co_bucketCount (cb_options b) - 1);
          fresh = filter (\<lambda>k. \<not> bk_epoch k < oldestEpoch) (cb_buckets b) in
      (sum_list (map bk_successes fresh), sum_list (map bk_failures fresh)))"

definition jitterWindow :: "breaker_options \<Rightarrow> int" where
  "jitterWindow opt = \<lfloor>of_int (co_openMs opt) * co_openJitterRatio opt\<rfloor>"

definition trip :: "rat option \<Rightarrow> int \<Rightarrow> rat \<Rightarrow> breaker \<Rightarrow> breaker" where
  "trip failureRate now random b =
     (let w = jitterWindow (cb_options b);
          spread = (if 0 < w then fullJitterDelay 1 \<lparr>bo_baseMs = w, bo_maxMs = w\<rparr> random else 0) in
      transitionTo Open failureRate now
        (b\<lparr>cb_openUntil := now + (co_openMs (cb_options b) - w) + spread, cb_probesInFlight := 0,
           cb_consecutiveProbeSuccesses := 0\<rparr>))"

definition close_circuit :: "int \<Rightarrow> breaker \<Rightarrow> breaker" where
  "close_circuit now b =
     transitionTo Closed None now
       (b\<lparr>cb_buckets := map (\<lambda>k. empty_bucket) (cb_buckets b), cb_consecutiveProbeSuccesses := 0\<rparr>)"

text \<open>The decision \<open>record\<close> makes after it has counted the outcome.\<close>

definition decide :: "circuit_outcome \<Rightarrow> circuit_state \<Rightarrow> int \<Rightarrow> int \<Rightarrow> rat \<Rightarrow> breaker \<Rightarrow> breaker" where
  "decide outcome issuedIn generation now random b =
     (if issuedIn = HalfOpen \<and> generation \<noteq> cb_generation b then b
      else if cb_state b = HalfOpen \<and> issuedIn = HalfOpen
      then (if outcome = Failure then trip None now random (b\<lparr>cb_consecutiveProbeSuccesses := 0\<rparr>)
            else if outcome = Success
            then let b1 = b\<lparr>cb_consecutiveProbeSuccesses := cb_consecutiveProbeSuccesses b + 1\<rparr> in
                 if co_halfOpenSuccessThreshold (cb_options b1) \<le> cb_consecutiveProbeSuccesses b1
                 then close_circuit now b1 else b1
            else b)
      else if cb_state b \<noteq> Closed \<or> outcome \<noteq> Failure then b
      else case totals now b of (successes, failures) \<Rightarrow>
             let total = successes + failures in
             if total < co_minimumThroughput (cb_options b) then b
             else if co_failureRateThreshold (cb_options b) \<le> of_int failures / of_int total
             then trip (Some (of_int failures / of_int total)) now random b
             else b)"

text \<open>What \<open>record\<close> does before it decides: release the probe's slot and count the outcome.\<close>

definition note_outcome :: "circuit_outcome \<Rightarrow> circuit_state \<Rightarrow> int \<Rightarrow> int \<Rightarrow> breaker \<Rightarrow> breaker" where
  "note_outcome outcome issuedIn generation now b =
     (let b1 = (if issuedIn = HalfOpen \<and> generation = cb_generation b
                then b\<lparr>cb_probesInFlight := max 0 (cb_probesInFlight b - 1)\<rparr> else b) in
      if outcome \<noteq> Ignored then count_outcome outcome now b1 else b1)"

definition record_outcome :: "circuit_outcome \<Rightarrow> circuit_state \<Rightarrow> int \<Rightarrow> int \<Rightarrow> rat \<Rightarrow> breaker \<Rightarrow> breaker" where
  "record_outcome outcome issuedIn generation now random b =
     decide outcome issuedIn generation now random (note_outcome outcome issuedIn generation now b)"

text \<open>A refused attempt carries the number of milliseconds after which to come back.\<close>

definition createPermit :: "circuit_state \<Rightarrow> int \<Rightarrow> permit" where
  "createPermit issuedIn generation = \<lparr>pm_issuedIn = issuedIn, pm_generation = generation, pm_settled = False\<rparr>"

definition acquire :: "int \<Rightarrow> breaker \<Rightarrow> breaker \<times> (int + permit)" where
  "acquire now b =
     (let b1 = check_state now b in
      case cb_state b1 of
        Open \<Rightarrow> (b1, Inl (cb_openUntil b1 - now))
      | HalfOpen \<Rightarrow>
          if co_halfOpenProbes (cb_options b1) \<le> cb_probesInFlight b1 then (b1, Inl HALF_OPEN_RETRY_AFTER_MS)
          else (b1\<lparr>cb_probesInFlight := cb_probesInFlight b1 + 1\<rparr>, Inr (createPermit HalfOpen (cb_generation b1)))
      | Closed \<Rightarrow> (b1, Inr (createPermit Closed (cb_generation b1))))"

text \<open>Settling a permit twice throws and changes nothing.\<close>

definition settle :: "circuit_outcome \<Rightarrow> int \<Rightarrow> rat \<Rightarrow> permit \<Rightarrow> breaker \<Rightarrow> (permit \<times> breaker) option" where
  "settle outcome now random p b =
     (if pm_settled p then None
      else Some (p\<lparr>pm_settled := True\<rparr>, record_outcome outcome (pm_issuedIn p) (pm_generation p) now random b))"

record circuit_stats =
  cs_state :: circuit_state
  cs_successes :: int
  cs_failures :: int
  cs_failureRate :: rat
  cs_probesInFlight :: int

definition stats :: "int \<Rightarrow> breaker \<Rightarrow> breaker \<times> circuit_stats" where
  "stats now b =
     (case totals now b of (successes, failures) \<Rightarrow>
      let total = successes + failures; b1 = check_state now b in
      (b1, \<lparr>cs_state = cb_state b1, cs_successes = successes, cs_failures = failures,
            cs_failureRate = (if total = 0 then 0 else of_int failures / of_int total),
            cs_probesInFlight = cb_probesInFlight b1\<rparr>))"

section \<open>A breaker and the permits it has issued\<close>

type_synonym circuit_system = "breaker \<times> permit list"

inductive circuit_step :: "circuit_system \<Rightarrow> circuit_system \<Rightarrow> bool" where
  step_admit: "acquire now b = (b1, Inr p) \<Longrightarrow> circuit_step (b, ps) (b1, ps @ [p])"
| step_refuse: "acquire now b = (b1, Inl ms) \<Longrightarrow> circuit_step (b, ps) (b1, ps)"
| step_settle: "i < length ps \<Longrightarrow> settle outcome now random (ps ! i) b = Some (p, b1)
    \<Longrightarrow> circuit_step (b, ps) (b1, ps[i := p])"
| step_stats: "circuit_step (b, ps) (fst (stats now b), ps)"

section \<open>What each operation changes\<close>

lemma transitionTo_fields [simp]:
  "cb_options (transitionTo s r now b) = cb_options b"
  "cb_bucketMs (transitionTo s r now b) = cb_bucketMs b"
  "cb_buckets (transitionTo s r now b) = cb_buckets b"
  "cb_state (transitionTo s r now b) = s"
  "cb_openUntil (transitionTo s r now b) = cb_openUntil b"
  "s \<noteq> HalfOpen \<Longrightarrow> cb_generation (transitionTo s r now b) = cb_generation b"
  "s \<noteq> HalfOpen \<Longrightarrow> cb_probesInFlight (transitionTo s r now b) = cb_probesInFlight b"
  by (simp_all add: transitionTo_def Let_def)

lemma check_state_cases:
  obtains (stay) "check_state now b = b" "cb_state b = Open \<Longrightarrow> now < cb_openUntil b"
  | (expire) "cb_state b = Open" "cb_openUntil b \<le> now" "check_state now b = transitionTo HalfOpen None now b"
  by (cases "cb_state b = Open \<and> cb_openUntil b \<le> now") (auto simp: check_state_def)

lemma check_state_fields [simp]:
  "cb_options (check_state now b) = cb_options b"
  "cb_bucketMs (check_state now b) = cb_bucketMs b"
  "cb_openUntil (check_state now b) = cb_openUntil b"
  by (simp_all add: check_state_def)

lemma half_open_fields:
  "cb_state b = Open \<Longrightarrow> cb_generation (transitionTo HalfOpen r now b) = cb_generation b + 1"
  "cb_state b = Open \<Longrightarrow> cb_probesInFlight (transitionTo HalfOpen r now b) = 0"
  by (simp_all add: transitionTo_def)

lemma count_outcome_fields [simp]:
  "cb_options (count_outcome o' now b) = cb_options b"
  "cb_bucketMs (count_outcome o' now b) = cb_bucketMs b"
  "cb_state (count_outcome o' now b) = cb_state b"
  "cb_openUntil (count_outcome o' now b) = cb_openUntil b"
  "cb_generation (count_outcome o' now b) = cb_generation b"
  "cb_probesInFlight (count_outcome o' now b) = cb_probesInFlight b"
  "length (cb_buckets (count_outcome o' now b)) = length (cb_buckets b)"
  by (simp_all add: count_outcome_def Let_def)

lemma trip_fields [simp]:
  "cb_options (trip r now x b) = cb_options b"
  "cb_state (trip r now x b) = Open"
  "cb_generation (trip r now x b) = cb_generation b"
  "cb_probesInFlight (trip r now x b) = 0"
  by (simp_all add: trip_def Let_def)

lemma close_fields [simp]:
  "cb_options (close_circuit now b) = cb_options b"
  "cb_state (close_circuit now b) = Closed"
  "cb_generation (close_circuit now b) = cb_generation b"
  "cb_probesInFlight (close_circuit now b) = cb_probesInFlight b"
  by (simp_all add: close_circuit_def)

lemma decide_fields:
  "cb_options (decide o' i g now x b) = cb_options b"
  "cb_generation (decide o' i g now x b) = cb_generation b"
  "cb_state (decide o' i g now x b) \<noteq> Open \<Longrightarrow> cb_state b \<noteq> Open"
  "cb_state (decide o' i g now x b) \<noteq> Open \<Longrightarrow> cb_probesInFlight (decide o' i g now x b) = cb_probesInFlight b"
  "cb_probesInFlight (decide o' i g now x b) \<in> {0, cb_probesInFlight b}"
  by (auto simp: decide_def Let_def split: prod.splits if_splits)

lemma decide_open: "cb_state b = Open \<Longrightarrow> decide o' i g now x b = b"
  by (auto simp: decide_def)

lemma note_fields [simp]:
  "cb_options (note_outcome o' i g now b) = cb_options b"
  "cb_bucketMs (note_outcome o' i g now b) = cb_bucketMs b"
  "cb_state (note_outcome o' i g now b) = cb_state b"
  "cb_openUntil (note_outcome o' i g now b) = cb_openUntil b"
  "cb_generation (note_outcome o' i g now b) = cb_generation b"
  "cb_probesInFlight (note_outcome o' i g now b)
     = (if i = HalfOpen \<and> g = cb_generation b then max 0 (cb_probesInFlight b - 1) else cb_probesInFlight b)"
  by (simp_all add: note_outcome_def Let_def)

lemma record_fields:
  "cb_options (record_outcome o' i g now x b) = cb_options b"
  "cb_generation (record_outcome o' i g now x b) = cb_generation b"
  "cb_state (record_outcome o' i g now x b) \<noteq> Open \<Longrightarrow> cb_state b \<noteq> Open"
  "cb_state (record_outcome o' i g now x b) \<noteq> Open \<Longrightarrow> cb_probesInFlight (record_outcome o' i g now x b)
     = (if i = HalfOpen \<and> g = cb_generation b then max 0 (cb_probesInFlight b - 1) else cb_probesInFlight b)"
  using decide_fields [of o' i g now x "note_outcome o' i g now b"]
  by (simp_all add: record_outcome_def)

lemma record_probes:
  "0 \<le> cb_probesInFlight b \<Longrightarrow> 0 \<le> cb_probesInFlight (record_outcome o' i g now x b)
     \<and> cb_probesInFlight (record_outcome o' i g now x b) \<le> cb_probesInFlight b"
  using decide_fields(5) [of o' i g now x "note_outcome o' i g now b"]
  by (auto simp: record_outcome_def split: if_splits)

lemma record_open:
  "cb_state b = Open \<Longrightarrow> cb_state (record_outcome o' i g now x b) = Open
     \<and> cb_openUntil (record_outcome o' i g now x b) = cb_openUntil b"
  by (simp add: record_outcome_def decide_open)

section \<open>Probes of an episode\<close>

definition outstanding :: "circuit_system \<Rightarrow> nat" where
  "outstanding = (\<lambda>(b, ps). length (filter
     (\<lambda>p. pm_issuedIn p = HalfOpen \<and> pm_generation p = cb_generation b \<and> \<not> pm_settled p) ps))"

definition probe_inv :: "circuit_system \<Rightarrow> bool" where
  "probe_inv = (\<lambda>(b, ps). 1 \<le> co_halfOpenProbes (cb_options b)
     \<and> (\<forall>p \<in> set ps. pm_issuedIn p = HalfOpen \<longrightarrow> pm_generation p \<le> cb_generation b)
     \<and> 0 \<le> cb_probesInFlight b \<and> cb_probesInFlight b \<le> co_halfOpenProbes (cb_options b)
     \<and> (cb_state b \<noteq> Open \<longrightarrow> int (outstanding (b, ps)) = cb_probesInFlight b))"

lemma no_probe_of_next_episode:
  "\<forall>p \<in> set ps. pm_issuedIn p = HalfOpen \<longrightarrow> pm_generation p \<le> g
   \<Longrightarrow> filter (\<lambda>p. pm_issuedIn p = HalfOpen \<and> pm_generation p = g + 1 \<and> \<not> pm_settled p) ps = []"
  by (auto simp: filter_empty_conv)

lemma check_state_inv: "probe_inv (b, ps) \<Longrightarrow> probe_inv (check_state now b, ps)"
  by (cases rule: check_state_cases [of now b])
    (auto simp: probe_inv_def outstanding_def half_open_fields no_probe_of_next_episode)

lemma acquire_inv:
  assumes "probe_inv (b, ps)"
  shows "acquire now b = (b1, Inl ms) \<Longrightarrow> probe_inv (b1, ps)"
    and "acquire now b = (b1, Inr p) \<Longrightarrow> probe_inv (b1, ps @ [p])"
  using check_state_inv [OF assms, of now]
  by (auto simp: acquire_def Let_def probe_inv_def outstanding_def createPermit_def
      split: circuit_state.splits if_splits)

lemma settle_inv:
  assumes inv: "probe_inv (b, ps)" and i: "i < length ps" and st: "settle o' now x (ps ! i) b = Some (p, b1)"
  shows "probe_inv (b1, ps[i := p])"
proof -
  let ?q = "ps ! i"
  let ?P = "\<lambda>p. pm_issuedIn p = HalfOpen \<and> pm_generation p = cb_generation b \<and> \<not> pm_settled p"
  have open_q: "\<not> pm_settled ?q" and p: "p = ?q\<lparr>pm_settled := True\<rparr>"
    and b1: "b1 = record_outcome o' (pm_issuedIn ?q) (pm_generation ?q) now x b"
    using st by (auto simp: settle_def split: if_splits)
  have gens: "\<forall>p' \<in> set (ps[i := p]). pm_issuedIn p' = HalfOpen \<longrightarrow> pm_generation p' \<le> cb_generation b"
    using inv i p set_update_subset_insert [of ps i p] nth_mem [OF i] by (auto simp: probe_inv_def)
  have out: "length (filter ?P (ps[i := p])) + (if ?P ?q then 1 else 0) = length (filter ?P ps)"
    using length_filter_update [OF i, of ?P p] p by simp
  have "cb_state b1 \<noteq> Open \<Longrightarrow> int (length (filter ?P (ps[i := p]))) = cb_probesInFlight b1"
  proof -
    assume no: "cb_state b1 \<noteq> Open"
    have "int (length (filter ?P ps)) = cb_probesInFlight b"
      using inv record_fields(3) no unfolding b1 by (simp add: probe_inv_def outstanding_def)
    then show ?thesis
      using out open_q record_fields(4) no unfolding b1 by (auto split: if_splits)
  qed
  then show ?thesis
    using inv gens record_probes [of b o' "pm_issuedIn ?q" "pm_generation ?q" now x] unfolding b1
    by (simp add: probe_inv_def outstanding_def record_fields(1,2))
qed

lemma stats_inv: "probe_inv (b, ps) \<Longrightarrow> probe_inv (fst (stats now b), ps)"
  using check_state_inv by (simp add: stats_def Let_def split: prod.splits)

interpretation probes: rel_invariant circuit_step probe_inv
proof
  fix s t
  assume "circuit_step s t" "probe_inv s"
  then show "probe_inv t"
    by (cases rule: circuit_step.cases) (auto intro: acquire_inv settle_inv stats_inv)
qed

lemma create_probe_inv: "createCircuitBreaker opt = Inr b \<Longrightarrow> probe_inv (b, []) \<and> cb_options b = opt"
  by (auto simp: createCircuitBreaker_def probe_inv_def outstanding_def split: if_splits)

lemma circuit_step_options: "circuit_step s t \<Longrightarrow> cb_options (fst t) = cb_options (fst s)"
  by (induction rule: circuit_step.induct)
    (auto simp: acquire_def settle_def stats_def Let_def record_fields split: circuit_state.splits if_splits prod.splits)

lemma reach_options: "circuit_step\<^sup>*\<^sup>* s t \<Longrightarrow> cb_options (fst t) = cb_options (fst s)"
  by (induction rule: rtranclp_induct) (auto simp: circuit_step_options)

section \<open>The sliding window\<close>

text \<open>The window's reference: the outcomes counted so far with their slices, latest last.\<close>

type_synonym window_history = "(int \<times> circuit_outcome) list"

definition count_all :: "window_history \<Rightarrow> breaker \<Rightarrow> breaker" where
  "count_all = fold (\<lambda>(t, o'). count_outcome o' t)"

definition hits :: "(int \<Rightarrow> bool) \<Rightarrow> bool \<Rightarrow> int \<Rightarrow> window_history \<Rightarrow> int" where
  "hits P success ms h = int (length (filter (\<lambda>(t, o'). P (t div ms) \<and> (o' = Success) = success) h))"

definition ring_ok :: "int \<Rightarrow> int \<Rightarrow> window_history \<Rightarrow> bucket list \<Rightarrow> bool" where
  "ring_ok n ms h ks \<longleftrightarrow> int (length ks) = n
     \<and> (\<forall>i < length ks. bk_epoch (ks ! i) = -1 \<or> nat (bk_epoch (ks ! i) mod n) = i)
     \<and> (\<forall>i < length ks. bk_successes (ks ! i) = hits (\<lambda>e. e = bk_epoch (ks ! i)) True ms h
          \<and> bk_failures (ks ! i) = hits (\<lambda>e. e = bk_epoch (ks ! i)) False ms h)
     \<and> (\<forall>(t, o') \<in> set h. 0 \<le> t \<and> t div ms \<le> bk_epoch (ks ! nat (t div ms mod n)))
     \<and> (\<forall>i < length ks. \<forall>m. (\<forall>(t, o') \<in> set h. t div ms \<le> m) \<longrightarrow> -1 \<le> m \<longrightarrow> bk_epoch (ks ! i) \<le> m)"

lemma hits_snoc [simp]:
  "hits P s ms (h @ [(t, o')]) = hits P s ms h + (if P (t div ms) \<and> (o' = Success) = s then 1 else 0)"
  by (simp add: hits_def)

lemma hits_none: "(\<forall>(t, o') \<in> set h. \<not> P (t div ms)) \<Longrightarrow> hits P s ms h = 0"
  by (auto simp: hits_def filter_empty_conv)

lemma ringD:
  assumes "ring_ok n ms h ks"
  shows "int (length ks) = n"
    "i < length ks \<Longrightarrow> bk_epoch (ks ! i) = -1 \<or> nat (bk_epoch (ks ! i) mod n) = i"
    "i < length ks \<Longrightarrow> bk_successes (ks ! i) = hits (\<lambda>e. e = bk_epoch (ks ! i)) True ms h"
    "i < length ks \<Longrightarrow> bk_failures (ks ! i) = hits (\<lambda>e. e = bk_epoch (ks ! i)) False ms h"
    "(t, o') \<in> set h \<Longrightarrow> 0 \<le> t \<and> t div ms \<le> bk_epoch (ks ! nat (t div ms mod n))"
    "i < length ks \<Longrightarrow> \<forall>(t, o') \<in> set h. t div ms \<le> m \<Longrightarrow> -1 \<le> m \<Longrightarrow> bk_epoch (ks ! i) \<le> m"
  using assms unfolding ring_ok_def by blast+

lemma ring_ok_count:
  assumes ring: "ring_ok n ms h (cb_buckets b)" and n: "n = co_bucketCount (cb_options b)" "1 \<le> n"
    and ms: "ms = cb_bucketMs b" "1 \<le> ms" and t: "0 \<le> t" "\<forall>(t', o'') \<in> set h. t' \<le> t"
  shows "ring_ok n ms (h @ [(t, o')]) (cb_buckets (count_outcome o' t b))"
proof -
  let ?ks = "cb_buckets b" and ?e = "t div ms"
  let ?i = "nat (?e mod n)"
  have e: "0 \<le> ?e"
    using t ms by (simp add: pos_imp_zdiv_nonneg_iff)
  have i: "?i < length ?ks"
    using ring n by (simp add: ring_ok_def nat_less_iff)
  have le: "\<forall>(t', o'') \<in> set h. t' div ms \<le> ?e"
    using t(2) ms by (auto simp: zdiv_mono1)
  have old: "bk_epoch (?ks ! ?i) \<le> ?e"
    using ring i le e by (auto simp: ring_ok_def)
  define k where "k = (if bk_epoch (?ks ! ?i) \<noteq> ?e then \<lparr>bk_epoch = ?e, bk_successes = 0, bk_failures = 0\<rparr> else ?ks ! ?i)"
  define k' where "k' = (if o' = Success then k\<lparr>bk_successes := bk_successes k + 1\<rparr> else k\<lparr>bk_failures := bk_failures k + 1\<rparr>)"
  have upd: "cb_buckets (count_outcome o' t b) = ?ks[?i := k']"
    using n ms by (simp add: count_outcome_def currentBucket_def bucket_index_def Let_def k_def k'_def)
  have ep: "bk_epoch k' = ?e"
    and k': "bk_successes k' = bk_successes k + (if o' = Success then 1 else 0)"
      "bk_failures k' = bk_failures k + (if o' = Success then 0 else 1)"
    by (simp_all add: k'_def k_def)
  have none: "hits (\<lambda>e. e = ?e) s ms h = 0" if "bk_epoch (?ks ! ?i) \<noteq> ?e" for s
  proof (rule hits_none, clarify)
    fix t' o'' assume h: "(t', o'') \<in> set h" "t' div ms = ?e"
    then have "?e \<le> bk_epoch (?ks ! ?i)"
      using ring by (auto simp: ring_ok_def)
    then show False
      using that old by simp
  qed
  have cnt: "bk_successes k = hits (\<lambda>e. e = ?e) True ms h \<and> bk_failures k = hits (\<lambda>e. e = ?e) False ms h"
  proof (cases "bk_epoch (?ks ! ?i) = ?e")
    case True
    then show ?thesis
      using ring i by (simp add: k_def ring_ok_def)
  next
    case False
    then show ?thesis
      by (simp add: k_def none)
  qed
  have other: "?e \<noteq> bk_epoch (?ks ! j)" if "j < length ?ks" "j \<noteq> ?i" for j
    using ring that e by (auto simp: ring_ok_def)
  have same: "?ks[?i := k'] ! j = (if j = ?i then k' else ?ks ! j)" if "j < length ?ks" for j
    using i that by simp
  show ?thesis
    unfolding ring_ok_def upd
  proof (intro conjI allI impI ballI)
    show "int (length (?ks[?i := k'])) = n"
      using ringD(1) [OF ring] by simp
  next
    fix j assume "j < length (?ks[?i := k'])"
    then show "bk_epoch (?ks[?i := k'] ! j) = -1 \<or> nat (bk_epoch (?ks[?i := k'] ! j) mod n) = j"
      using ringD(2) [OF ring, of j] ep by (simp add: same)
  next
    fix j assume "j < length (?ks[?i := k'])"
    then show "bk_successes (?ks[?i := k'] ! j) = hits (\<lambda>e. e = bk_epoch (?ks[?i := k'] ! j)) True ms (h @ [(t, o')])"
      using ringD(3) [OF ring, of j] ep other [of j] cnt k' by (simp add: same)
  next
    fix j assume "j < length (?ks[?i := k'])"
    then show "bk_failures (?ks[?i := k'] ! j) = hits (\<lambda>e. e = bk_epoch (?ks[?i := k'] ! j)) False ms (h @ [(t, o')])"
      using ringD(4) [OF ring, of j] ep other [of j] cnt k' by (simp add: same)
  next
    fix x assume x: "x \<in> set (h @ [(t, o')])"
    obtain t' o'' where x': "x = (t', o'')"
      by force
    have "nat (t' div ms mod n) < length ?ks"
      using ringD(1) [OF ring] n by (simp add: nat_less_iff)
    moreover have "0 \<le> t' \<and> t' div ms \<le> ?e"
      using x x' le t(1) ringD(5) [OF ring, of t' o''] by auto
    moreover have "t' div ms \<le> bk_epoch (?ks ! nat (t' div ms mod n)) \<or> t' div ms = ?e"
      using x x' ringD(5) [OF ring, of t' o''] by auto
    ultimately show "case x of (t', o'') \<Rightarrow> 0 \<le> t' \<and> t' div ms \<le> bk_epoch (?ks[?i := k'] ! nat (t' div ms mod n))"
      using ep by (auto simp: same x')
  next
    fix j m assume j: "j < length (?ks[?i := k'])" and m: "\<forall>(t', o'') \<in> set (h @ [(t, o')]). t' div ms \<le> m" "-1 \<le> m"
    have "\<forall>(t', o'') \<in> set h. t' div ms \<le> m" "?e \<le> m"
      using m(1) by auto
    then show "bk_epoch (?ks[?i := k'] ! j) \<le> m"
      using j ringD(6) [OF ring, of j m] ep m(2) by (simp add: same)
  qed
qed

lemma ring_ok_empty:
  "int m = n \<Longrightarrow> ring_ok n ms [] (replicate m empty_bucket)"
  by (auto simp: ring_ok_def empty_bucket_def hits_def)

lemma count_all_fields [simp]:
  "cb_options (count_all h b) = cb_options b" "cb_bucketMs (count_all h b) = cb_bucketMs b"
proof (induction h arbitrary: b)
  case (Cons x h)
  { case 1 then show ?case using Cons by (cases x) (simp add: count_all_def) }
  { case 2 then show ?case using Cons by (cases x) (simp add: count_all_def) }
qed (simp_all add: count_all_def)

lemma ring_ok_run:
  assumes "ring_ok n ms [] (cb_buckets b)" "n = co_bucketCount (cb_options b)" "1 \<le> n"
    "ms = cb_bucketMs b" "1 \<le> ms"
  shows "sorted (map fst h) \<Longrightarrow> \<forall>(t, o') \<in> set h. 0 \<le> t \<Longrightarrow> ring_ok n ms h (cb_buckets (count_all h b))"
proof (induction h rule: rev_induct)
  case (snoc x h)
  obtain t o' where x: "x = (t, o')"
    by force
  have "ring_ok n ms h (cb_buckets (count_all h b))"
    using snoc by (auto simp: sorted_append)
  moreover have "count_all (h @ [x]) b = count_outcome o' t (count_all h b)"
    by (simp add: count_all_def x)
  ultimately show ?case
    using ring_ok_count [of n ms h "count_all h b" t o'] snoc.prems assms x
    by (auto simp: sorted_append case_prod_beta)
qed (use assms in \<open>simp add: count_all_def\<close>)

lemma sum_list_filter_nth:
  "sum_list (map f (filter P ks)) = (\<Sum>i<length ks. if P (ks ! i) then f (ks ! i) else (0::int))"
proof -
  have "sum_list (map f (filter P ks)) = sum_list (map (\<lambda>k. if P k then f k else 0) ks)"
    by (induction ks) simp_all
  then show ?thesis
    by (simp add: sum_list_sum_nth atLeast0LessThan)
qed

lemma hits_sum: "hits P s ms h = (\<Sum>j<length h. if P (fst (h ! j) div ms) \<and> (snd (h ! j) = Success) = s then 1 else 0)"
proof -
  have "hits P s ms h = sum_list (map (\<lambda>(t, o'). if P (t div ms) \<and> (o' = Success) = s then 1 else 0) h)"
    by (induction h rule: rev_induct) (auto simp: hits_def split: if_splits)
  then show ?thesis
    by (simp add: sum_list_sum_nth atLeast0LessThan case_prod_beta)
qed

text \<open>Two slices of the same slot inside one window are the same slice.\<close>

lemma same_slot:
  fixes a b c n :: int
  assumes "a mod n = b mod n" "c - n < a" "a \<le> b" "b \<le> c"
  shows "a = b"
proof -
  have "n dvd b - a"
    using assms(1) by (simp add: mod_eq_dvd_iff dvd_diff_commute)
  then show ?thesis
    using assms(2-) by (auto dest: zdvd_imp_le)
qed

lemma ring_totals:
  assumes ring: "ring_ok n ms h ks" and n: "1 \<le> n" and now: "\<forall>(t, o') \<in> set h. t div ms \<le> c" "-1 \<le> c" and ms: "1 \<le> ms"
    and f: "\<And>i. i < length ks \<Longrightarrow> f (ks ! i) = hits (\<lambda>e. e = bk_epoch (ks ! i)) s ms h"
  shows "sum_list (map f (filter (\<lambda>k. \<not> bk_epoch k < c - (n - 1)) ks)) = hits (\<lambda>e. c - n < e) s ms h"
proof -
  let ?b = "\<lambda>j. (snd (h ! j) = Success) = s" and ?e = "\<lambda>j. fst (h ! j) div ms" and ?k = "\<lambda>i. bk_epoch (ks ! i)"
  have slot: "(\<Sum>i<length ks. if c - n < ?k i \<and> ?e j = ?k i \<and> ?b j then 1 else 0) = (if c - n < ?e j \<and> ?b j then 1 else (0::int))"
    if j: "j < length h" for j
  proof -
    let ?i = "nat (?e j mod n)"
    have mem: "(fst (h ! j), snd (h ! j)) \<in> set h"
      using j by simp
    have e: "0 \<le> ?e j" "?e j \<le> ?k ?i" "?e j \<le> c"
      using ringD(5) [OF ring mem] now(1) mem ms by (auto simp: pos_imp_zdiv_nonneg_iff)
    have i: "?i < length ks"
      using ringD(1) [OF ring] n by (simp add: nat_less_iff)
    have le: "?k ?i \<le> c"
      by (rule ringD(6) [OF ring i now])
    have eq: "?e j = ?k ?i" if "c - n < ?e j"
    proof (rule same_slot)
      show "?e j mod n = ?k ?i mod n"
        using ringD(2) [OF ring i] e n by (auto simp: nat_eq_iff)
    qed (use that e le in simp_all)
    have other: "?e j \<noteq> ?k i" if "i < length ks" "i \<noteq> ?i" for i
      using ringD(2) [OF ring that(1)] that(2) e(1) by auto
    have "(\<Sum>i<length ks. if c - n < ?k i \<and> ?e j = ?k i \<and> ?b j then 1 else 0)
        = (\<Sum>i<length ks. if i = ?i then (if c - n < ?e j \<and> ?b j then 1 else 0) else (0::int))"
      by (rule sum.cong) (use eq other in auto)
    also have "\<dots> = (if c - n < ?e j \<and> ?b j then 1 else 0)"
      using i by (simp add: sum.delta)
    finally show ?thesis .
  qed
  have "sum_list (map f (filter (\<lambda>k. \<not> bk_epoch k < c - (n - 1)) ks))
      = (\<Sum>i<length ks. if c - n < ?k i then f (ks ! i) else 0)"
    unfolding sum_list_filter_nth by (rule sum.cong) auto
  also have "\<dots> = (\<Sum>i<length ks. \<Sum>j<length h. if c - n < ?k i \<and> ?e j = ?k i \<and> ?b j then 1 else 0)"
    by (rule sum.cong) (simp_all add: f hits_sum)
  also have "\<dots> = (\<Sum>j<length h. \<Sum>i<length ks. if c - n < ?k i \<and> ?e j = ?k i \<and> ?b j then 1 else 0)"
    by (rule sum.swap)
  also have "\<dots> = (\<Sum>j<length h. if c - n < ?e j \<and> ?b j then 1 else 0)"
    by (rule sum.cong) (simp_all add: slot)
  finally show ?thesis
    by (simp add: hits_sum)
qed

section \<open>The open window\<close>

lemma trip_openUntil:
  assumes "0 \<le> x" "x < 1"
  shows "now + (co_openMs (cb_options b) - jitterWindow (cb_options b)) \<le> cb_openUntil (trip r now x b)"
  using assms jitter_bounds [of x "\<lparr>bo_baseMs = jitterWindow (cb_options b), bo_maxMs = jitterWindow (cb_options b)\<rparr>" 1]
  by (auto simp: trip_def Let_def)

lemma decide_trips:
  assumes "cb_state b \<noteq> Open" "cb_state (decide o' i g now x b) = Open" "0 \<le> x" "x < 1"
  shows "now + (co_openMs (cb_options b) - jitterWindow (cb_options b)) \<le> cb_openUntil (decide o' i g now x b)"
  using assms trip_openUntil [OF assms(3,4), of now b] trip_openUntil [OF assms(3,4), of now "b\<lparr>cb_consecutiveProbeSuccesses := 0\<rparr>"]
  by (auto simp: decide_def Let_def split: prod.splits if_splits)

datatype circuit_event = Acquire int | Settle circuit_outcome int rat permit | Stats int

primrec circuit_do :: "circuit_event \<Rightarrow> breaker \<Rightarrow> breaker" where
  "circuit_do (Acquire now) b = fst (acquire now b)"
| "circuit_do (Settle o' now x p) b = (case settle o' now x p b of None \<Rightarrow> b | Some (p1, b1) \<Rightarrow> b1)"
| "circuit_do (Stats now) b = fst (stats now b)"

primrec event_time :: "circuit_event \<Rightarrow> int" where
  "event_time (Acquire now) = now"
| "event_time (Settle o' now x p) = now"
| "event_time (Stats now) = now"

definition open_until :: "int \<Rightarrow> breaker \<Rightarrow> bool" where
  "open_until d b \<longleftrightarrow> cb_state b = Open \<and> d \<le> cb_openUntil b"

lemma open_acquire: "open_until d b \<Longrightarrow> t < d \<Longrightarrow> acquire t b = (b, Inl (cb_openUntil b - t))"
  by (auto simp: open_until_def acquire_def check_state_def)

lemma open_kept: "open_until d b \<Longrightarrow> event_time e < d \<Longrightarrow> open_until d (circuit_do e b)"
  using record_open
  by (cases e) (auto simp: open_until_def open_acquire settle_def stats_def check_state_def Let_def acquire_def
      split: prod.splits)

lemma open_run: "open_until d b \<Longrightarrow> list_all (\<lambda>e. event_time e < d) es \<Longrightarrow> open_until d (fold circuit_do es b)"
  by (induction es arbitrary: b) (simp_all add: open_kept)

section \<open>Properties\<close>

text \<open>
  In every state a breaker and its permits can reach, while the circuit is half-open no more
  than \<open>halfOpenProbes\<close> unsettled probes of the current episode exist, however stragglers of
  earlier episodes settle.
\<close>

lemma half_open_probes_bounded:
  assumes "createCircuitBreaker opt = Inr b0" "circuit_step\<^sup>*\<^sup>* (b0, []) (b, ps)" "cb_state b = HalfOpen"
  shows "int (length (filter (\<lambda>p. pm_issuedIn p = HalfOpen \<and> pm_generation p = cb_generation b \<and> \<not> pm_settled p) ps))
    \<le> co_halfOpenProbes opt"
  using probes.reach_keeps [OF assms(2)] create_probe_inv [OF assms(1)] reach_options [OF assms(2)] assms(3)
  by (auto simp: probe_inv_def outstanding_def)

definition demo_circuit_options :: breaker_options where
  "demo_circuit_options = \<lparr>co_windowMs = 1000, co_bucketCount = 10, co_failureRateThreshold = 1/2, co_minimumThroughput = 1,
     co_openMs = 500, co_openJitterRatio = 1/5, co_halfOpenProbes = 2, co_halfOpenSuccessThreshold = 1\<rparr>"

definition demo_breaker :: breaker where
  "demo_breaker = (case createCircuitBreaker demo_circuit_options of Inr b \<Rightarrow> b
     | Inl e \<Rightarrow> \<lparr>cb_options = demo_circuit_options, cb_bucketMs = 0, cb_buckets = [], cb_state = Closed, cb_openUntil = 0,
         cb_probesInFlight = 0, cb_consecutiveProbeSuccesses = 0, cb_generation = 0, cb_changes = []\<rparr>)"

lemma demo_breaker_created: "createCircuitBreaker demo_circuit_options = Inr demo_breaker"
  by (simp add: createCircuitBreaker_def demo_circuit_options_def demo_breaker_def)

definition demo_tripped :: breaker where
  "demo_tripped = record_outcome Failure Closed 0 100 0 demo_breaker"

definition demo_probing :: breaker where
  "demo_probing = fst (acquire 600 (fst (acquire 600 demo_tripped)))"

definition demo_probe :: permit where
  "demo_probe = createPermit HalfOpen 1"

lemma demo_reach: "circuit_step\<^sup>*\<^sup>* (demo_breaker, []) (demo_probing, [\<lparr>pm_issuedIn = Closed, pm_generation = 0, pm_settled = True\<rparr>, demo_probe, demo_probe])"
proof -
  have 1: "acquire 100 demo_breaker = (demo_breaker, Inr (createPermit Closed 0))"
    by code_simp
  have 2: "settle Failure 100 0 ([createPermit Closed 0] ! 0) demo_breaker
      = Some (\<lparr>pm_issuedIn = Closed, pm_generation = 0, pm_settled = True\<rparr>, demo_tripped)"
    by (simp add: settle_def createPermit_def demo_tripped_def)
  have 3: "acquire 600 demo_tripped = (fst (acquire 600 demo_tripped), Inr demo_probe)"
    "acquire 600 (fst (acquire 600 demo_tripped)) = (demo_probing, Inr demo_probe)"
    by code_simp+
  have "circuit_step\<^sup>*\<^sup>* (demo_breaker, []) (demo_breaker, [createPermit Closed 0])"
    using step_admit [OF 1, of "[]"] by auto
  moreover have "circuit_step (demo_breaker, [createPermit Closed 0])
      (demo_tripped, [\<lparr>pm_issuedIn = Closed, pm_generation = 0, pm_settled = True\<rparr>])"
    using step_settle [OF _ 2] by simp
  ultimately have "circuit_step\<^sup>*\<^sup>* (demo_breaker, []) (demo_tripped, [\<lparr>pm_issuedIn = Closed, pm_generation = 0, pm_settled = True\<rparr>])"
    by (rule rtranclp.rtrancl_into_rtrancl)
  from rtranclp.rtrancl_into_rtrancl [OF rtranclp.rtrancl_into_rtrancl [OF this step_admit [OF 3(1)]] step_admit [OF 3(2)]]
  show ?thesis
    by simp
qed

text \<open>
  Once a failure opens the circuit, every attempt is refused until \<open>openMs\<close> less its jitter
  window has passed, whatever else is attempted or settles meanwhile, and the caller is told to
  wait for the time that is left.
\<close>

lemma open_circuit_refuses:
  assumes "cb_state b \<noteq> Open" "cb_state b1 = Open" "b1 = record_outcome Failure issuedIn generation now random b"
    and "0 \<le> random" "random < 1"
    and d: "d = now + (co_openMs (cb_options b) - jitterWindow (cb_options b))"
    and es: "list_all (\<lambda>e. event_time e < d) es" and t: "t < d"
  shows "\<exists>ms > 0. acquire t (fold circuit_do es b1) = (fold circuit_do es b1, Inl ms)"
proof -
  have "open_until d b1"
    using decide_trips [of "note_outcome Failure issuedIn generation now b" Failure issuedIn generation now random] assms(1-5) d
    by (simp add: open_until_def record_outcome_def)
  then have "open_until d (fold circuit_do es b1)"
    using es by (rule open_run)
  from open_acquire [OF this t] this show ?thesis
    using t by (auto simp: open_until_def)
qed

text \<open>
  C14: with a clock that does not go back, the ring of buckets counts exactly the successes and
  the failures of the last \<open>bucketCount\<close> time slices, the current one included.
\<close>

theorem window_counts_recent_outcomes:
  assumes "createCircuitBreaker opt = Inr b"
    and h: "sorted (map fst h)" "\<forall>(t, o') \<in> set h. 0 \<le> t \<and> t \<le> now" "0 \<le> now"
  shows "totals now (count_all h b) =
    (hits (\<lambda>slice. now div cb_bucketMs b - co_bucketCount opt < slice) True (cb_bucketMs b) h,
     hits (\<lambda>slice. now div cb_bucketMs b - co_bucketCount opt < slice) False (cb_bucketMs b) h)"
proof -
  let ?n = "co_bucketCount opt" and ?ms = "cb_bucketMs b" and ?ks = "cb_buckets (count_all h b)"
  have b: "cb_options b = opt" "cb_buckets b = replicate (nat ?n) empty_bucket" "1 \<le> ?n" "?ms = co_windowMs opt div ?n"
    "?n \<le> co_windowMs opt"
    using assms(1) by (auto simp: createCircuitBreaker_def split: if_splits)
  then have ms: "1 \<le> ?ms"
    using zdiv_mono1 [OF b(5), of ?n] by simp
  have "ring_ok ?n ?ms [] (cb_buckets b)"
    using ring_ok_empty [of "nat ?n" ?n ?ms] b(2,3) by simp
  moreover have "\<forall>(t, o') \<in> set h. 0 \<le> t"
    using h(2) by auto
  ultimately have ring: "ring_ok ?n ?ms h ?ks"
    using b(1,3) ms h(1) by (intro ring_ok_run) simp_all
  have le: "\<forall>(t, o') \<in> set h. t div ?ms \<le> now div ?ms"
    using h(2) ms by (auto intro!: zdiv_mono1)
  have "0 \<le> now div ?ms"
    using h(3) ms by (simp add: pos_imp_zdiv_nonneg_iff)
  then have m1: "-1 \<le> now div ?ms"
    by simp
  show ?thesis
    using ring_totals [OF ring b(3) le m1 ms ringD(3) [OF ring]] ring_totals [OF ring b(3) le m1 ms ringD(4) [OF ring]]
    by (simp add: totals_def Let_def b(1))
qed

theorem window_counts_recent_outcomes_witness:
  "totals 1450 (count_all [(50, Failure), (460, Failure), (700, Success), (1420, Failure)] demo_breaker) = (1, 1)"
proof -
  have "cb_bucketMs demo_breaker = 100" "co_bucketCount demo_circuit_options = 10"
    by code_simp+
  then show ?thesis
    using window_counts_recent_outcomes [OF demo_breaker_created,
        of "[(50, Failure), (460, Failure), (700, Success), (1420, Failure)]" 1450]
    by (simp add: hits_def)
qed

text \<open>
  A probe that fails after a sibling probe has closed the circuit opens it again whenever the
  failure rate of the freshly cleared window reaches the threshold: the probe still carries the
  current generation, so it is not treated as one of an episode that has ended.
\<close>

lemma straggler_probe_reopens_circuit:
  assumes "cb_state b = Closed" "g = cb_generation b"
    and "totals now (note_outcome Failure HalfOpen g now b) = (s, f)"
    and "co_minimumThroughput (cb_options b) \<le> s + f"
    and "co_failureRateThreshold (cb_options b) \<le> of_int f / of_int (s + f)"
  shows "cb_state (record_outcome Failure HalfOpen g now random b) = Open"
  using assms by (simp add: record_outcome_def decide_def Let_def)

end
