(* ===== verification/Bulkhead.thy ===== *)
theory Bulkhead
  imports Prelude
begin

text \<open>
  The bulkhead (\<open>src/resilience/bulkhead.ts\<close>): a fair semaphore with a bounded queue. A call of
  \<open>acquire\<close> is named by a number, which stands for the promise it returns; the timer and the
  abort listener of a queued call are the operations \<open>queue_timeout\<close> and \<open>abort_waiter\<close>.
  Settling a waiter clears its timer and listener, so both do nothing for a call that has left
  the queue.
\<close>

section \<open>Operations\<close>

record bulkhead =
  bh_maxConcurrent :: int
  bh_maxQueue :: int
  bh_queueTimeoutMs :: int
  bh_waiters :: "(nat \<times> int) list"
  bh_inFlightCount :: int

datatype acquire_result = Admitted | AlreadyAborted | QueueFull | Queued

definition createBulkhead :: "int \<Rightarrow> int \<Rightarrow> int \<Rightarrow> string + bulkhead" where
  "createBulkhead maxConcurrent maxQueue queueTimeoutMs =
     (if maxConcurrent < 1 then Inl ''maxConcurrent''
      else if maxQueue < 0 then Inl ''maxQueue''
      else if queueTimeoutMs < 1 then Inl ''queueTimeoutMs''
      else Inr \<lparr>bh_maxConcurrent = maxConcurrent, bh_maxQueue = maxQueue, bh_queueTimeoutMs = queueTimeoutMs,
                bh_waiters = [], bh_inFlightCount = 0\<rparr>)"

definition bulkhead_stats :: "bulkhead \<Rightarrow> int \<times> int \<times> int \<times> int" where
  "bulkhead_stats b = (bh_inFlightCount b, int (length (bh_waiters b)), bh_maxConcurrent b, bh_maxQueue b)"

definition enqueue :: "nat \<Rightarrow> int \<Rightarrow> bulkhead \<Rightarrow> bulkhead" where
  "enqueue caller now b = b\<lparr>bh_waiters := bh_waiters b @ [(caller, now)]\<rparr>"

definition acquire :: "nat \<Rightarrow> bool \<Rightarrow> int \<Rightarrow> bulkhead \<Rightarrow> bulkhead \<times> acquire_result" where
  "acquire caller aborted now b =
     (if aborted then (b, AlreadyAborted)
      else if bh_inFlightCount b < bh_maxConcurrent b
      then (b\<lparr>bh_inFlightCount := bh_inFlightCount b + 1\<rparr>, Admitted)
      else if bh_maxQueue b \<le> int (length (bh_waiters b)) then (b, QueueFull)
      else (enqueue caller now b, Queued))"

definition leave :: "nat \<Rightarrow> bulkhead \<Rightarrow> bulkhead" where
  "leave caller b = b\<lparr>bh_waiters := filter (\<lambda>waiter. fst waiter \<noteq> caller) (bh_waiters b)\<rparr>"

text \<open>The timer of a queued call: it leaves and is rejected with the time it waited.\<close>

definition queue_timeout :: "nat \<Rightarrow> int \<Rightarrow> bulkhead \<Rightarrow> bulkhead \<times> int option" where
  "queue_timeout caller now b =
     (case map_of (bh_waiters b) caller of
        None \<Rightarrow> (b, None)
      | Some queuedAt \<Rightarrow> (leave caller b, Some (now - queuedAt)))"

definition abort_waiter :: "nat \<Rightarrow> bulkhead \<Rightarrow> bulkhead" where
  "abort_waiter caller b = (if caller \<in> fst ` set (bh_waiters b) then leave caller b else b)"

text \<open>The freed slot goes to the call at the head of the queue, or back.\<close>

definition handOff :: "bulkhead \<Rightarrow> bulkhead \<times> nat option" where
  "handOff b =
     (case bh_waiters b of
        [] \<Rightarrow> (b\<lparr>bh_inFlightCount := bh_inFlightCount b - 1\<rparr>, None)
      | (next_caller, queuedAt) # rest \<Rightarrow> (b\<lparr>bh_waiters := rest\<rparr>, Some next_caller))"

text \<open>\<open>release\<close> of a permit: throws, \<open>None\<close>, when the permit was released before.\<close>

definition release_permit :: "bool \<Rightarrow> bulkhead \<Rightarrow> (bulkhead \<times> nat option) option" where
  "release_permit released b = (if released then None else Some (handOff b))"

section \<open>The bulkhead and the calls it has admitted\<close>

text \<open>The second component lists the calls that hold a permit they have not released.\<close>

type_synonym bulkhead_system = "bulkhead \<times> nat list"

datatype bulkhead_event =
    Call nat bool int
  | Timeout nat int
  | Abort nat
  | Release nat

primrec bulkhead_do :: "bulkhead_event \<Rightarrow> bulkhead_system \<Rightarrow> bulkhead_system" where
  "bulkhead_do (Call caller aborted now) s =
     (case acquire caller aborted now (fst s) of (b, r) \<Rightarrow> (b, if r = Admitted then caller # snd s else snd s))"
| "bulkhead_do (Timeout caller now) s = (fst (queue_timeout caller now (fst s)), snd s)"
| "bulkhead_do (Abort caller) s = (abort_waiter caller (fst s), snd s)"
| "bulkhead_do (Release caller) s =
     (case release_permit (caller \<notin> set (snd s)) (fst s) of
        None \<Rightarrow> s
      | Some (b, None) \<Rightarrow> (b, remove1 caller (snd s))
      | Some (b, Some next_caller) \<Rightarrow> (b, next_caller # remove1 caller (snd s)))"

definition waiting :: "bulkhead_system \<Rightarrow> nat list" where
  "waiting s = map fst (bh_waiters (fst s))"

section \<open>Invariant\<close>

definition slots_ok :: "bulkhead_system \<Rightarrow> bool" where
  "slots_ok s \<longleftrightarrow> 1 \<le> bh_maxConcurrent (fst s) \<and> 0 \<le> bh_maxQueue (fst s)
     \<and> bh_inFlightCount (fst s) = int (length (snd s))
     \<and> bh_inFlightCount (fst s) \<le> bh_maxConcurrent (fst s)
     \<and> int (length (waiting s)) \<le> bh_maxQueue (fst s)
     \<and> (waiting s = [] \<or> bh_inFlightCount (fst s) = bh_maxConcurrent (fst s))"

lemma leave_fields [simp]:
  "bh_maxConcurrent (leave c b) = bh_maxConcurrent b" "bh_maxQueue (leave c b) = bh_maxQueue b"
  "bh_inFlightCount (leave c b) = bh_inFlightCount b"
  "map fst (bh_waiters (leave c b)) = filter (\<lambda>c'. c' \<noteq> c) (map fst (bh_waiters b))"
  by (simp_all add: leave_def filter_map comp_def)

lemma queue_timeout_cases: "fst (queue_timeout c now b) = b \<or> fst (queue_timeout c now b) = leave c b"
  by (simp add: queue_timeout_def split: option.splits)

lemma abort_waiter_cases: "abort_waiter c b = b \<or> abort_waiter c b = leave c b"
  by (simp add: abort_waiter_def)

lemma slots_ok_leave: "slots_ok (b, hs) \<Longrightarrow> slots_ok (leave c b, hs)"
  by (auto simp: slots_ok_def waiting_def intro: order_trans [OF of_nat_mono [OF length_filter_le]])

lemma release_some:
  "h \<in> set hs \<Longrightarrow> release_permit (h \<notin> set hs) b = Some (handOff b)"
  by (simp add: release_permit_def)

lemma int_length_remove1: "h \<in> set hs \<Longrightarrow> int (length (remove1 h hs)) = int (length hs) - 1"
  using length_pos_if_in_set [of h hs] by (simp add: length_remove1 of_nat_diff Suc_le_eq)

lemma slots_ok_release: "slots_ok s \<Longrightarrow> slots_ok (bulkhead_do (Release h) s)"
  by (cases s)
    (auto simp: slots_ok_def waiting_def release_permit_def handOff_def int_length_remove1 split: list.splits)

lemma slots_ok_call: "slots_ok s \<Longrightarrow> slots_ok (bulkhead_do (Call c aborted now) s)"
  by (cases s) (auto simp: slots_ok_def waiting_def acquire_def enqueue_def)

lemma slots_ok_do: "slots_ok s \<Longrightarrow> slots_ok (bulkhead_do e s)"
  using slots_ok_call [of s] slots_ok_release [of s] slots_ok_leave [of "fst s" "snd s"]
    queue_timeout_cases [of _ _ "fst s"] abort_waiter_cases [of _ "fst s"]
  by (cases e) (auto simp del: bulkhead_do.simps(1,4), (metis prod.collapse)+)

interpretation slots: step_invariant bulkhead_do slots_ok
  by unfold_locales (rule slots_ok_do)

lemma create_slots_ok: "createBulkhead n q t = Inr b \<Longrightarrow> slots_ok (b, []) \<and> bh_maxConcurrent b = n \<and> bh_maxQueue b = q"
  by (auto simp: createBulkhead_def slots_ok_def waiting_def split: if_splits)

section \<open>Order of admission\<close>

definition ahead :: "nat \<Rightarrow> nat \<Rightarrow> nat list \<Rightarrow> bool" where
  "ahead a b q \<longleftrightarrow> (\<exists>p m r. q = p @ a # m @ b # r)"

text \<open>\<open>b\<close> came after \<open>a\<close>: behind it in the queue, gone, or free to go because \<open>a\<close> is not waiting.\<close>

definition behind :: "nat \<Rightarrow> nat \<Rightarrow> bulkhead_system \<Rightarrow> bool" where
  "behind a b s \<longleftrightarrow> count_list (waiting s) a \<le> 1 \<and> count_list (waiting s) b \<le> 1 \<and> (a \<in> set (waiting s) \<longrightarrow>
     b \<notin> set (snd s) \<and> (ahead a b (waiting s) \<or> b \<notin> set (waiting s)))"

lemma ahead_mem: "ahead a b q \<Longrightarrow> a \<in> set q \<and> b \<in> set q"
  by (auto simp: ahead_def)

lemma ahead_filter: "ahead a b q \<Longrightarrow> P a \<Longrightarrow> P b \<Longrightarrow> ahead a b (filter P q)"
  by (fastforce simp: ahead_def)

lemma ahead_append: "ahead a b q \<Longrightarrow> ahead a b (q @ r)"
  unfolding ahead_def by (metis append.assoc append_Cons)

lemma ahead_tl: "ahead a b (x # q) \<Longrightarrow> a \<noteq> x \<Longrightarrow> ahead a b q"
  unfolding ahead_def by (metis append_eq_Cons_conv list.inject)

primrec fresh_call :: "nat \<Rightarrow> nat \<Rightarrow> bulkhead_event \<Rightarrow> bool" where
  "fresh_call a b (Call caller aborted now) = (caller \<noteq> a \<and> caller \<noteq> b)"
| "fresh_call a b (Timeout caller now) = True"
| "fresh_call a b (Abort caller) = True"
| "fresh_call a b (Release caller) = True"

lemma behind_leave:
  assumes "behind a b (k, hs)"
  shows "behind a b (leave c k, hs)"
proof -
  have "count_list (filter (\<lambda>c'. c' \<noteq> c) q) x \<le> count_list q x" for q and x :: nat
    by (induction q) auto
  then show ?thesis
    using assms ahead_filter [of a b "map fst (bh_waiters k)" "\<lambda>c'. c' \<noteq> c"]
    by (auto simp: behind_def waiting_def intro: order_trans)
qed

lemma behind_call:
  assumes "behind a b s" "slots_ok s" "c \<noteq> a" "c \<noteq> b"
  shows "behind a b (bulkhead_do (Call c aborted now) s)"
  using assms by (cases s) (auto simp: behind_def waiting_def acquire_def enqueue_def ahead_append)

lemma count_list_le_1: "count_list (x # q) y \<le> 1 \<Longrightarrow> y \<in> set q \<Longrightarrow> y \<noteq> x"
  by (auto simp: count_list_0_iff split: if_splits)

lemma distinct_count: "distinct q \<Longrightarrow> count_list q x \<le> 1"
  by (induction q) (auto simp: count_list_0_iff)

lemma behind_release:
  assumes "behind a b s" "a \<noteq> b"
  shows "behind a b (bulkhead_do (Release h) s)"
proof (cases "h \<in> set (snd s)")
  case True
  show ?thesis
  proof (cases "bh_waiters (fst s)")
    case Nil
    then show ?thesis
      using assms True by (cases s) (auto simp: behind_def waiting_def release_permit_def handOff_def)
  next
    case (Cons w ws)
    have w: "waiting s = fst w # map fst ws"
      by (simp add: waiting_def Cons)
    have new: "b \<noteq> fst w \<and> b \<notin> set (snd s) \<and> (ahead a b (map fst ws) \<or> b \<notin> set (map fst ws))"
      if a: "a \<in> set (map fst ws)"
    proof -
      have aw: "a \<noteq> fst w"
        using assms(1) w a count_list_le_1 by (metis behind_def)
      have "ahead a b (map fst ws) \<or> b \<notin> set (waiting s)" "b \<notin> set (snd s)"
        using assms(1) a w ahead_tl [OF _ aw] by (auto simp: behind_def)
      moreover have "b \<noteq> fst w" if "ahead a b (map fst ws)"
        using ahead_mem [OF that] assms(1) w count_list_le_1 by (metis behind_def)
      ultimately show ?thesis
        using w by auto
    qed
    have "bulkhead_do (Release h) s = ((fst s)\<lparr>bh_waiters := ws\<rparr>, fst w # remove1 h (snd s))"
      using True Cons by (cases w) (simp add: release_permit_def handOff_def)
    then show ?thesis
      using assms(1) w new by (auto simp: behind_def waiting_def split: if_splits dest: notin_set_remove1)
  qed
next
  case False
  then show ?thesis
    using assms by (simp add: release_permit_def)
qed

lemma behind_do:
  assumes "behind a b s" "slots_ok s" "a \<noteq> b" "fresh_call a b e"
  shows "behind a b (bulkhead_do e s)"
proof (cases e)
  case (Timeout c now)
  then show ?thesis
    using assms(1) behind_leave [of a b "fst s" "snd s" c] queue_timeout_cases [of c now "fst s"] by auto
next
  case (Abort c)
  then show ?thesis
    using assms(1) behind_leave [of a b "fst s" "snd s" c] abort_waiter_cases [of c "fst s"] by auto
qed (use assms behind_call behind_release in \<open>simp_all del: bulkhead_do.simps\<close>)

lemma behind_run:
  "behind a b s \<Longrightarrow> slots_ok s \<Longrightarrow> a \<noteq> b \<Longrightarrow> list_all (fresh_call a b) es \<Longrightarrow> behind a b (fold bulkhead_do es s)"
  by (induction es arbitrary: s) (simp_all add: behind_do slots_ok_do)

section \<open>Properties\<close>

text \<open>
  After any sequence of calls, timeouts, aborts and releases the calls that hold a permit are
  as many as \<open>inFlight\<close> says and at most \<open>maxConcurrent\<close>, at most \<open>maxQueue\<close> calls wait, and no
  call waits while a slot is free.
\<close>

lemma bulkhead_bounds:
  assumes "createBulkhead maxConcurrent maxQueue queueTimeoutMs = Inr b0" and "s = fold bulkhead_do es (b0, [])"
  shows "bh_inFlightCount (fst s) = int (length (snd s)) \<and> int (length (snd s)) \<le> maxConcurrent
    \<and> int (length (waiting s)) \<le> maxQueue \<and> (waiting s \<noteq> [] \<longrightarrow> int (length (snd s)) = maxConcurrent)"
proof -
  have opts: "bh_maxConcurrent (fst (fold bulkhead_do es t)) = bh_maxConcurrent (fst t)
      \<and> bh_maxQueue (fst (fold bulkhead_do es t)) = bh_maxQueue (fst t)" for t
  proof (induction es arbitrary: t)
    case (Cons e es)
    have "bh_maxConcurrent (fst (bulkhead_do e t)) = bh_maxConcurrent (fst t) \<and> bh_maxQueue (fst (bulkhead_do e t)) = bh_maxQueue (fst t)"
      by (cases e) (auto simp: acquire_def enqueue_def queue_timeout_def abort_waiter_def release_permit_def handOff_def
          split: option.splits list.splits prod.splits)
    then show ?case
      using Cons by simp
  qed simp
  show ?thesis
    using slots.run_keeps [of "(b0, [])" es] create_slots_ok [OF assms(1)] opts [of "(b0, [])"] assms(2)
    by (auto simp: slots_ok_def)
qed

definition demo_bulkhead :: bulkhead where
  "demo_bulkhead = \<lparr>bh_maxConcurrent = 1, bh_maxQueue = 2, bh_queueTimeoutMs = 50, bh_waiters = [], bh_inFlightCount = 0\<rparr>"

text \<open>
  C34: admission is first in, first out: when a call \<open>a\<close> is ahead of a call \<open>b\<close> in the queue, \<open>b\<close>
  holds no permit for as long as \<open>a\<close> waits, whatever calls, timeouts, aborts and releases come.
\<close>

theorem bulkhead_is_fair:
  assumes "createBulkhead maxConcurrent maxQueue queueTimeoutMs = Inr b0" "s = fold bulkhead_do hist (b0, [])"
    and "ahead a b (waiting s)" "distinct (waiting s)" "b \<notin> set (snd s)"
    and "list_all (fresh_call a b) es" "a \<in> set (waiting (fold bulkhead_do es s))"
  shows "b \<notin> set (snd (fold bulkhead_do es s))"
proof -
  have ab: "a \<noteq> b"
    using assms(3,4) by (auto simp: ahead_def)
  have ok: "slots_ok s"
    using slots.run_keeps create_slots_ok [OF assms(1)] assms(2) by blast
  have "behind a b s"
    using assms(3-5) distinct_count [OF assms(4)] by (simp add: behind_def)
  from behind_run [OF this ok ab assms(6)] assms(7) show ?thesis
    by (simp add: behind_def)
qed

theorem bulkhead_is_fair_witness:
  "3 \<notin> set (snd (fold bulkhead_do [Call 9 False 5, Timeout 2 6] (fold bulkhead_do
      [Call 1 False 0, Call 7 False 1, Call 3 False 2] (demo_bulkhead, []))))"
proof -
  have c: "createBulkhead 1 2 50 = Inr demo_bulkhead"
    by (simp add: createBulkhead_def demo_bulkhead_def)
  have e: "waiting (fold bulkhead_do [Call 1 False 0, Call 7 False 1, Call 3 False 2] (demo_bulkhead, [])) = [7, 3]"
    "snd (fold bulkhead_do [Call 1 False 0, Call 7 False 1, Call 3 False 2] (demo_bulkhead, [])) = [1]"
    "waiting (fold bulkhead_do [Call 9 False 5, Timeout 2 6] (fold bulkhead_do
      [Call 1 False 0, Call 7 False 1, Call 3 False 2] (demo_bulkhead, []))) = [7, 3]"
    by code_simp+
  have "ahead 7 3 [7, 3]"
    unfolding ahead_def by (rule exI [of _ "[]"], rule exI [of _ "[]"]) simp
  then show ?thesis
    using bulkhead_is_fair [OF c refl, of 7 3 "[Call 1 False 0, Call 7 False 1, Call 3 False 2]" "[Call 9 False 5, Timeout 2 6]"] e
    by simp
qed

end
