(* ===== verification/Csv_Parser.thy ===== *)
theory Csv_Parser
  imports Prelude
begin

text \<open>
  The streaming CSV parser (\<open>src/streams/csv-parser.ts\<close>). Text is a list of UTF-16 code units;
  a chunk is the text \<open>StringDecoder\<close> yields for a buffer. Positions \<open>i\<close> into the input are
  the rest of the input from there. \<open>cp_records\<close> lists the records pushed so far. A thrown
  \<open>CsvParseError\<close> is the left of a sum, which ends the parse; \<open>ce_pushed\<close> lists what had been pushed before it,
  which a reader downstream has been given.
\<close>

section \<open>The parser\<close>

type_synonym unit_text = "nat list"

abbreviation LF :: nat where "LF \<equiv> 10"

abbreviation CR :: nat where "CR \<equiv> 13"

abbreviation BOM :: nat where "BOM \<equiv> 65279"

datatype csv_error_code = CSV_UNTERMINATED_QUOTE | CSV_INVALID_QUOTE | CSV_RECORD_TOO_LARGE

datatype csv_position = FieldStart | Unquoted | Quoted | AfterQuote

record csv_record =
  cr_line :: nat
  cr_fields :: "unit_text list"

record csv_error =
  ce_code :: csv_error_code
  ce_line :: nat
  ce_pushed :: "csv_record list"

record csv_options =
  cv_delimiter :: nat
  cv_quote :: nat
  cv_maxRecordChars :: nat

record csv_state =
  cp_state :: csv_position
  cp_field :: unit_text
  cp_fields :: "unit_text list"
  cp_line :: nat
  cp_recordLine :: nat
  cp_recordTouched :: bool
  cp_recordChars :: nat
  cp_pendingCr :: bool
  cp_atStart :: bool
  cp_records :: "csv_record list"

text \<open>The constructor's checks: a single code unit each, and different ones.\<close>

definition createCsvParser :: "unit_text \<Rightarrow> unit_text \<Rightarrow> nat \<Rightarrow> string + csv_options \<times> csv_state" where
  "createCsvParser delimiter quote maxRecordChars =
     (if length delimiter \<noteq> 1 \<or> length quote \<noteq> 1 then Inl ''single character''
      else if delimiter = quote then Inl ''must differ''
      else Inr (\<lparr>cv_delimiter = hd delimiter, cv_quote = hd quote, cv_maxRecordChars = maxRecordChars\<rparr>,
        \<lparr>cp_state = FieldStart, cp_field = [], cp_fields = [], cp_line = 1, cp_recordLine = 1,
         cp_recordTouched = False, cp_recordChars = 0, cp_pendingCr = False, cp_atStart = True, cp_records = []\<rparr>))"

definition append_text :: "csv_options \<Rightarrow> unit_text \<Rightarrow> csv_state \<Rightarrow> csv_error + csv_state" where
  "append_text opt text s =
     (let chars = cp_recordChars s + length text in
      if cv_maxRecordChars opt < chars then Inl \<lparr>ce_code = CSV_RECORD_TOO_LARGE, ce_line = cp_recordLine s, ce_pushed = cp_records s\<rparr>
      else Inr (s\<lparr>cp_recordChars := chars, cp_field := cp_field s @ text\<rparr>))"

definition closeField :: "csv_state \<Rightarrow> csv_state" where
  "closeField s = s\<lparr>cp_fields := cp_fields s @ [cp_field s], cp_field := [], cp_state := FieldStart\<rparr>"

definition resetRecord :: "csv_state \<Rightarrow> csv_state" where
  "resetRecord s = s\<lparr>cp_field := [], cp_fields := [], cp_state := FieldStart, cp_recordTouched := False,
     cp_recordChars := 0, cp_recordLine := cp_line s\<rparr>"

definition closeRecord :: "csv_state \<Rightarrow> csv_state" where
  "closeRecord s0 =
     (let s = s0\<lparr>cp_line := cp_line s0 + 1\<rparr> in
      if \<not> cp_recordTouched s then resetRecord s
      else let fields = cp_fields s @ [cp_field s] in
        (resetRecord s)\<lparr>cp_records := cp_records s @ [\<lparr>cr_line = cp_recordLine s, cr_fields = fields\<rparr>]\<rparr>)"

text \<open>The terminator at the head of the input, which is \<open>LF\<close> or \<open>CR\<close>.\<close>

definition terminate :: "unit_text \<Rightarrow> csv_state \<Rightarrow> csv_state \<times> unit_text" where
  "terminate input s =
     (if hd input = LF then (closeRecord s, tl input)
      else if tl input \<noteq> [] then (closeRecord s, if hd (tl input) = LF then tl (tl input) else tl input)
      else (s\<lparr>cp_pendingCr := True\<rparr>, tl input))"

definition readFieldStart :: "csv_options \<Rightarrow> unit_text \<Rightarrow> csv_state \<Rightarrow> csv_state \<times> unit_text" where
  "readFieldStart opt input s =
     (if hd input = cv_quote opt then (s\<lparr>cp_recordTouched := True, cp_state := Quoted\<rparr>, tl input)
      else (s\<lparr>cp_state := Unquoted\<rparr>, input))"

definition ordinary :: "csv_options \<Rightarrow> nat \<Rightarrow> bool" where
  "ordinary opt c \<longleftrightarrow> \<not> (c = cv_delimiter opt \<or> c = LF \<or> c = CR)"

definition readUnquoted :: "csv_options \<Rightarrow> unit_text \<Rightarrow> csv_state \<Rightarrow> csv_error + csv_state \<times> unit_text" where
  "readUnquoted opt input s =
     (let run = takeWhile (ordinary opt) input; rest = dropWhile (ordinary opt) input in
      case (if run \<noteq> [] then append_text opt run (s\<lparr>cp_recordTouched := True\<rparr>) else Inr s) of
        Inl e \<Rightarrow> Inl e
      | Inr s1 \<Rightarrow>
          if rest = [] then Inr (s1, [])
          else if hd rest = cv_delimiter opt then Inr (closeField (s1\<lparr>cp_recordTouched := True\<rparr>), tl rest)
          else Inr (terminate rest s1))"

definition readQuoted :: "csv_options \<Rightarrow> unit_text \<Rightarrow> csv_state \<Rightarrow> csv_error + csv_state \<times> unit_text" where
  "readQuoted opt input s =
     (let run = takeWhile (\<lambda>c. c \<noteq> cv_quote opt) input; rest = dropWhile (\<lambda>c. c \<noteq> cv_quote opt) input;
          s0 = s\<lparr>cp_line := cp_line s + length (filter (\<lambda>c. c = LF) run)\<rparr> in
      case (if run \<noteq> [] then append_text opt run s0 else Inr s0) of
        Inl e \<Rightarrow> Inl e
      | Inr s1 \<Rightarrow> if rest = [] then Inr (s1, []) else Inr (s1\<lparr>cp_state := AfterQuote\<rparr>, tl rest))"

definition readAfterQuote :: "csv_options \<Rightarrow> unit_text \<Rightarrow> csv_state \<Rightarrow> csv_error + csv_state \<times> unit_text" where
  "readAfterQuote opt input s =
     (let char = hd input in
      if char = cv_quote opt
      then (case append_text opt [cv_quote opt] s of
              Inl e \<Rightarrow> Inl e
            | Inr s1 \<Rightarrow> Inr (s1\<lparr>cp_state := Quoted\<rparr>, tl input))
      else if char = cv_delimiter opt then Inr ((closeField s)\<lparr>cp_state := FieldStart\<rparr>, tl input)
      else if char = LF \<or> char = CR then Inr (terminate input (s\<lparr>cp_state := FieldStart\<rparr>))
      else Inl \<lparr>ce_code = CSV_INVALID_QUOTE, ce_line = cp_line s, ce_pushed = cp_records s\<rparr>)"

definition read_state :: "csv_options \<Rightarrow> unit_text \<Rightarrow> csv_state \<Rightarrow> csv_error + csv_state \<times> unit_text" where
  "read_state opt input s =
     (case cp_state s of
        FieldStart \<Rightarrow> Inr (readFieldStart opt input s)
      | Unquoted \<Rightarrow> readUnquoted opt input s
      | Quoted \<Rightarrow> readQuoted opt input s
      | AfterQuote \<Rightarrow> readAfterQuote opt input s)"

text \<open>One iteration of the loop of \<open>consume\<close>, on input that is not empty.\<close>

definition csv_iteration :: "csv_options \<Rightarrow> unit_text \<Rightarrow> csv_state \<Rightarrow> csv_error + csv_state \<times> unit_text" where
  "csv_iteration opt input s =
     (if cp_pendingCr s
      then let s1 = closeRecord (s\<lparr>cp_pendingCr := False\<rparr>) in
           if hd input = LF then Inr (s1, tl input) else read_state opt input s1
      else read_state opt input s)"

definition csv_measure :: "csv_state \<Rightarrow> unit_text \<Rightarrow> nat" where
  "csv_measure s input = 4 * length input + (if cp_pendingCr s then 2 else 0) + (if cp_state s = FieldStart then 1 else 0)"

lemma terminate_shorter: "input \<noteq> [] \<Longrightarrow> length (snd (terminate input s)) < length input"
  by (cases input; cases "tl input") (auto simp: terminate_def)

lemma dropWhile_shorter: "input \<noteq> [] \<Longrightarrow> dropWhile P input \<noteq> [] \<Longrightarrow> length (tl (dropWhile P input)) < length input"
  using length_dropWhile_le [of P input] by (cases "dropWhile P input") auto

lemma readUnquoted_shorter:
  assumes "input \<noteq> []" "readUnquoted opt input s = Inr (s1, rest)"
  shows "length rest < length input"
proof -
  have "length (snd (terminate (dropWhile (ordinary opt) input) x)) < length input"
    if "dropWhile (ordinary opt) input \<noteq> []" for x
    using terminate_shorter [OF that] length_dropWhile_le [of "ordinary opt" input] by (rule less_le_trans)
  then show ?thesis
    using assms dropWhile_shorter [OF assms(1), of "ordinary opt"]
    by (auto simp: readUnquoted_def Let_def split: sum.splits if_splits) (metis snd_conv)+
qed

lemma readQuoted_shorter:
  "input \<noteq> [] \<Longrightarrow> readQuoted opt input s = Inr (s1, rest) \<Longrightarrow> length rest < length input"
  using dropWhile_shorter [of input "\<lambda>c. c \<noteq> cv_quote opt"]
  by (auto simp: readQuoted_def Let_def split: sum.splits if_splits)

lemma readAfterQuote_shorter:
  "input \<noteq> [] \<Longrightarrow> readAfterQuote opt input s = Inr (s1, rest) \<Longrightarrow> length rest < length input"
  using terminate_shorter [of input "s\<lparr>cp_state := FieldStart\<rparr>"]
  by (auto simp: readAfterQuote_def Let_def split: sum.splits if_splits)

lemma read_state_progress:
  assumes "input \<noteq> []" "read_state opt input s = Inr (s1, rest)"
  shows "length rest < length input \<or> (cp_state s = FieldStart \<and> rest = input \<and> s1 = s\<lparr>cp_state := Unquoted\<rparr>)"
  using assms readUnquoted_shorter readQuoted_shorter readAfterQuote_shorter
  by (auto simp: read_state_def readFieldStart_def split: csv_position.splits if_splits)

lemma closeRecord_fields [simp]:
  "cp_state (closeRecord s) = FieldStart" "cp_pendingCr (closeRecord s) = cp_pendingCr s"
  "cp_atStart (closeRecord s) = cp_atStart s"
  by (simp_all add: closeRecord_def resetRecord_def Let_def)

lemma csv_measure_shorter: "length rest < length input \<Longrightarrow> csv_measure s1 rest < csv_measure s input"
  by (simp add: csv_measure_def)

lemma csv_iteration_decreases:
  assumes "input \<noteq> []" "csv_iteration opt input s = Inr (s1, rest)"
  shows "csv_measure s1 rest < csv_measure s input"
proof (cases "cp_pendingCr s")
  case True
  let ?s = "closeRecord (s\<lparr>cp_pendingCr := False\<rparr>)"
  show ?thesis
    using assms True read_state_progress [OF assms(1), of opt ?s s1 rest]
    by (auto simp: csv_iteration_def Let_def csv_measure_def split: if_splits)
next
  case False
  then show ?thesis
    using assms read_state_progress [OF assms(1), of opt s s1 rest] csv_measure_shorter [of rest input s1 s]
    by (auto simp: csv_iteration_def csv_measure_def)
qed

function csv_loop :: "csv_options \<Rightarrow> unit_text \<Rightarrow> csv_state \<Rightarrow> csv_error + csv_state" where
  "csv_loop opt input s =
     (if input = [] then Inr s
      else case csv_iteration opt input s of
          Inl e \<Rightarrow> Inl e
        | Inr (s1, rest) \<Rightarrow> csv_loop opt rest s1)"
  by pat_completeness auto
termination
  by (relation "measure (\<lambda>(opt, input, s). csv_measure s input)") (auto simp: csv_iteration_decreases)

declare csv_loop.simps [simp del]

definition consume :: "csv_options \<Rightarrow> unit_text \<Rightarrow> csv_state \<Rightarrow> csv_error + csv_state" where
  "consume opt text s =
     (if text = [] then Inr s
      else if cp_atStart s
      then csv_loop opt (if hd text = BOM then tl text else text) (s\<lparr>cp_atStart := False\<rparr>)
      else csv_loop opt text s)"

text \<open>\<open>_flush\<close>; \<open>tail\<close> is what the decoder still holds.\<close>

definition flush :: "csv_options \<Rightarrow> unit_text \<Rightarrow> csv_state \<Rightarrow> csv_error + csv_state" where
  "flush opt tail s0 =
     (case consume opt tail s0 of
        Inl e \<Rightarrow> Inl e
      | Inr s \<Rightarrow>
          (let s1 = (if cp_pendingCr s then closeRecord (s\<lparr>cp_pendingCr := False\<rparr>) else s) in
           if cp_state s1 = Quoted then Inl \<lparr>ce_code = CSV_UNTERMINATED_QUOTE, ce_line = cp_recordLine s1, ce_pushed = cp_records s1\<rparr>
           else Inr (if cp_recordTouched s1 then closeRecord s1 else s1)))"

text \<open>A whole stream: \<open>_transform\<close> on each chunk until one fails, then \<open>_flush\<close>.\<close>

primrec transform_all :: "csv_options \<Rightarrow> unit_text list \<Rightarrow> csv_state \<Rightarrow> csv_error + csv_state" where
  "transform_all opt [] s = Inr s"
| "transform_all opt (chunk # chunks) s =
     (case consume opt chunk s of Inl e \<Rightarrow> Inl e | Inr s1 \<Rightarrow> transform_all opt chunks s1)"

definition parse_stream :: "csv_options \<Rightarrow> unit_text list \<Rightarrow> csv_state \<Rightarrow> csv_error + csv_record list" where
  "parse_stream opt chunks s =
     (case transform_all opt chunks s of
        Inl e \<Rightarrow> Inl e
      | Inr s1 \<Rightarrow> (case flush opt [] s1 of Inl e \<Rightarrow> Inl e | Inr s2 \<Rightarrow> Inr (cp_records s2)))"

section \<open>A reference that reads one code unit at a time\<close>

definition unquoted_unit :: "csv_options \<Rightarrow> nat \<Rightarrow> csv_state \<Rightarrow> csv_error + csv_state" where
  "unquoted_unit opt c s =
     (if c = cv_delimiter opt then Inr (closeField (s\<lparr>cp_recordTouched := True\<rparr>))
      else if c = LF then Inr (closeRecord s)
      else if c = CR then Inr (s\<lparr>cp_pendingCr := True\<rparr>)
      else append_text opt [c] (s\<lparr>cp_recordTouched := True\<rparr>))"

definition plain_unit :: "csv_options \<Rightarrow> nat \<Rightarrow> csv_state \<Rightarrow> csv_error + csv_state" where
  "plain_unit opt c s =
     (case cp_state s of
        FieldStart \<Rightarrow>
          if c = cv_quote opt then Inr (s\<lparr>cp_recordTouched := True, cp_state := Quoted\<rparr>)
          else unquoted_unit opt c (s\<lparr>cp_state := Unquoted\<rparr>)
      | Unquoted \<Rightarrow> unquoted_unit opt c s
      | Quoted \<Rightarrow>
          if c = cv_quote opt then Inr (s\<lparr>cp_state := AfterQuote\<rparr>)
          else append_text opt [c] (s\<lparr>cp_line := cp_line s + (if c = LF then 1 else 0)\<rparr>)
      | AfterQuote \<Rightarrow>
          if c = cv_quote opt
          then (case append_text opt [c] s of Inl e \<Rightarrow> Inl e | Inr s1 \<Rightarrow> Inr (s1\<lparr>cp_state := Quoted\<rparr>))
          else if c = cv_delimiter opt then Inr (closeField s)
          else if c = LF then Inr (closeRecord (s\<lparr>cp_state := FieldStart\<rparr>))
          else if c = CR then Inr (s\<lparr>cp_state := FieldStart, cp_pendingCr := True\<rparr>)
          else Inl \<lparr>ce_code = CSV_INVALID_QUOTE, ce_line = cp_line s, ce_pushed = cp_records s\<rparr>)"

definition csv_unit :: "csv_options \<Rightarrow> nat \<Rightarrow> csv_state \<Rightarrow> csv_error + csv_state" where
  "csv_unit opt c s =
     (if cp_pendingCr s
      then let s1 = closeRecord (s\<lparr>cp_pendingCr := False\<rparr>) in
           if c = LF then Inr s1 else plain_unit opt c s1
      else plain_unit opt c s)"

primrec csv_units :: "csv_options \<Rightarrow> unit_text \<Rightarrow> csv_state \<Rightarrow> csv_error + csv_state" where
  "csv_units opt [] s = Inr s"
| "csv_units opt (c # cs) s = (case csv_unit opt c s of Inl e \<Rightarrow> Inl e | Inr s1 \<Rightarrow> csv_units opt cs s1)"

lemma csv_units_append:
  "csv_units opt (xs @ ys) s = (case csv_units opt xs s of Inl e \<Rightarrow> Inl e | Inr s1 \<Rightarrow> csv_units opt ys s1)"
  by (induction xs arbitrary: s) (auto split: sum.splits)

section \<open>The parser reads like the reference\<close>

lemma append_text_append:
  "append_text opt (x @ y) s = (case append_text opt x s of Inl e \<Rightarrow> Inl e | Inr s1 \<Rightarrow> append_text opt y s1)"
  by (simp add: append_text_def Let_def)

lemma append_text_Inr:
  "append_text opt x s = Inr s1 \<Longrightarrow> s1 = s\<lparr>cp_recordChars := cp_recordChars s + length x, cp_field := cp_field s @ x\<rparr>"
  by (auto simp: append_text_def Let_def split: if_splits)

lemma append_text_fields:
  "append_text opt x s = Inr s1 \<Longrightarrow> cp_state s1 = cp_state s \<and> cp_pendingCr s1 = cp_pendingCr s
     \<and> cp_recordTouched s1 = cp_recordTouched s \<and> cp_atStart s1 = cp_atStart s"
  by (auto dest: append_text_Inr)

lemma touched_same: "cp_recordTouched s \<Longrightarrow> s\<lparr>cp_recordTouched := True\<rparr> = s"
  by (cases s) simp

lemma no_pending_same: "\<not> cp_pendingCr s \<Longrightarrow> s\<lparr>cp_pendingCr := False\<rparr> = s"
  by (cases s) simp

lemma unquoted_run:
  "list_all (ordinary opt) run \<Longrightarrow> cp_state s = Unquoted \<Longrightarrow> \<not> cp_pendingCr s \<Longrightarrow>
   csv_units opt (run @ rest) s =
     (case (if run \<noteq> [] then append_text opt run (s\<lparr>cp_recordTouched := True\<rparr>) else Inr s) of
        Inl e \<Rightarrow> Inl e | Inr s1 \<Rightarrow> csv_units opt rest s1)"
proof (induction run arbitrary: s)
  case (Cons c run)
  have u: "csv_unit opt c s = append_text opt [c] (s\<lparr>cp_recordTouched := True\<rparr>)"
    using Cons.prems by (simp add: csv_unit_def plain_unit_def unquoted_unit_def ordinary_def)
  show ?case
  proof (cases "append_text opt [c] (s\<lparr>cp_recordTouched := True\<rparr>)")
    case (Inl e)
    then show ?thesis
      using append_text_append [of opt "[c]" run "s\<lparr>cp_recordTouched := True\<rparr>"] by (simp add: u)
  next
    case (Inr s1)
    have s1: "cp_state s1 = Unquoted" "\<not> cp_pendingCr s1" "s1\<lparr>cp_recordTouched := True\<rparr> = s1"
      using append_text_fields [OF Inr] Cons.prems touched_same [of s1] by auto
    have "append_text opt (c # run) (s\<lparr>cp_recordTouched := True\<rparr>) = append_text opt run s1"
      using append_text_append [of opt "[c]" run "s\<lparr>cp_recordTouched := True\<rparr>"] Inr by simp
    moreover have "append_text opt [] s1 = Inr s1"
      using Inr by (auto simp: append_text_def Let_def split: if_splits)
    ultimately show ?thesis
      using Cons.IH [OF _ s1(1,2)] Cons.prems s1(3) by (cases "run = []") (auto simp: u Inr)
  qed
qed simp

lemma quoted_run:
  "list_all (\<lambda>c. c \<noteq> cv_quote opt) run \<Longrightarrow> cp_state s = Quoted \<Longrightarrow> \<not> cp_pendingCr s \<Longrightarrow>
   csv_units opt (run @ rest) s =
     (case (if run \<noteq> [] then append_text opt run (s\<lparr>cp_line := cp_line s + length (filter (\<lambda>c. c = LF) run)\<rparr>) else Inr s) of
        Inl e \<Rightarrow> Inl e | Inr s1 \<Rightarrow> csv_units opt rest s1)"
proof (induction run arbitrary: s)
  case (Cons c run)
  let ?s = "s\<lparr>cp_line := cp_line s + (if c = LF then 1 else 0)\<rparr>"
  have u: "csv_unit opt c s = append_text opt [c] ?s"
    using Cons.prems by (simp add: csv_unit_def plain_unit_def)
  have line: "append_text opt x (s'\<lparr>cp_line := n\<rparr>) = map_sum id (\<lambda>s1. s1\<lparr>cp_line := n\<rparr>) (append_text opt x s')" for x s' n
    by (simp add: append_text_def Let_def)
  show ?case
  proof (cases "append_text opt [c] ?s")
    case (Inl e)
    then have "append_text opt (c # run) (s\<lparr>cp_line := n\<rparr>) = Inl e" for n
      using append_text_append [of opt "[c]" run "s\<lparr>cp_line := n\<rparr>"] by (auto simp: append_text_def Let_def split: if_splits)
    then show ?thesis
      using Inl by (simp add: u)
  next
    case (Inr s1)
    let ?n = "cp_line s + length (filter (\<lambda>c. c = LF) (c # run))"
    have s1: "cp_state s1 = Quoted" "\<not> cp_pendingCr s1"
      using append_text_fields [OF Inr] Cons.prems by auto
    have "append_text opt [c] (s\<lparr>cp_line := ?n\<rparr>) = Inr (s1\<lparr>cp_line := ?n\<rparr>)"
      using Inr by (auto simp: append_text_def Let_def split: if_splits)
    then have a: "append_text opt (c # run) (s\<lparr>cp_line := ?n\<rparr>) = append_text opt run (s1\<lparr>cp_line := ?n\<rparr>)"
      using append_text_append [of opt "[c]" run "s\<lparr>cp_line := ?n\<rparr>"] by simp
    have l: "cp_line s1 + length (filter (\<lambda>c. c = LF) run) = ?n"
      using append_text_Inr [OF Inr] by simp
    show ?thesis
    proof (cases "run = []")
      case True
      then have "s1\<lparr>cp_line := ?n\<rparr> = s1"
        using append_text_Inr [OF Inr] by simp
      moreover have "append_text opt [] s1 = Inr s1"
        using Inr by (auto simp: append_text_def Let_def split: if_splits)
      ultimately show ?thesis
        using True a by (simp add: u Inr)
    next
      case False
      then show ?thesis
        using Cons.IH [OF _ s1] Cons.prems a l by (simp add: u Inr)
    qed
  qed
qed simp

lemma terminate_units:
  assumes "\<not> cp_pendingCr s" "c = LF \<or> c = CR"
  shows "(case terminate (c # cs) s of (s1, rest) \<Rightarrow> csv_units opt rest s1)
    = (if c = LF then csv_units opt cs (closeRecord s) else csv_units opt cs (s\<lparr>cp_pendingCr := True\<rparr>))"
  using assms by (cases cs) (auto simp: terminate_def csv_unit_def no_pending_same)

lemma readUnquoted_units:
  assumes s: "cp_state s = Unquoted" "\<not> cp_pendingCr s" and input: "input \<noteq> []"
  shows "csv_units opt input s =
    (case readUnquoted opt input s of Inl e \<Rightarrow> Inl e | Inr (s1, rest) \<Rightarrow> csv_units opt rest s1)"
proof -
  define run where "run = takeWhile (ordinary opt) input"
  define rest where "rest = dropWhile (ordinary opt) input"
  have input': "input = run @ rest"
    by (simp add: run_def rest_def)
  let ?a = "if run \<noteq> [] then append_text opt run (s\<lparr>cp_recordTouched := True\<rparr>) else Inr s"
  have la: "list_all (ordinary opt) run"
    by (auto simp: run_def list_all_iff dest: set_takeWhileD)
  have units: "csv_units opt input s = (case ?a of Inl e \<Rightarrow> Inl e | Inr s1 \<Rightarrow> csv_units opt rest s1)"
    using unquoted_run [OF la s, of rest] by (simp add: input')
  show ?thesis
  proof (cases ?a)
    case (Inl e)
    then show ?thesis
      by (simp add: units readUnquoted_def Let_def flip: run_def rest_def)
  next
    case (Inr s1)
    have s1: "cp_state s1 = Unquoted" "\<not> cp_pendingCr s1"
      using Inr s append_text_fields by (auto split: if_splits)
    show ?thesis
    proof (cases rest)
      case Nil
      then show ?thesis
        using Inr by (simp add: units readUnquoted_def Let_def flip: run_def rest_def)
    next
      case (Cons c cs)
      have "\<not> ordinary opt c"
        using Cons by (simp add: rest_def dropWhile_eq_Cons_conv)
      then have c: "c = cv_delimiter opt \<or> c = LF \<or> c = CR"
        by (auto simp: ordinary_def)
      have "csv_units opt (c # cs) s1 = (if c = cv_delimiter opt then csv_units opt cs (closeField (s1\<lparr>cp_recordTouched := True\<rparr>))
          else case terminate (c # cs) s1 of (s2, rest) \<Rightarrow> csv_units opt rest s2)"
        using s1 c terminate_units [OF s1(2), of c opt cs]
        by (auto simp: csv_unit_def plain_unit_def unquoted_unit_def)
      then show ?thesis
        using Inr Cons by (simp add: units readUnquoted_def Let_def flip: run_def rest_def)
    qed
  qed
qed

lemma readQuoted_units:
  assumes s: "cp_state s = Quoted" "\<not> cp_pendingCr s" and input: "input \<noteq> []"
  shows "csv_units opt input s =
    (case readQuoted opt input s of Inl e \<Rightarrow> Inl e | Inr (s1, rest) \<Rightarrow> csv_units opt rest s1)"
proof -
  define run where "run = takeWhile (\<lambda>c. c \<noteq> cv_quote opt) input"
  define rest where "rest = dropWhile (\<lambda>c. c \<noteq> cv_quote opt) input"
  have input': "input = run @ rest"
    by (simp add: run_def rest_def)
  let ?s = "s\<lparr>cp_line := cp_line s + length (filter (\<lambda>c. c = LF) run)\<rparr>"
  let ?a = "if run \<noteq> [] then append_text opt run ?s else Inr ?s"
  have la: "list_all (\<lambda>c. c \<noteq> cv_quote opt) run"
    by (auto simp: run_def list_all_iff dest: set_takeWhileD)
  have "run = [] \<Longrightarrow> ?s = s"
    by (cases s) simp
  then have units: "csv_units opt input s = (case ?a of Inl e \<Rightarrow> Inl e | Inr s1 \<Rightarrow> csv_units opt rest s1)"
    using quoted_run [OF la s, of rest] by (cases "run = []") (simp_all add: input')
  show ?thesis
  proof (cases ?a)
    case (Inl e)
    then show ?thesis
      by (simp add: units readQuoted_def Let_def flip: run_def rest_def)
  next
    case (Inr s1)
    have s1: "cp_state s1 = Quoted" "\<not> cp_pendingCr s1"
      using Inr s append_text_fields by (auto split: if_splits)
    show ?thesis
    proof (cases rest)
      case Nil
      then show ?thesis
        using Inr by (simp add: units readQuoted_def Let_def flip: run_def rest_def)
    next
      case (Cons c cs)
      have "c = cv_quote opt"
        using Cons by (simp add: rest_def dropWhile_eq_Cons_conv)
      then show ?thesis
        using Inr Cons s1 by (simp add: units readQuoted_def Let_def csv_unit_def plain_unit_def flip: run_def rest_def)
    qed
  qed
qed

lemma readAfterQuote_units:
  assumes s: "cp_state s = AfterQuote" "\<not> cp_pendingCr s" and input: "input = c # cs"
  shows "csv_units opt input s =
    (case readAfterQuote opt input s of Inl e \<Rightarrow> Inl e | Inr (s1, rest) \<Rightarrow> csv_units opt rest s1)"
proof -
  have field: "(closeField s)\<lparr>cp_state := FieldStart\<rparr> = closeField s"
    by (simp add: closeField_def)
  show ?thesis
    using s terminate_units [of "s\<lparr>cp_state := FieldStart\<rparr>" c opt cs] field
    by (auto simp: input readAfterQuote_def csv_unit_def plain_unit_def Let_def split: sum.splits)
qed

lemma read_state_units:
  assumes "\<not> cp_pendingCr s" "input \<noteq> []"
  shows "csv_units opt input s =
    (case read_state opt input s of Inl e \<Rightarrow> Inl e | Inr (s1, rest) \<Rightarrow> csv_units opt rest s1)"
proof (cases "cp_state s")
  case FieldStart
  then show ?thesis
    using assms by (cases input) (auto simp: read_state_def readFieldStart_def csv_unit_def plain_unit_def)
next
  case AfterQuote
  then show ?thesis
    using assms readAfterQuote_units [of s input "hd input" "tl input" opt] by (simp add: read_state_def)
qed (use assms in \<open>simp_all add: read_state_def readUnquoted_units readQuoted_units\<close>)

lemma csv_iteration_units:
  assumes "input \<noteq> []"
  shows "csv_units opt input s =
    (case csv_iteration opt input s of Inl e \<Rightarrow> Inl e | Inr (s1, rest) \<Rightarrow> csv_units opt rest s1)"
proof (cases "cp_pendingCr s")
  case True
  let ?s = "closeRecord (s\<lparr>cp_pendingCr := False\<rparr>)"
  have "csv_units opt input s = (if hd input = LF then csv_units opt (tl input) ?s else csv_units opt input ?s)"
    using True assms by (cases input) (auto simp: csv_unit_def)
  then show ?thesis
    using True read_state_units [of ?s input opt] assms by (auto simp: csv_iteration_def Let_def)
next
  case False
  then show ?thesis
    using read_state_units [OF False assms] by (simp add: csv_iteration_def)
qed

lemma csv_loop_units: "csv_loop opt input s = csv_units opt input s"
proof (induction opt input s rule: csv_loop.induct)
  case (1 opt input s)
  show ?case
  proof (cases "input = []")
    case True
    then show ?thesis
      by (simp add: csv_loop.simps)
  next
    case False
    then show ?thesis
      using 1 csv_iteration_units [OF False, of opt s]
      by (subst csv_loop.simps) (auto split: sum.splits prod.splits)
  qed
qed

lemma consume_units:
  "consume opt text s = (if text = [] then Inr s
     else if cp_atStart s then csv_units opt (if hd text = BOM then tl text else text) (s\<lparr>cp_atStart := False\<rparr>)
     else csv_units opt text s)"
  by (simp add: consume_def csv_loop_units)

lemma plain_unit_atStart: "plain_unit opt c s = Inr s1 \<Longrightarrow> cp_atStart s1 = cp_atStart s"
  by (cases "cp_state s") (auto simp: plain_unit_def unquoted_unit_def closeField_def append_text_def Let_def
      split: if_splits)

lemma csv_unit_atStart: "csv_unit opt c s = Inr s1 \<Longrightarrow> cp_atStart s1 = cp_atStart s"
  using plain_unit_atStart [of opt c s s1] plain_unit_atStart [of opt c "closeRecord (s\<lparr>cp_pendingCr := False\<rparr>)" s1]
  by (auto simp: csv_unit_def Let_def split: if_splits)

lemma csv_units_atStart: "csv_units opt z s = Inr s1 \<Longrightarrow> cp_atStart s1 = cp_atStart s"
  by (induction z arbitrary: s) (auto split: sum.splits dest: csv_unit_atStart)

lemma consume_Nil: "consume opt [] s = Inr s"
  by (simp add: consume_def)

lemma consume_started: "\<not> cp_atStart s \<Longrightarrow> consume opt text s = csv_units opt text s"
  by (simp add: consume_units)

lemma consume_first:
  "xs \<noteq> [] \<Longrightarrow> hd xs \<noteq> BOM \<Longrightarrow> cp_atStart s \<Longrightarrow> consume opt xs s = csv_units opt xs (s\<lparr>cp_atStart := False\<rparr>)"
  by (simp add: consume_units)

lemma consume_append:
  "consume opt (x @ y) s = (case consume opt x s of Inl e \<Rightarrow> Inl e | Inr s1 \<Rightarrow> consume opt y s1)"
proof (cases "x = []")
  case False
  define x' where "x' = (if cp_atStart s \<and> hd x = BOM then tl x else x)"
  define s' where "s' = (if cp_atStart s then s\<lparr>cp_atStart := False\<rparr> else s)"
  have c: "consume opt x s = csv_units opt x' s'" "consume opt (x @ y) s = csv_units opt (x' @ y) s'"
    using False by (simp_all add: consume_units x'_def s'_def)
  have "consume opt y s1 = csv_units opt y s1" if "csv_units opt x' s' = Inr s1" for s1
    using csv_units_atStart [OF that] by (intro consume_started) (simp add: s'_def split: if_splits)
  then show ?thesis
    by (cases "csv_units opt x' s'") (simp_all add: c csv_units_append)
qed (simp add: consume_Nil)

lemma transform_all_concat: "transform_all opt chunks s = consume opt (concat chunks) s"
  by (induction chunks arbitrary: s) (simp_all add: consume_append consume_Nil cong: sum.case_cong)

section \<open>Quoted records read back\<close>

text \<open>The RFC 4180 form of a record with every field quoted.\<close>

definition quote_field :: "csv_options \<Rightarrow> unit_text \<Rightarrow> unit_text" where
  "quote_field opt f = cv_quote opt # concat (map (\<lambda>c. if c = cv_quote opt then [c, c] else [c]) f) @ [cv_quote opt]"

fun write_fields :: "csv_options \<Rightarrow> unit_text list \<Rightarrow> unit_text" where
  "write_fields opt [] = [CR, LF]"
| "write_fields opt [f] = quote_field opt f @ [CR, LF]"
| "write_fields opt (f # g # fs) = quote_field opt f @ cv_delimiter opt # write_fields opt (g # fs)"

definition opts_ok :: "csv_options \<Rightarrow> bool" where
  "opts_ok opt \<longleftrightarrow> cv_quote opt \<noteq> cv_delimiter opt \<and> cv_quote opt \<notin> {LF, CR, BOM} \<and> cv_delimiter opt \<notin> {LF, CR}"

lemma quoted_body:
  assumes "cp_state s = Quoted" "\<not> cp_pendingCr s" "cp_recordChars s + length f \<le> cv_maxRecordChars opt"
  shows "csv_units opt (concat (map (\<lambda>c. if c = cv_quote opt then [c, c] else [c]) f) @ rest) s
    = csv_units opt rest (s\<lparr>cp_field := cp_field s @ f, cp_recordChars := cp_recordChars s + length f,
        cp_line := cp_line s + length (filter (\<lambda>c. c = LF \<and> c \<noteq> cv_quote opt) f)\<rparr>)"
  using assms
proof (induction f arbitrary: s)
  case (Cons c f)
  let ?s = "s\<lparr>cp_field := cp_field s @ [c], cp_recordChars := cp_recordChars s + 1,
      cp_line := cp_line s + (if c = LF \<and> c \<noteq> cv_quote opt then 1 else 0)\<rparr>"
  have "csv_units opt ((if c = cv_quote opt then [c, c] else [c]) @ t) s = csv_units opt t ?s" for t
    using Cons.prems by (cases s) (simp add: csv_unit_def plain_unit_def append_text_def Let_def)
  then show ?case
    using Cons.IH [of ?s] Cons.prems by simp
qed simp

lemma quoted_field:
  assumes "cp_state s = FieldStart" "\<not> cp_pendingCr s" "cp_recordChars s + length f \<le> cv_maxRecordChars opt" "cp_field s = []"
  shows "csv_units opt (quote_field opt f @ rest) s
    = csv_units opt rest (s\<lparr>cp_field := f, cp_recordChars := cp_recordChars s + length f, cp_recordTouched := True,
        cp_line := cp_line s + length (filter (\<lambda>c. c = LF \<and> c \<noteq> cv_quote opt) f), cp_state := AfterQuote\<rparr>)"
  using assms quoted_body [of "s\<lparr>cp_recordTouched := True, cp_state := Quoted\<rparr>" f opt "cv_quote opt # rest"]
  by (cases s) (simp add: quote_field_def csv_unit_def plain_unit_def)

definition written_state :: "unit_text list \<Rightarrow> nat \<Rightarrow> nat \<Rightarrow> csv_state \<Rightarrow> csv_state" where
  "written_state fs line recordLine s =
     s\<lparr>cp_fields := [], cp_field := [], cp_recordTouched := False, cp_recordChars := 0, cp_line := line,
       cp_recordLine := recordLine,
       cp_records := cp_records s @ [\<lparr>cr_line = cp_recordLine s, cr_fields = cp_fields s @ fs\<rparr>]\<rparr>"

definition after_field :: "csv_options \<Rightarrow> unit_text \<Rightarrow> csv_state \<Rightarrow> csv_state" where
  "after_field opt f s = s\<lparr>cp_field := f, cp_recordChars := cp_recordChars s + length f, cp_recordTouched := True,
     cp_line := cp_line s + length (filter (\<lambda>c. c = LF \<and> c \<noteq> cv_quote opt) f), cp_state := AfterQuote\<rparr>"

lemma written_last:
  "cp_state s = FieldStart \<Longrightarrow> \<not> cp_pendingCr s \<Longrightarrow>
   closeRecord ((after_field opt f s)\<lparr>cp_state := FieldStart, cp_pendingCr := False\<rparr>)
     = written_state [f] (cp_line (after_field opt f s) + 1) (cp_line (after_field opt f s) + 1) s"
  by (cases s) (simp add: closeRecord_def resetRecord_def written_state_def after_field_def Let_def)

lemma written_next:
  "cp_state s = FieldStart \<Longrightarrow> written_state fs line rl (closeField (after_field opt f s)) = written_state (f # fs) line rl s"
  by (cases s) (simp add: closeField_def written_state_def after_field_def)

lemma written_record:
  assumes "opts_ok opt" "fs \<noteq> []" "cp_state s = FieldStart" "\<not> cp_pendingCr s" "cp_field s = []"
    and "cp_recordChars s + length (concat fs) \<le> cv_maxRecordChars opt"
  shows "\<exists>line rl. csv_units opt (write_fields opt fs @ rest) s = csv_units opt rest (written_state fs line rl s)"
  using assms
proof (induction opt fs arbitrary: s rule: write_fields.induct)
  case (2 opt f)
  have "csv_units opt (write_fields opt [f] @ rest) s = csv_units opt (CR # LF # rest) (after_field opt f s)"
    using quoted_field [of s f opt "CR # LF # rest"] "2.prems" by (simp add: after_field_def)
  also have "\<dots> = csv_units opt rest (closeRecord ((after_field opt f s)\<lparr>cp_state := FieldStart, cp_pendingCr := False\<rparr>))"
    using "2.prems" by (simp add: csv_unit_def plain_unit_def opts_ok_def after_field_def)
  finally show ?case
    using written_last [of s opt f] "2.prems" by auto
next
  case (3 opt f g fs)
  have "csv_units opt (write_fields opt (f # g # fs) @ rest) s
      = csv_units opt (cv_delimiter opt # write_fields opt (g # fs) @ rest) (after_field opt f s)"
    using quoted_field [of s f opt "cv_delimiter opt # write_fields opt (g # fs) @ rest"] "3.prems"
    by (simp add: after_field_def)
  also have "\<dots> = csv_units opt (write_fields opt (g # fs) @ rest) (closeField (after_field opt f s))"
    using "3.prems" by (simp add: csv_unit_def plain_unit_def opts_ok_def after_field_def)
  finally have e: "csv_units opt (write_fields opt (f # g # fs) @ rest) s
      = csv_units opt (write_fields opt (g # fs) @ rest) (closeField (after_field opt f s))" .
  have "\<exists>line rl. csv_units opt (write_fields opt (g # fs) @ rest) (closeField (after_field opt f s))
      = csv_units opt rest (written_state (g # fs) line rl (closeField (after_field opt f s)))"
    using "3.prems" by (intro "3.IH") (simp_all add: closeField_def after_field_def)
  then show ?case
    using e written_next [of s "g # fs"] "3.prems"(3) by auto
qed simp

lemma written_records:
  assumes "opts_ok opt" "list_all (\<lambda>fs. fs \<noteq> [] \<and> length (concat fs) \<le> cv_maxRecordChars opt) rs"
    and "cp_state s = FieldStart" "\<not> cp_pendingCr s" "cp_field s = []" "cp_fields s = []" "cp_recordChars s = 0" "\<not> cp_recordTouched s"
  shows "\<exists>s'. csv_units opt (concat (map (write_fields opt) rs)) s = Inr s' \<and> map cr_fields (cp_records s') = map cr_fields (cp_records s) @ rs
    \<and> cp_state s' = FieldStart \<and> \<not> cp_pendingCr s' \<and> \<not> cp_recordTouched s'"
  using assms(2-)
proof (induction rs arbitrary: s)
  case (Cons fs rs)
  obtain line rl where w: "csv_units opt (write_fields opt fs @ concat (map (write_fields opt) rs)) s
      = csv_units opt (concat (map (write_fields opt) rs)) (written_state fs line rl s)"
    using written_record [of opt fs s "concat (map (write_fields opt) rs)"] assms(1) Cons.prems by auto
  show ?case
    using Cons.IH [of "written_state fs line rl s"] Cons.prems w by (simp add: written_state_def)
qed simp

section \<open>What a record may hold\<close>

definition retained_ok :: "csv_options \<Rightarrow> csv_state \<Rightarrow> bool" where
  "retained_ok opt s \<longleftrightarrow> cp_recordChars s = length (concat (cp_fields s)) + length (cp_field s)
     \<and> cp_recordChars s \<le> cv_maxRecordChars opt
     \<and> list_all (\<lambda>r. length (concat (cr_fields r)) \<le> cv_maxRecordChars opt) (cp_records s)"

lemma retained_closeRecord: "retained_ok opt s \<Longrightarrow> retained_ok opt (closeRecord s)"
  by (auto simp: retained_ok_def closeRecord_def resetRecord_def Let_def)

lemma retained_unit: "retained_ok opt s \<Longrightarrow> plain_unit opt c s = Inr s1 \<Longrightarrow> retained_ok opt s1"
  using retained_closeRecord [of opt s] retained_closeRecord [of opt "s\<lparr>cp_state := FieldStart\<rparr>"]
    retained_closeRecord [of opt "s\<lparr>cp_state := Unquoted\<rparr>"]
  by (cases "cp_state s")
    (auto simp: plain_unit_def unquoted_unit_def append_text_def closeField_def Let_def retained_ok_def split: if_splits)

lemma retained_units: "retained_ok opt s \<Longrightarrow> csv_units opt xs s = Inr s1 \<Longrightarrow> retained_ok opt s1"
proof (induction xs arbitrary: s)
  case (Cons c xs)
  then obtain s2 where s2: "csv_unit opt c s = Inr s2" "csv_units opt xs s2 = Inr s1"
    by (auto split: sum.splits)
  have "retained_ok opt (closeRecord (s\<lparr>cp_pendingCr := False\<rparr>))"
    using Cons.prems(1) retained_closeRecord [of opt "s\<lparr>cp_pendingCr := False\<rparr>"] by (simp add: retained_ok_def)
  then have "retained_ok opt s2"
    using s2(1) Cons.prems(1) retained_unit by (auto simp: csv_unit_def Let_def split: if_splits)
  then show ?case
    using Cons.IH s2(2) by blast
qed simp

lemma create_state:
  "createCsvParser d q m = Inr (opt, s) \<Longrightarrow> retained_ok opt s \<and> cp_state s = FieldStart \<and> \<not> cp_pendingCr s \<and> cp_field s = []
     \<and> cp_fields s = [] \<and> cp_recordChars s = 0 \<and> \<not> cp_recordTouched s \<and> cp_records s = [] \<and> cp_atStart s
     \<and> cp_line s = 1 \<and> cp_recordLine s = 1"
  by (auto simp: createCsvParser_def retained_ok_def split: if_splits)

lemma flush_Nil:
  "flush opt [] s = (let s1 = (if cp_pendingCr s then closeRecord (s\<lparr>cp_pendingCr := False\<rparr>) else s) in
     if cp_state s1 = Quoted then Inl \<lparr>ce_code = CSV_UNTERMINATED_QUOTE, ce_line = cp_recordLine s1, ce_pushed = cp_records s1\<rparr>
     else Inr (if cp_recordTouched s1 then closeRecord s1 else s1))"
  by (simp add: flush_def consume_Nil)

section \<open>Properties\<close>

text \<open>
  C6: where the chunk boundaries fall does not matter: every division of a text into chunks gives
  the records, with their line numbers, or the error that the whole text in one chunk gives, and before
  the error the same records.
\<close>

theorem chunking_is_irrelevant:
  "parse_stream opt chunks s = parse_stream opt [concat chunks] s"
  by (simp add: parse_stream_def transform_all_concat)

text \<open>
  The parser that consumes whole runs of characters agrees, on every input and in every
  state, with the machine that reads one code unit at a time.
\<close>

lemma run_reading_equals_unit_reading:
  "csv_loop opt input s = csv_units opt input s"
  by (rule csv_loop_units)

text \<open>
  C27: records written in RFC 4180 form, every field quoted and quotes doubled, are read back field
  by field, delimiters, quotes and line breaks in the fields included.
\<close>

theorem quoted_records_round_trip:
  assumes created: "createCsvParser [d] [q] m = Inr (opt, s)" and "opts_ok opt"
    and rs: "list_all (\<lambda>fs. fs \<noteq> [] \<and> length (concat fs) \<le> m) rs"
  shows "\<exists>records. parse_stream opt [concat (map (write_fields opt) rs)] s = Inr records \<and> map cr_fields records = rs"
proof -
  have m: "cv_maxRecordChars opt = m"
    using created by (auto simp: createCsvParser_def split: if_splits)
  let ?text = "concat (map (write_fields opt) rs)" and ?s = "s\<lparr>cp_atStart := False\<rparr>"
  note init = create_state [OF created]
  obtain s' where s': "csv_units opt ?text ?s = Inr s'" "map cr_fields (cp_records s') = rs"
      "cp_state s' = FieldStart" "\<not> cp_pendingCr s'" "\<not> cp_recordTouched s'"
    using written_records [OF assms(2), of rs ?s] init rs m by auto
  show ?thesis
  proof (cases rs)
    case Nil
    then show ?thesis
      using init by (simp add: parse_stream_def consume_Nil flush_Nil Let_def)
  next
    case (Cons fs rs')
    then have "?text \<noteq> []" "hd ?text = cv_quote opt"
      using rs by (cases "(opt, fs)" rule: write_fields.cases; auto simp: quote_field_def)+
    then have "consume opt ?text s = Inr s'"
      using consume_first [of ?text s opt] s'(1) init assms(2) by (auto simp: opts_ok_def)
    then show ?thesis
      using s' by (simp add: parse_stream_def flush_Nil Let_def)
  qed
qed

definition demo_csv_options :: csv_options where
  "demo_csv_options = \<lparr>cv_delimiter = 44, cv_quote = 34, cv_maxRecordChars = 20\<rparr>"

definition demo_csv_state :: csv_state where
  "demo_csv_state = \<lparr>cp_state = FieldStart, cp_field = [], cp_fields = [], cp_line = 1, cp_recordLine = 1,
     cp_recordTouched = False, cp_recordChars = 0, cp_pendingCr = False, cp_atStart = True, cp_records = []\<rparr>"

lemma demo_csv_created: "createCsvParser [44] [34] 20 = Inr (demo_csv_options, demo_csv_state)"
  by (simp add: createCsvParser_def demo_csv_options_def demo_csv_state_def)

theorem quoted_records_round_trip_witness:
  "\<exists>records. parse_stream demo_csv_options [concat (map (write_fields demo_csv_options) [[[97, 34], [44, 13, 10]], [[]]])] demo_csv_state
     = Inr records \<and> map cr_fields records = [[[97, 34], [44, 13, 10]], [[]]]"
  using quoted_records_round_trip [OF demo_csv_created, of "[[[97, 34], [44, 13, 10]], [[]]]"]
  by (simp add: opts_ok_def demo_csv_options_def)

text \<open>
  Whatever the input, no record the parser keeps or emits holds more than \<open>maxRecordChars\<close>
  characters in its fields.
\<close>

lemma records_within_limit:
  assumes "createCsvParser d q m = Inr (opt, s)" "parse_stream opt chunks s = Inr records"
  shows "list_all (\<lambda>r. length (concat (cr_fields r)) \<le> m) records"
proof -
  have m: "cv_maxRecordChars opt = m"
    using assms(1) by (auto simp: createCsvParser_def split: if_splits)
  obtain s1 s2 where s1: "consume opt (concat chunks) s = Inr s1" and s2: "flush opt [] s1 = Inr s2" "records = cp_records s2"
    using assms(2) by (auto simp: parse_stream_def transform_all_concat split: sum.splits)
  have keep: "retained_ok opt (t\<lparr>cp_atStart := x\<rparr>) = retained_ok opt t" "retained_ok opt (t\<lparr>cp_pendingCr := x\<rparr>) = retained_ok opt t" for t x
    by (simp_all add: retained_ok_def)
  have "retained_ok opt s1"
    using s1 create_state [OF assms(1)] retained_units [of opt "s\<lparr>cp_atStart := False\<rparr>"]
    by (auto simp: consume_units keep split: if_splits)
  then have "retained_ok opt s2"
    using s2(1) by (auto simp: flush_Nil Let_def keep retained_closeRecord split: if_splits)
  then show ?thesis
    using s2(2) m by (simp add: retained_ok_def)
qed

text \<open>
  The limit does not count delimiters: a line of \<open>n\<close> delimiters is accepted, whatever
  \<open>maxRecordChars\<close> is, as one record of \<open>n + 1\<close> empty fields.
\<close>

lemma delimiters_escape_the_limit:
  assumes created: "createCsvParser [d] [q] m = Inr (opt, s)" and "d \<notin> {LF, CR, BOM}" "0 < n"
  shows "parse_stream opt [replicate n d] s = Inr [\<lparr>cr_line = 1, cr_fields = replicate (n + 1) []\<rparr>]"
proof -
  have d: "cv_delimiter opt = d" "cv_quote opt \<noteq> d"
    using created by (auto simp: createCsvParser_def split: if_splits)
  note init = create_state [OF created]
  have step: "csv_unit opt d t = Inr (t\<lparr>cp_recordTouched := True, cp_fields := cp_fields t @ [[]], cp_state := FieldStart\<rparr>)"
    if "cp_state t = FieldStart" "\<not> cp_pendingCr t" "cp_field t = []" for t
    using that d by (cases t) (simp add: csv_unit_def plain_unit_def unquoted_unit_def closeField_def)
  have run: "csv_units opt (replicate (Suc k) d) t = Inr (t\<lparr>cp_recordTouched := True, cp_fields := cp_fields t @ replicate (Suc k) []\<rparr>)"
    if "cp_state t = FieldStart" "\<not> cp_pendingCr t" "cp_field t = []" for k t
    using that
  proof (induction k arbitrary: t)
    case 0
    then show ?case
      by (cases t) (simp add: step)
  next
    case (Suc k)
    let ?t = "t\<lparr>cp_recordTouched := True, cp_fields := cp_fields t @ [[]], cp_state := FieldStart\<rparr>"
    have "csv_units opt (replicate (Suc (Suc k)) d) t = csv_units opt (replicate (Suc k) d) ?t"
      using step [OF Suc.prems] by simp
    also have "\<dots> = Inr (?t\<lparr>cp_recordTouched := True, cp_fields := cp_fields ?t @ replicate (Suc k) []\<rparr>)"
      using Suc.prems by (intro Suc.IH) simp_all
    finally show ?case
      using Suc.prems by (cases t) simp
  qed
  obtain k where n: "n = Suc k"
    using assms(3) gr0_implies_Suc by blast
  have "consume opt (replicate n d) s = Inr (s\<lparr>cp_atStart := False, cp_recordTouched := True, cp_fields := replicate n []\<rparr>)"
    using run [of "s\<lparr>cp_atStart := False\<rparr>" k] init assms(2) n by (simp add: consume_units)
  then show ?thesis
    using init by (simp add: parse_stream_def flush_Nil Let_def closeRecord_def resetRecord_def replicate_append_same)
qed

end
