(* ===== verification/Entity_Tag.thy ===== *)
theory Entity_Tag
  imports Js_String
begin

text \<open>
  Entity-tags and the preconditions that compare them: the tag grammar and its two comparisons
  (\<open>src/http/entity-tag.ts\<close>), the read preconditions (\<open>src/http/conditional.ts\<close>), the version
  tags of rows (\<open>src/concurrency/etag.ts\<close>) and the \<open>If-Match\<close> step
  (\<open>src/concurrency/precondition.ts\<close>). A position in a header is the rest of the header from
  there. \<open>Date.parse\<close> is the parameter \<open>date_parse\<close>, \<open>None\<close> for \<open>NaN\<close>.
\<close>

section \<open>Entity-tags\<close>

record entity_tag =
  et_weak :: bool
  et_value :: string

definition strongMatch :: "entity_tag \<Rightarrow> entity_tag \<Rightarrow> bool" where
  "strongMatch a b \<longleftrightarrow> \<not> et_weak a \<and> \<not> et_weak b \<and> et_value a = et_value b"

definition weakMatch :: "entity_tag \<Rightarrow> entity_tag \<Rightarrow> bool" where
  "weakMatch a b \<longleftrightarrow> et_value a = et_value b"

definition formatEntityTag :: "entity_tag \<Rightarrow> string" where
  "formatEntityTag tag = (if et_weak tag then ''W/'' else []) @ [CHR 0x22] @ et_value tag @ [CHR 0x22]"

definition isEtagChar :: "nat \<Rightarrow> bool" where
  "isEtagChar c \<longleftrightarrow> c = 33 \<or> (35 \<le> c \<and> c \<le> 126) \<or> (128 \<le> c \<and> c \<le> 255)"

text \<open>The quoted part of a tag, after a \<open>W/\<close> that made it weak.\<close>

definition read_opaque :: "bool \<Rightarrow> string \<Rightarrow> (entity_tag \<times> string) option" where
  "read_opaque weak rest =
     (case rest of
        [] \<Rightarrow> None
      | c # cs \<Rightarrow>
          if c \<noteq> CHR 0x22 then None
          else let val = takeWhile (\<lambda>c. c \<noteq> CHR 0x22) cs in
            if \<not> list_all (\<lambda>c. isEtagChar (code c)) val then None
            else case dropWhile (\<lambda>c. c \<noteq> CHR 0x22) cs of
                [] \<Rightarrow> None
              | q # after \<Rightarrow> Some (\<lparr>et_weak = weak, et_value = val\<rparr>, after))"

definition readEntityTag :: "string \<Rightarrow> (entity_tag \<times> string) option" where
  "readEntityTag header =
     (if take 2 header = ''W/'' then read_opaque True (drop 2 header) else read_opaque False header)"

definition parseEntityTag :: "string \<Rightarrow> entity_tag option" where
  "parseEntityTag header =
     (case readEntityTag (trim header) of
        Some (tag, []) \<Rightarrow> Some tag
      | _ \<Rightarrow> None)"

definition is_ows :: "char \<Rightarrow> bool" where
  "is_ows c \<longleftrightarrow> c = CHR '' '' \<or> code c = 9"

definition skipOws :: "string \<Rightarrow> string" where
  "skipOws s = dropWhile is_ows s"

lemma length_skipOws: "length (skipOws s) \<le> length s"
  by (simp add: skipOws_def length_dropWhile_le)

function skipSeparators :: "string \<Rightarrow> string" where
  "skipSeparators s =
     (case skipOws s of
        [] \<Rightarrow> []
      | c # rest \<Rightarrow> if c = CHR '','' then skipSeparators rest else c # rest)"
  by pat_completeness auto
termination
proof (relation "measure length", simp)
  fix s rest :: string and c :: char
  assume "skipOws s = c # rest"
  then have "length rest < length (skipOws s)"
    by simp
  then show "(rest, s) \<in> measure length"
    using length_skipOws [of s] by simp
qed

declare skipSeparators.simps [simp del]

lemma length_skipSeparators: "length (skipSeparators s) \<le> length s"
proof (induction s rule: skipSeparators.induct)
  case (1 s)
  show ?case
  proof (cases "skipOws s")
    case Nil
    then show ?thesis
      by (simp add: skipSeparators.simps)
  next
    case (Cons c rest)
    have less: "length rest < length s"
      using length_skipOws [of s] Cons by simp
    show ?thesis
    proof (cases "c = CHR '',''")
      case True
      then have "skipSeparators s = skipSeparators rest"
        using Cons by (subst skipSeparators.simps) simp
      then show ?thesis
        using 1 [OF Cons True] less by simp
    next
      case False
      then have "skipSeparators s = c # rest"
        using Cons by (subst skipSeparators.simps) simp
      then show ?thesis
        using less by simp
    qed
  qed
qed

definition wf_tag :: "entity_tag \<Rightarrow> bool" where
  "wf_tag tag \<longleftrightarrow> (\<forall>c \<in> set (et_value tag). isEtagChar (code c))"

lemma quote_not_etag_char: "isEtagChar (code c) \<Longrightarrow> c \<noteq> CHR 0x22"
  by (auto simp: isEtagChar_def code_def)

lemma read_opaque_sound:
  assumes "read_opaque weak s = Some (tag, rest)"
  shows "s = CHR 0x22 # et_value tag @ CHR 0x22 # rest \<and> wf_tag tag \<and> et_weak tag = weak"
proof (cases s)
  case Nil
  then show ?thesis
    using assms by (simp only: read_opaque_def list.case option.distinct)
next
  case (Cons c cs)
  define val where "val = takeWhile (\<lambda>c. c \<noteq> CHR 0x22) cs"
  define after where "after = dropWhile (\<lambda>c. c \<noteq> CHR 0x22) cs"
  have split: "cs = val @ after"
    by (simp only: val_def after_def takeWhile_dropWhile_id)
  have c: "c = CHR 0x22" and ok: "list_all (\<lambda>c. isEtagChar (code c)) val"
    using assms unfolding Cons read_opaque_def list.case Let_def val_def [symmetric]
    by (metis option.distinct(1))+
  have read: "(case after of [] \<Rightarrow> None | q # after \<Rightarrow> Some (\<lparr>et_weak = weak, et_value = val\<rparr>, after)) = Some (tag, rest)"
    using assms c ok unfolding Cons read_opaque_def list.case Let_def val_def [symmetric] after_def [symmetric] by simp
  then obtain q where q: "after = q # rest" and tag: "tag = \<lparr>et_weak = weak, et_value = val\<rparr>"
    by (cases after) simp_all
  have "q = CHR 0x22"
    using hd_dropWhile [of "\<lambda>c. c \<noteq> CHR 0x22" cs] q unfolding after_def [symmetric] by simp
  then show ?thesis
    using split c ok q tag Cons by (simp add: wf_tag_def list_all_iff)
qed

lemma read_opaque_shorter: "read_opaque weak s = Some (tag, rest) \<Longrightarrow> length rest < length s"
  by (drule read_opaque_sound) simp

lemma readEntityTag_shorter:
  assumes "readEntityTag s = Some (tag, rest)"
  shows "length rest < length s"
proof (cases "take 2 s = ''W/''")
  case True
  then have "read_opaque True (drop 2 s) = Some (tag, rest)"
    using assms unfolding readEntityTag_def by (simp only: if_True simp_thms)
  then show ?thesis
    using read_opaque_shorter [of True "drop 2 s" tag rest] by simp
next
  case False
  then have "read_opaque False s = Some (tag, rest)"
    using assms by (simp only: readEntityTag_def if_False)
  then show ?thesis
    by (rule read_opaque_shorter)
qed

text \<open>The loop of \<open>parseEntityTagList\<close>: the tags from here on, after the separators.\<close>

function tag_loop :: "string \<Rightarrow> entity_tag list option" where
  "tag_loop header =
     (if header = [] then Some []
      else case readEntityTag header of
          None \<Rightarrow> None
        | Some (tag, rest) \<Rightarrow>
            (case skipOws rest of
               [] \<Rightarrow> Some [tag]
             | c # tail \<Rightarrow>
                 if c \<noteq> CHR '','' then None
                 else map_option ((#) tag) (tag_loop (skipSeparators (c # tail)))))"
  by pat_completeness auto
termination
proof (relation "measure length", simp)
  fix header rest tail :: string and x tag c
  assume "readEntityTag header = Some x" "(tag, rest) = x" "skipOws rest = c # tail"
  then have "length rest < length header" "length (c # tail) \<le> length rest"
    using readEntityTag_shorter [of header tag rest] length_skipOws [of rest] by simp_all
  then show "(skipSeparators (c # tail), header) \<in> measure length"
    using length_skipSeparators [of "c # tail"] by simp
qed

declare tag_loop.simps [simp del]

definition parseEntityTagList :: "string \<Rightarrow> entity_tag list option" where
  "parseEntityTagList header =
     (case tag_loop (skipSeparators header) of
        None \<Rightarrow> None
      | Some tags \<Rightarrow> if 0 < length tags then Some tags else None)"

section \<open>Read preconditions\<close>

datatype read_precondition = Proceed | NotModified

record validators =
  va_etag :: string
  va_lastModified :: "int option"

definition truncateToSeconds :: "int \<Rightarrow> int" where
  "truncateToSeconds ms = ms div 1000 * 1000"

definition parseHttpDate :: "(string \<Rightarrow> int option) \<Rightarrow> string \<Rightarrow> int option" where
  "parseHttpDate date_parse value =
     (case date_parse (trim value) of None \<Rightarrow> None | Some parsed \<Rightarrow> Some (parsed div 1000 * 1000))"

definition matchesIfNoneMatch :: "string \<Rightarrow> string \<Rightarrow> bool" where
  "matchesIfNoneMatch header currentETag =
     (if trim header = ''*'' then True
      else case parseEntityTagList header of
          None \<Rightarrow> False
        | Some tags \<Rightarrow>
            (case parseEntityTag currentETag of
               None \<Rightarrow> False
             | Some current \<Rightarrow> list_ex (\<lambda>tag. weakMatch tag current) tags))"

definition evaluateReadPreconditions ::
  "(string \<Rightarrow> int option) \<Rightarrow> string option \<Rightarrow> string option \<Rightarrow> validators \<Rightarrow> read_precondition" where
  "evaluateReadPreconditions date_parse ifNoneMatch ifModifiedSince v =
     (case ifNoneMatch of
        Some header \<Rightarrow> if matchesIfNoneMatch header (va_etag v) then NotModified else Proceed
      | None \<Rightarrow>
          (case (ifModifiedSince, va_lastModified v) of
             (Some header, Some lastModified) \<Rightarrow>
               (case parseHttpDate date_parse header of
                  None \<Rightarrow> Proceed
                | Some since \<Rightarrow> if truncateToSeconds lastModified \<le> since then NotModified else Proceed)
           | _ \<Rightarrow> Proceed))"

definition shouldApplyRange :: "(string \<Rightarrow> int option) \<Rightarrow> string option \<Rightarrow> validators \<Rightarrow> bool" where
  "shouldApplyRange date_parse ifRange v =
     (case ifRange of
        None \<Rightarrow> True
      | Some header \<Rightarrow>
          (case parseEntityTag header of
             Some tag \<Rightarrow>
               (case parseEntityTag (va_etag v) of None \<Rightarrow> False | Some current \<Rightarrow> strongMatch tag current)
           | None \<Rightarrow>
               (case (parseHttpDate date_parse header, va_lastModified v) of
                  (Some date, Some lastModified) \<Rightarrow> truncateToSeconds lastModified = date
                | _ \<Rightarrow> False)))"

section \<open>Version tags and If-Match\<close>

definition MAX_VERSION :: int where "MAX_VERSION = 2147483647"

datatype precondition = AnyVersion | Versions "nat list"

datatype if_match_error = NotATagList | WeakTag

definition formatETag :: "int \<Rightarrow> string option" where
  "formatETag version =
     (if version < 1 \<or> MAX_VERSION < version then None
      else Some ([CHR 0x22] @ show_nat (nat version) @ [CHR 0x22]))"

definition version_tag_pattern :: "string \<Rightarrow> bool" where
  "version_tag_pattern s \<longleftrightarrow> 1 \<le> length s \<and> length s \<le> 10 \<and> list_all is_digit s \<and> hd s \<noteq> CHR ''0''"

definition toVersion :: "string \<Rightarrow> nat option" where
  "toVersion val =
     (if \<not> version_tag_pattern val then None
      else if int (of_digits val) \<le> MAX_VERSION then Some (of_digits val) else None)"

definition parseIfMatch :: "string \<Rightarrow> if_match_error + precondition" where
  "parseIfMatch header =
     (let trimmed = trim header in
      if trimmed = ''*'' then Inr AnyVersion
      else case parseEntityTagList trimmed of
          None \<Rightarrow> Inl NotATagList
        | Some tags \<Rightarrow>
            if list_ex et_weak tags then Inl WeakTag
            else Inr (Versions (List.map_filter (\<lambda>tag. toVersion (et_value tag)) tags)))"

datatype precondition_error = PreconditionRequired | PreconditionMalformed if_match_error

definition requireIfMatch :: "string option \<Rightarrow> precondition_error + precondition" where
  "requireIfMatch header =
     (case header of
        None \<Rightarrow> Inl PreconditionRequired
      | Some h \<Rightarrow>
          if trim h = [] then Inl PreconditionRequired
          else case parseIfMatch h of
              Inl reason \<Rightarrow> Inl (PreconditionMalformed reason)
            | Inr p \<Rightarrow> Inr p)"

section \<open>Reading what was written\<close>

lemma read_opaque_complete:
  assumes "\<forall>c \<in> set val. isEtagChar (code c)"
  shows "read_opaque weak (CHR 0x22 # val @ CHR 0x22 # rest) = Some (\<lparr>et_weak = weak, et_value = val\<rparr>, rest)"
proof -
  have no_quote: "\<forall>c \<in> set val. c \<noteq> CHR 0x22"
    using assms quote_not_etag_char by blast
  have "takeWhile (\<lambda>c. c \<noteq> CHR 0x22) (val @ CHR 0x22 # rest) = val"
    "dropWhile (\<lambda>c. c \<noteq> CHR 0x22) (val @ CHR 0x22 # rest) = CHR 0x22 # rest"
    using no_quote by (simp_all add: takeWhile_append2 dropWhile_append2)
  then show ?thesis
    using assms by (simp add: read_opaque_def list_all_iff)
qed

lemma readEntityTag_format:
  assumes "wf_tag tag"
  shows "readEntityTag (formatEntityTag tag @ rest) = Some (tag, rest)"
  using assms read_opaque_complete [of "et_value tag" _ rest]
  by (cases tag) (auto simp: readEntityTag_def formatEntityTag_def wf_tag_def)

lemma readEntityTag_wf: "readEntityTag s = Some (tag, rest) \<Longrightarrow> wf_tag tag"
  unfolding readEntityTag_def using read_opaque_sound by (metis (no_types))

lemma parseEntityTag_format:
  assumes "wf_tag tag"
  shows "parseEntityTag (formatEntityTag tag) = Some tag"
proof -
  have "trim (formatEntityTag tag) = formatEntityTag tag"
    by (rule trim_id) (simp add: formatEntityTag_def is_ws_def code_def)
  then show ?thesis
    using readEntityTag_format [OF assms, of "[]"] by (simp add: parseEntityTag_def)
qed

lemma skipSeparators_format: "skipSeparators (formatEntityTag tag @ rest) = formatEntityTag tag @ rest"
  by (subst skipSeparators.simps) (simp add: formatEntityTag_def skipOws_def is_ows_def code_def)

lemma skipSeparators_comma: "skipSeparators ('', '' @ s) = skipSeparators s"
proof -
  have "skipOws (CHR '' '' # s) = skipOws s"
    by (simp add: skipOws_def is_ows_def)
  then have "skipSeparators (CHR '' '' # s) = skipSeparators s"
    by (subst (1 2) skipSeparators.simps) simp
  then show ?thesis
    by (subst skipSeparators.simps) (simp add: skipOws_def is_ows_def code_def)
qed

lemma formatEntityTag_not_Nil [simp]: "formatEntityTag tag \<noteq> []"
  by (simp add: formatEntityTag_def)

lemma tag_loop_last:
  assumes "wf_tag tag"
  shows "tag_loop (formatEntityTag tag) = Some [tag]"
  using readEntityTag_format [OF assms, of "[]"]
  by (subst tag_loop.simps) (simp add: skipOws_def)

lemma tag_loop_cons:
  assumes "wf_tag tag"
  shows "tag_loop (formatEntityTag tag @ '', '' @ s) = map_option ((#) tag) (tag_loop (skipSeparators s))"
proof -
  have "skipOws ('', '' @ s) = CHR '','' # CHR '' '' # s"
    by (simp add: skipOws_def is_ows_def code_def)
  then show ?thesis
    using readEntityTag_format [OF assms, of "'', '' @ s"] skipSeparators_comma [of s]
    by (subst tag_loop.simps) simp
qed

lemma tag_loop_join:
  "tags \<noteq> [] \<Longrightarrow> \<forall>tag \<in> set tags. wf_tag tag \<Longrightarrow>
   tag_loop (skipSeparators (join '', '' (map formatEntityTag tags))) = Some tags"
proof (induction tags)
  case (Cons tag tags)
  show ?case
  proof (cases tags)
    case Nil
    then show ?thesis
      using Cons.prems skipSeparators_format [of tag "[]"] by (simp add: tag_loop_last)
  next
    case (Cons next_tag more_tags)
    then have "join '', '' (map formatEntityTag (tag # tags)) =
        formatEntityTag tag @ '', '' @ join '', '' (map formatEntityTag tags)"
      by simp
    moreover have "tag_loop (skipSeparators (join '', '' (map formatEntityTag tags))) = Some tags"
      using Cons.IH Cons.prems Cons by simp
    moreover have "wf_tag tag"
      using Cons.prems by simp
    ultimately show ?thesis
      by (simp only: skipSeparators_format tag_loop_cons option.map)
  qed
qed simp

lemma parseEntityTagList_join:
  "tags \<noteq> [] \<Longrightarrow> \<forall>tag \<in> set tags. wf_tag tag \<Longrightarrow>
   parseEntityTagList (join '', '' (map formatEntityTag tags)) = Some tags"
  by (simp add: parseEntityTagList_def tag_loop_join)

section \<open>Version tags\<close>

lemma show_of_digits_snoc:
  assumes "is_digit c" "0 < n"
  shows "show_nat (10 * n + (code c - 48)) = show_nat n @ [c]"
proof -
  have "code c - 48 < 10" and "digit (code c - 48) = c"
    using assms by (auto simp: is_digit_def digit_def code_def)
  then show ?thesis
    using assms by (simp add: show_nat.simps [of "10 * n + (code c - 48)"])
qed

lemma show_of_digits:
  "s \<noteq> [] \<Longrightarrow> \<forall>c \<in> set s. is_digit c \<Longrightarrow> hd s \<noteq> CHR ''0'' \<Longrightarrow> 0 < of_digits s \<and> show_nat (of_digits s) = s"
proof (induction s rule: rev_induct)
  case (snoc c s)
  show ?case
  proof (cases "s = []")
    case True
    have "is_digit c" "code c \<noteq> 48"
      using snoc.prems True code_inject [of c "CHR ''0''"] by (auto simp: code_def)
    moreover from this have "digit (code c - 48) = c"
      by (simp add: digit_def is_digit_def code_def)
    ultimately show ?thesis
      using True less_diff_conv2 [of 48 "code c" 10] by (auto simp: is_digit_def of_digits_def show_nat.simps)
  next
    case False
    then show ?thesis
      using snoc show_of_digits_snoc [of c "of_digits s"] by (simp add: of_digits_snoc)
  qed
qed simp

lemma hd_show_nat: "0 < n \<Longrightarrow> hd (show_nat n) \<noteq> CHR ''0''"
proof (induction n rule: show_nat.induct)
  case (1 n)
  show ?case
  proof (cases "n < 10")
    case True
    then have "code (digit n) \<noteq> 48"
      using 1 by simp
    then have "digit n \<noteq> CHR ''0''"
      by (auto simp: code_def)
    then show ?thesis
      using True by (subst show_nat.simps) simp
  next
    case False
    then show ?thesis
      using 1 by (subst show_nat.simps) simp
  qed
qed

text \<open>A tag names the version \<open>v\<close> exactly when it is the tag \<open>formatETag\<close> writes for \<open>v\<close>.\<close>

lemma toVersion_iff:
  "toVersion val = Some v \<longleftrightarrow> formatETag (int v) = Some ([CHR 0x22] @ val @ [CHR 0x22])"
proof
  assume "toVersion val = Some v"
  then have "version_tag_pattern val" and v: "v = of_digits val" "int v \<le> MAX_VERSION"
    by (auto simp: toVersion_def split: if_splits)
  moreover from this have "0 < of_digits val \<and> show_nat (of_digits val) = val"
    by (intro show_of_digits) (auto simp: version_tag_pattern_def list_all_iff)
  ultimately show "formatETag (int v) = Some ([CHR 0x22] @ val @ [CHR 0x22])"
    by (simp add: formatETag_def)
next
  assume "formatETag (int v) = Some ([CHR 0x22] @ val @ [CHR 0x22])"
  then have v: "0 < v" "int v \<le> MAX_VERSION" and val: "val = show_nat v"
    by (auto simp: formatETag_def split: if_splits)
  then have "length val \<le> 10"
    using length_show_nat [of v 10] by (simp add: MAX_VERSION_def)
  moreover have "val \<noteq> []"
    by (simp add: val)
  ultimately show "toVersion val = Some v"
    using v val show_nat_digits [of v] hd_show_nat [of v]
    by (simp add: toVersion_def version_tag_pattern_def list_all_iff Suc_le_eq)
qed

lemma trim_tag_list:
  assumes "tags \<noteq> []"
  shows "trim (join '', '' (map formatEntityTag tags)) = join '', '' (map formatEntityTag tags)"
proof -
  let ?j = "join '', '' (map formatEntityTag tags)"
  have "\<not> is_ws (hd ?j) \<and> \<not> is_ws (last ?j) \<and> ?j \<noteq> []"
    using assms
  proof (induction tags)
    case (Cons tag tags)
    then show ?case
      by (cases tags) (auto simp: formatEntityTag_def is_ws_def code_def)
  qed simp
  then show ?thesis
    by (intro trim_id) simp
qed

lemma tag_list_not_star:
  assumes "tags \<noteq> []"
  shows "join '', '' (map formatEntityTag tags) \<noteq> ''*''" "join '', '' (map formatEntityTag tags) \<noteq> []"
proof -
  obtain tag rest where "join '', '' (map formatEntityTag tags) = formatEntityTag tag @ rest"
    using assms by (cases tags rule: remdups_adj.cases) auto
  then show "join '', '' (map formatEntityTag tags) \<noteq> ''*''" "join '', '' (map formatEntityTag tags) \<noteq> []"
    by (auto simp: formatEntityTag_def)
qed

section \<open>Properties\<close>

text \<open>
  A list of entity tags written with \<open>formatEntityTag\<close> and joined by commas is read back by
  \<open>parseEntityTagList\<close> tag for tag, weakness included, also when a tag itself has a comma in it.
\<close>

lemma tag_list_roundtrip:
  assumes "tags \<noteq> []" and "\<forall>tag \<in> set tags. wf_tag tag"
  shows "parseEntityTagList (join '', '' (map formatEntityTag tags)) = Some tags"
  by (rule parseEntityTagList_join [OF assms])

text \<open>
  An \<open>If-Match\<close> list with a weak tag in it is refused as malformed, and one of strong tags
  becomes exactly the versions whose \<open>formatETag\<close> tag is octet for octet in the list: a tag such
  as \<open>"007"\<close> or one past the column's maximum names no version.
\<close>

lemma if_match_exact:
  assumes "tags \<noteq> []" and "\<forall>tag \<in> set tags. wf_tag tag"
  shows "if list_ex et_weak tags
         then requireIfMatch (Some (join '', '' (map formatEntityTag tags))) = Inl (PreconditionMalformed WeakTag)
         else \<exists>vs. requireIfMatch (Some (join '', '' (map formatEntityTag tags))) = Inr (Versions vs) \<and>
           (\<forall>v. v \<in> set vs \<longleftrightarrow> (\<exists>tag \<in> set tags. formatETag (int v) = Some (formatEntityTag tag)))"
proof -
  let ?j = "join '', '' (map formatEntityTag tags)"
  let ?vs = "List.map_filter (\<lambda>tag. toVersion (et_value tag)) tags"
  have read: "requireIfMatch (Some ?j) =
      (if list_ex et_weak tags then Inl (PreconditionMalformed WeakTag) else Inr (Versions ?vs))"
    using trim_tag_list [OF assms(1)] tag_list_not_star [OF assms(1)] parseEntityTagList_join [OF assms]
    by (simp add: requireIfMatch_def parseIfMatch_def)
  moreover have "v \<in> set ?vs \<longleftrightarrow> (\<exists>tag \<in> set tags. formatETag (int v) = Some (formatEntityTag tag))"
    if "\<not> list_ex et_weak tags" for v
  proof -
    have "v \<in> set ?vs \<longleftrightarrow> (\<exists>tag \<in> set tags. toVersion (et_value tag) = Some v)"
      by (force simp: List.map_filter_def)
    then show ?thesis
      using that by (simp add: toVersion_iff formatEntityTag_def list_ex_iff)
  qed
  ultimately show ?thesis
    by auto
qed

text \<open>
  The two comparisons of RFC 9110 are used where they must be. With \<open>If-None-Match\<close> a stored
  copy is current exactly when some listed tag has the current tag's value, weak or not, and
  \<open>If-Modified-Since\<close> has no say; with \<open>If-Range\<close> the range applies exactly when the tag given is
  the current tag and neither is weak.
\<close>

lemma conditional_comparisons:
  assumes "tags \<noteq> []" and "\<forall>tag \<in> set tags. wf_tag tag" and "wf_tag current"
    and "va_etag v = formatEntityTag current"
  shows "(evaluateReadPreconditions date_parse (Some (join '', '' (map formatEntityTag tags))) ifModifiedSince v = NotModified
           \<longleftrightarrow> et_value current \<in> et_value ` set tags)
    \<and> (shouldApplyRange date_parse (Some (formatEntityTag (hd tags))) v \<longleftrightarrow>
           hd tags = current \<and> \<not> et_weak current)"
proof (rule conjI)
  have "trim (join '', '' (map formatEntityTag tags)) \<noteq> ''*''"
    using trim_tag_list [OF assms(1)] tag_list_not_star [OF assms(1)] by simp
  then show "evaluateReadPreconditions date_parse (Some (join '', '' (map formatEntityTag tags))) ifModifiedSince v = NotModified
      \<longleftrightarrow> et_value current \<in> et_value ` set tags"
    using assms parseEntityTagList_join [OF assms(1,2)] parseEntityTag_format [OF assms(3)]
    by (auto simp: evaluateReadPreconditions_def matchesIfNoneMatch_def weakMatch_def list_ex_iff
        intro: rev_image_eqI)
  have "wf_tag (hd tags)"
    using assms by simp
  then show "shouldApplyRange date_parse (Some (formatEntityTag (hd tags))) v \<longleftrightarrow>
      hd tags = current \<and> \<not> et_weak current"
    using assms(4) parseEntityTag_format [of "hd tags"] parseEntityTag_format [OF assms(3)]
    by (cases "hd tags"; cases current) (auto simp: shouldApplyRange_def strongMatch_def)
qed

end
