(* ===== verification/Byte_Range.thy ===== *)
theory Byte_Range
  imports Entity_Tag
begin

text \<open>
  Range requests (\<open>http/range.ts\<close>) and the handler that answers a GET or HEAD with part of a
  representation (\<open>http/byte-range.ts\<close>), with the envelope of \<open>lib/response.ts\<close>. The storage
  behind a source and the outcome of piping its stream into the socket are parameters. A number
  that the code tests to be a safe integer is an \<open>int\<close>.
\<close>

section \<open>The Range grammar\<close>

record byte_range =
  br_start :: int
  br_end :: int

datatype range_spec = IntRange nat "nat option" | SuffixRange nat

datatype range_resolution = Ignore | Unsatisfiable | Satisfied byte_range

definition MAX_POSITION_DIGITS :: nat where "MAX_POSITION_DIGITS = 15"

definition is_digits :: "string \<Rightarrow> bool" where
  "is_digits s \<longleftrightarrow> s \<noteq> [] \<and> list_all is_digit s"

text \<open>\<open>text.replace(/^0+(?=[0-9])/, '')\<close>: the last character is never taken away.\<close>

fun strip_zeros :: "string \<Rightarrow> string" where
  "strip_zeros (c # d # cs) = (if c = CHR ''0'' then strip_zeros (d # cs) else c # d # cs)"
| "strip_zeros s = s"

definition parsePosition :: "string \<Rightarrow> nat option" where
  "parsePosition s =
     (if \<not> is_digits s then None
      else let digits = strip_zeros s in
        Some (if length digits > MAX_POSITION_DIGITS then MAX_SAFE_INTEGER else of_digits digits))"

definition parseRangeSpec :: "string \<Rightarrow> range_spec option" where
  "parseRangeSpec part =
     (case index_of (CHR ''-'') part of
        None \<Rightarrow> None
      | Some hyphen \<Rightarrow>
          let before = take hyphen part; after = drop (hyphen + 1) part in
          if before = [] then map_option SuffixRange (parsePosition after)
          else case parsePosition before of
              None \<Rightarrow> None
            | Some first \<Rightarrow>
                if after = [] then Some (IntRange first None)
                else case parsePosition after of
                    None \<Rightarrow> None
                  | Some last_pos \<Rightarrow> if last_pos < first then None else Some (IntRange first (Some last_pos)))"

fun parse_parts :: "string list \<Rightarrow> range_spec list option" where
  "parse_parts [] = Some []"
| "parse_parts (raw # rest) =
     (let part = trim raw in
      if part = [] then parse_parts rest
      else case parseRangeSpec part of
          None \<Rightarrow> None
        | Some spec \<Rightarrow> map_option ((#) spec) (parse_parts rest))"

definition parseRangeHeader :: "string \<Rightarrow> range_spec list option" where
  "parseRangeHeader header =
     (case index_of (CHR ''='') header of
        None \<Rightarrow> None
      | Some equals \<Rightarrow>
          if toLowerCase (trim (take equals header)) \<noteq> ''bytes'' then None
          else case parse_parts (split_on (CHR '','') (drop (equals + 1) header)) of
              None \<Rightarrow> None
            | Some specs \<Rightarrow> if 0 < length specs then Some specs else None)"

text \<open>\<open>None\<close> is the \<open>RangeError\<close> for a size that is no size.\<close>

definition resolveRange :: "range_spec list \<Rightarrow> int \<Rightarrow> range_resolution option" where
  "resolveRange specs sz =
     (if \<bar>sz\<bar> > int MAX_SAFE_INTEGER \<or> sz < 0 then None
      else Some (case specs of
          [SuffixRange len] \<Rightarrow>
            if len = 0 \<or> sz = 0 then Unsatisfiable
            else Satisfied \<lparr>br_start = max 0 (sz - int len), br_end = sz - 1\<rparr>
        | [IntRange first last_pos] \<Rightarrow>
            if int first \<ge> sz then Unsatisfiable
            else Satisfied \<lparr>br_start = int first,
                br_end = (case last_pos of None \<Rightarrow> sz - 1 | Some l \<Rightarrow> min (int l) (sz - 1))\<rparr>
        | _ \<Rightarrow> Ignore))"

definition show_int :: "int \<Rightarrow> string" where
  "show_int n = (if n < 0 then CHR ''-'' # show_nat (nat (- n)) else show_nat (nat n))"

definition formatContentRange :: "byte_range \<Rightarrow> int \<Rightarrow> string" where
  "formatContentRange rng sz =
     ''bytes '' @ show_int (br_start rng) @ ''-'' @ show_int (br_end rng) @ ''/'' @ show_int sz"

definition formatUnsatisfiedRange :: "int \<Rightarrow> string" where
  "formatUnsatisfiedRange sz = ''bytes */'' @ show_int sz"

definition rangeLength :: "byte_range \<Rightarrow> int" where
  "rangeLength rng = br_end rng - br_start rng + 1"

section \<open>The response\<close>

record api_error =
  ae_code :: string
  ae_message :: string

record api_response =
  ar_data :: "string option"
  ar_error :: "api_error option"

definition fail :: "string \<Rightarrow> string \<Rightarrow> api_response" where
  "fail c message = \<lparr>ar_data = None, ar_error = Some \<lparr>ae_code = c, ae_message = message\<rparr>\<rparr>"

text \<open>
  What goes out: nothing, the envelope, the bytes of a stream that was piped to its end, or a
  connection that was cut.
\<close>

datatype 'b body = NoBody | Json api_response | Bytes "'b list" | Cut

record 'b response =
  rs_status :: nat
  rs_headers :: "(string, string) js_map"
  rs_body :: "'b body"

definition fresh_response :: "'b response" where
  "fresh_response = \<lparr>rs_status = 200, rs_headers = [], rs_body = NoBody\<rparr>"

definition setHeader :: "string \<Rightarrow> string \<Rightarrow> 'b response \<Rightarrow> 'b response" where
  "setHeader name value res = res\<lparr>rs_headers := js_set name value (rs_headers res)\<rparr>"

definition sendFail :: "'b response \<Rightarrow> nat \<Rightarrow> string \<Rightarrow> string \<Rightarrow> 'b response" where
  "sendFail res statusCode c message = res\<lparr>rs_status := statusCode, rs_body := Json (fail c message)\<rparr>"

section \<open>Sending part of a representation\<close>

datatype header_value = OneValue string | ManyValues "string list"

record request =
  rq_verb :: string
  rq_headers :: "(string, header_value) js_map"

definition headerValue :: "request \<Rightarrow> string \<Rightarrow> string option" where
  "headerValue req name =
     (case js_get (rq_headers req) name of
        None \<Rightarrow> None
      | Some (OneValue v) \<Rightarrow> Some v
      | Some (ManyValues vs) \<Rightarrow> (case vs of [] \<Rightarrow> None | v # _ \<Rightarrow> Some v))"

text \<open>
  A source: \<open>bs_open\<close> yields the bytes of the stream it opens, or the error it fails with.
\<close>

record ('b, 'e) byte_source =
  bs_size :: int
  bs_etag :: string
  bs_contentType :: string
  bs_lastModified :: "int option"
  bs_open :: "byte_range \<Rightarrow> 'e + 'b list"

definition source_validators :: "('b, 'e) byte_source \<Rightarrow> validators" where
  "source_validators source = \<lparr>va_etag = bs_etag source, va_lastModified = bs_lastModified source\<rparr>"

definition resolveRequestedRange ::
  "(string \<Rightarrow> int option) \<Rightarrow> request \<Rightarrow> int \<Rightarrow> validators \<Rightarrow> range_resolution option" where
  "resolveRequestedRange date_parse req sz v =
     (case headerValue req ''range'' of
        None \<Rightarrow> Some Ignore
      | Some header \<Rightarrow>
          if rq_verb req \<noteq> ''GET'' \<and> rq_verb req \<noteq> ''HEAD'' then Some Ignore
          else if \<not> shouldApplyRange date_parse (headerValue req ''if-range'') v then Some Ignore
          else case parseRangeHeader header of
              None \<Rightarrow> Some Ignore
            | Some specs \<Rightarrow> resolveRange specs sz)"

text \<open>How \<open>pipeline\<close> ends: all bytes out, or an error with its code if it has one.\<close>

datatype 'e pipe_end = Piped | PipeError 'e "string option" bool

definition isPrematureClose :: "string option \<Rightarrow> bool" where
  "isPrematureClose c \<longleftrightarrow> c = Some ''ERR_STREAM_PREMATURE_CLOSE'' \<or> c = Some ''ERR_STREAM_UNABLE_TO_PIPE''"

datatype 'e thrown = OpenFailed 'e | PipeFailed 'e | BadSize

definition DEFAULT_CACHE_CONTROL :: string where
  "DEFAULT_CACHE_CONTROL = ''private, no-cache''"

text \<open>The headers every answer carries.\<close>

definition common_headers ::
  "(int \<Rightarrow> string) \<Rightarrow> string option \<Rightarrow> ('b, 'e) byte_source \<Rightarrow> 'b response \<Rightarrow> 'b response" where
  "common_headers toUTCString cacheControl source res =
     (let res = setHeader ''Accept-Ranges'' ''bytes'' res;
          res = setHeader ''ETag'' (bs_etag source) res;
          res = setHeader ''Cache-Control'' (case cacheControl of None \<Rightarrow> DEFAULT_CACHE_CONTROL | Some c \<Rightarrow> c) res
      in case bs_lastModified source of
          None \<Rightarrow> res
        | Some date \<Rightarrow> setHeader ''Last-Modified'' (toUTCString date) res)"

definition commitHead ::
  "bool \<Rightarrow> byte_range \<Rightarrow> int \<Rightarrow> ('b, 'e) byte_source \<Rightarrow> 'b response \<Rightarrow> 'b response" where
  "commitHead partial rng len source res =
     (let res = res\<lparr>rs_status := if partial then 206 else 200\<rparr>;
          res = setHeader ''Content-Type'' (bs_contentType source) res;
          res = setHeader ''Content-Length'' (show_int len) res
      in if partial then setHeader ''Content-Range'' (formatContentRange rng (bs_size source)) res else res)"

text \<open>The transfer after \<open>open\<close> has succeeded.\<close>

definition transfer :: "('b list \<Rightarrow> 'e pipe_end) \<Rightarrow> 'b list \<Rightarrow> 'b response \<Rightarrow> 'b response \<times> 'e thrown option" where
  "transfer pipeline stream res =
     (case pipeline stream of
        Piped \<Rightarrow> (res\<lparr>rs_body := Bytes stream\<rparr>, None)
      | PipeError err c headersSent \<Rightarrow>
          if isPrematureClose c then (res\<lparr>rs_body := Cut\<rparr>, None)
          else if headersSent then (res\<lparr>rs_body := Cut\<rparr>, None)
          else (res, Some (PipeFailed err)))"

definition sendByteRange ::
  "(string \<Rightarrow> int option) \<Rightarrow> (int \<Rightarrow> string) \<Rightarrow> ('b list \<Rightarrow> 'e pipe_end) \<Rightarrow> request \<Rightarrow> 'b response \<Rightarrow>
   ('b, 'e) byte_source \<Rightarrow> string option \<Rightarrow> 'b response \<times> 'e thrown option" where
  "sendByteRange date_parse toUTCString pipeline req res source cacheControl =
     (let v = source_validators source;
          res = common_headers toUTCString cacheControl source res
      in case evaluateReadPreconditions date_parse (headerValue req ''if-none-match'')
                (headerValue req ''if-modified-since'') v of
          NotModified \<Rightarrow> (res\<lparr>rs_status := 304, rs_body := NoBody\<rparr>, None)
        | Proceed \<Rightarrow>
            (case resolveRequestedRange date_parse req (bs_size source) v of
               None \<Rightarrow> (res, Some BadSize)
             | Some Unsatisfiable \<Rightarrow>
                 (sendFail (setHeader ''Content-Range'' (formatUnsatisfiedRange (bs_size source)) res) 416
                    ''RANGE_NOT_SATISFIABLE''
                    (''The requested range cannot be satisfied by a '' @ show_int (bs_size source) @
                     ''-byte representation''), None)
             | Some resolution \<Rightarrow>
                 let partial = (resolution \<noteq> Ignore);
                     rng = (case resolution of Satisfied r \<Rightarrow> r | _ \<Rightarrow> \<lparr>br_start = 0, br_end = bs_size source - 1\<rparr>);
                     len = (if partial then rangeLength rng else bs_size source)
                 in if rq_verb req = ''HEAD'' \<or> len = 0
                    then ((commitHead partial rng len source res)\<lparr>rs_body := NoBody\<rparr>, None)
                    else case bs_open source rng of
                        Inl err \<Rightarrow> (res, Some (OpenFailed err))
                      | Inr stream \<Rightarrow> transfer pipeline stream (commitHead partial rng len source res)))"

section \<open>Positions\<close>

lemma of_digits_Cons_zero: "of_digits (CHR ''0'' # s) = of_digits s"
  by (simp add: of_digits_def code_def)

lemma strip_zeros_props:
  "s \<noteq> [] \<Longrightarrow> \<forall>c \<in> set s. is_digit c \<Longrightarrow>
   of_digits (strip_zeros s) = of_digits s \<and> strip_zeros s \<noteq> [] \<and> (\<forall>c \<in> set (strip_zeros s). is_digit c) \<and>
   (1 < length (strip_zeros s) \<longrightarrow> hd (strip_zeros s) \<noteq> CHR ''0'')"
  by (induction s rule: strip_zeros.induct) (auto simp: of_digits_Cons_zero)

lemma of_digits_lower:
  assumes "s \<noteq> []" "\<forall>c \<in> set s. is_digit c" "hd s \<noteq> CHR ''0''"
  shows "10 ^ (length s - 1) \<le> of_digits s"
proof (rule ccontr)
  assume less: "\<not> ?thesis"
  have s: "show_nat (of_digits s) = s" "0 < of_digits s"
    using show_of_digits [OF assms] by auto
  show False
  proof (cases "length s = 1")
    case True
    then show False using less s by simp
  next
    case False
    then have "0 < length s - 1" using assms(1) by (cases s) auto
    then have "length (show_nat (of_digits s)) \<le> length s - 1"
      using less by (intro length_show_nat) auto
    then show False using s assms(1) by (cases s) auto
  qed
qed

text \<open>
  A position is read exactly below \<open>10\<^sup>1\<^sup>5\<close>, and as \<open>MAX_SAFE_INTEGER\<close> from there on.
\<close>

lemma parsePosition_exact:
  assumes "is_digits s"
  shows "parsePosition s = Some (if of_digits s < 10 ^ 15 then of_digits s else MAX_SAFE_INTEGER)"
proof -
  let ?d = "strip_zeros s"
  have d: "of_digits ?d = of_digits s" "?d \<noteq> []" "\<forall>c \<in> set ?d. is_digit c"
    "1 < length ?d \<Longrightarrow> hd ?d \<noteq> CHR ''0''"
    using strip_zeros_props [of s] assms by (auto simp: is_digits_def list_all_iff)
  have "15 < length ?d \<longleftrightarrow> 10 ^ 15 \<le> of_digits s"
  proof
    assume long: "15 < length ?d"
    then have "10 ^ (length ?d - 1) \<le> of_digits s"
      using of_digits_lower [of ?d] d by simp
    moreover have "(10::nat) ^ 15 \<le> 10 ^ (length ?d - 1)"
      using long by (intro power_increasing) auto
    ultimately show "10 ^ 15 \<le> of_digits s"
      by linarith
  next
    assume big: "10 ^ 15 \<le> of_digits s"
    show "15 < length ?d"
    proof (rule ccontr)
      assume "\<not> ?thesis"
      then have "(10::nat) ^ length ?d \<le> 10 ^ 15"
        by (intro power_increasing) auto
      then show False
        using of_digits_bound [of ?d] d big by linarith
    qed
  qed
  then show ?thesis
    using assms d(1) by (auto simp: parsePosition_def MAX_POSITION_DIGITS_def)
qed

lemma digits_plain:
  assumes "is_digits s"
  shows "CHR ''-'' \<notin> set s" "CHR '','' \<notin> set s" "\<forall>c \<in> set s. \<not> is_ws c"
  using assms is_digit_not_ws by (auto simp: is_digits_def list_all_iff is_digit_def code_def)

section \<open>What a range names\<close>

text \<open>
  The bytes that \<open>a-b\<close> names of a representation of \<open>sz\<close> bytes, read off the numerals as
  they stand: from \<open>a\<close> to \<open>b\<close>, from \<open>a\<close> on, or the last \<open>b\<close>.
\<close>

definition named_bytes :: "string \<Rightarrow> string \<Rightarrow> int \<Rightarrow> int set" where
  "named_bytes a b sz =
     (if a = [] then {max 0 (sz - int (of_digits b)) ..< sz}
      else if b = [] then {int (of_digits a) ..< sz}
      else {int (of_digits a) .. min (int (of_digits b)) (sz - 1)})"

definition wf_range_text :: "string \<Rightarrow> string \<Rightarrow> bool" where
  "wf_range_text a b \<longleftrightarrow>
     (if a = [] then is_digits b
      else is_digits a \<and> (b = [] \<or> is_digits b \<and> of_digits a \<le> of_digits b))"

definition clamp :: "nat \<Rightarrow> nat" where
  "clamp n = (if n < 10 ^ 15 then n else MAX_SAFE_INTEGER)"

definition range_of_text :: "string \<Rightarrow> string \<Rightarrow> range_spec" where
  "range_of_text a b =
     (if a = [] then SuffixRange (clamp (of_digits b))
      else IntRange (clamp (of_digits a)) (if b = [] then None else Some (clamp (of_digits b))))"

lemma clamp_mono: "m \<le> n \<Longrightarrow> clamp m \<le> clamp n"
  by (simp add: clamp_def MAX_SAFE_INTEGER_def)

lemma parseRangeSpec_text:
  assumes "wf_range_text a b"
  shows "parseRangeSpec (a @ CHR ''-'' # b) = Some (range_of_text a b)"
proof -
  have "CHR ''-'' \<notin> set a"
    using assms digits_plain(1) by (auto simp: wf_range_text_def split: if_splits)
  then have "index_of (CHR ''-'') (a @ CHR ''-'' # b) = Some (length a)"
    by (rule index_of_append)
  then show ?thesis
    using assms clamp_mono [of "of_digits a" "of_digits b"]
    by (auto simp: parseRangeSpec_def parsePosition_exact wf_range_text_def range_of_text_def clamp_def
        split: if_splits)
qed

lemma parseRangeHeader_text:
  assumes "wf_range_text a b"
  shows "parseRangeHeader (''bytes='' @ a @ CHR ''-'' # b) = Some [range_of_text a b]"
proof -
  let ?p = "a @ CHR ''-'' # b"
  have plain: "\<forall>c \<in> set ?p. \<not> is_ws c" "CHR '','' \<notin> set ?p"
    using assms digits_plain [of a] digits_plain [of b]
    by (auto simp: wf_range_text_def is_ws_def code_def split: if_splits)
  have "split_on (CHR '','') ?p = [?p]" "trim ?p = ?p"
    by (rule split_on_single [OF plain(2)], rule trim_no_ws [OF plain(1)])
  moreover have "toLowerCase (trim ''bytes'') = ''bytes''"
    by (simp add: toLowerCase_def lower_char_def trim_def is_ws_def code_def)
  ultimately show ?thesis
    using parseRangeSpec_text [OF assms] by (simp add: parseRangeHeader_def)
qed

definition resolution_names :: "range_resolution \<Rightarrow> int set \<Rightarrow> bool" where
  "resolution_names resolution bytes \<longleftrightarrow>
     (case resolution of
        Ignore \<Rightarrow> False
      | Unsatisfiable \<Rightarrow> bytes = {}
      | Satisfied r \<Rightarrow> bytes \<noteq> {} \<and> {br_start r .. br_end r} = bytes)"

lemma clamp_compare:
  assumes "sz \<le> 10 ^ 15"
  shows "sz \<le> int (clamp n) \<longleftrightarrow> sz \<le> int n"
    and "min (int (clamp n)) (sz - 1) = min (int n) (sz - 1)"
    and "max 0 (sz - int (clamp n)) = max 0 (sz - int n)"
    and "\<not> sz \<le> int n \<Longrightarrow> clamp n = n"
    and "clamp n = 0 \<longleftrightarrow> n = 0"
  using assms by (auto simp: clamp_def MAX_SAFE_INTEGER_def)

lemma half_open_interval: "{x ..< y} = {x .. y - 1}" for x y :: int
  by auto

lemma resolve_text:
  assumes "wf_range_text a b" "0 \<le> sz" "sz \<le> 10 ^ 15"
  shows "\<exists>resolution. resolveRange [range_of_text a b] sz = Some resolution \<and>
    resolution_names resolution (named_bytes a b sz)"
proof -
  have ok: "\<not> (\<bar>sz\<bar> > int MAX_SAFE_INTEGER \<or> sz < 0)"
    using assms by (simp add: MAX_SAFE_INTEGER_def)
  note cmp = clamp_compare [OF assms(3)]
  show ?thesis
  proof (cases "a = []")
    case True
    then show ?thesis
      using ok assms(2) by (auto simp: resolveRange_def range_of_text_def named_bytes_def resolution_names_def
          cmp half_open_interval)
  next
    case False
    then show ?thesis
      using ok assms cmp(4) [of "of_digits a"]
      by (auto simp: resolveRange_def range_of_text_def named_bytes_def resolution_names_def wf_range_text_def
          cmp(1,2) half_open_interval)
  qed
qed

section \<open>The handler\<close>

lemma parseRangeSpec_ordered: "parseRangeSpec part = Some (IntRange first (Some l)) \<Longrightarrow> first \<le> l"
  by (auto simp: parseRangeSpec_def Let_def split: option.splits if_splits)

lemma parse_parts_ordered:
  "parse_parts parts = Some specs \<Longrightarrow> IntRange first (Some l) \<in> set specs \<Longrightarrow> first \<le> l"
proof (induction parts arbitrary: specs)
  case (Cons raw rest)
  then show ?case
    by (auto simp: Let_def split: if_splits option.splits dest: parseRangeSpec_ordered)
qed simp

definition in_bounds :: "int \<Rightarrow> byte_range \<Rightarrow> bool" where
  "in_bounds sz r \<longleftrightarrow> 0 \<le> br_start r \<and> br_start r \<le> br_end r \<and> br_end r < sz"

lemma resolve_in_bounds:
  assumes "parseRangeHeader header = Some specs" "resolveRange specs sz = Some (Satisfied r)"
  shows "in_bounds sz r"
proof -
  have ordered: "first \<le> l" if "IntRange first (Some l) \<in> set specs" for first l
    using assms(1) that parse_parts_ordered
    by (auto simp: parseRangeHeader_def split: option.splits if_splits)
  show ?thesis
    using assms(2) ordered
    by (auto simp: resolveRange_def in_bounds_def split: if_splits list.splits range_spec.splits option.splits)
qed

lemma requested_in_bounds:
  "resolveRequestedRange date_parse req sz v = Some (Satisfied r) \<Longrightarrow> in_bounds sz r"
  using resolve_in_bounds
  by (auto simp: resolveRequestedRange_def split: option.splits if_splits)

lemma requested_sized:
  "0 \<le> sz \<Longrightarrow> sz \<le> int MAX_SAFE_INTEGER \<Longrightarrow> resolveRequestedRange date_parse req sz v \<noteq> None"
  by (auto simp: resolveRequestedRange_def resolveRange_def split: option.splits)

lemma setHeader_simps [simp]:
  "rs_status (setHeader n v res) = rs_status res"
  "rs_body (setHeader n v res) = rs_body res"
  "js_get (rs_headers (setHeader n v res)) k = (if k = n then Some v else js_get (rs_headers res) k)"
  by (auto simp: setHeader_def update_conv')

lemma common_headers_simps [simp]:
  "rs_status (common_headers u c source res) = rs_status res"
  "rs_body (common_headers u c source res) = rs_body res"
  by (simp_all add: common_headers_def Let_def split: option.splits)

lemma common_headers_content:
  "k \<in> {''Content-Type'', ''Content-Length'', ''Content-Range''} \<Longrightarrow>
   js_get (rs_headers (common_headers u c source res)) k = js_get (rs_headers res) k"
  by (auto simp: common_headers_def Let_def split: option.splits)

lemma commitHead_simps [simp]:
  "rs_status (commitHead partial r len source res) = (if partial then 206 else 200)"
  "js_get (rs_headers (commitHead partial r len source res)) ''Content-Length'' = Some (show_int len)"
  "js_get (rs_headers (commitHead partial r len source res)) ''Content-Type'' = Some (bs_contentType source)"
  "js_get (rs_headers (commitHead partial r len source res)) ''Content-Range'' =
     (if partial then Some (formatContentRange r (bs_size source)) else js_get (rs_headers res) ''Content-Range'')"
  by (simp_all add: commitHead_def Let_def)

lemma common_headers_fresh:
  "k \<in> {''Content-Type'', ''Content-Length'', ''Content-Range''} \<Longrightarrow>
   js_get (rs_headers (common_headers u c source fresh_response)) k = None"
  using common_headers_content [of k u c source fresh_response] by (simp add: fresh_response_def)

text \<open>The octets of a representation in an interval.\<close>

definition slice :: "'b list \<Rightarrow> byte_range \<Rightarrow> 'b list" where
  "slice rep r = take (nat (rangeLength r)) (drop (nat (br_start r)) rep)"

text \<open>A source that holds \<open>rep\<close> and opens what it is asked for.\<close>

definition serves :: "('b, 'e) byte_source \<Rightarrow> 'b list \<Rightarrow> bool" where
  "serves source rep \<longleftrightarrow>
     bs_size source = int (length rep) \<and> length rep \<le> MAX_SAFE_INTEGER \<and>
     (\<forall>r. in_bounds (bs_size source) r \<longrightarrow> bs_open source r = Inr (slice rep r))"

lemma slice_length: "in_bounds (int (length rep)) r \<Longrightarrow> int (length (slice rep r)) = rangeLength r"
  by (auto simp: slice_def in_bounds_def rangeLength_def min_def)

lemma slice_all: "slice rep \<lparr>br_start = 0, br_end = int (length rep) - 1\<rparr> = rep"
  by (simp add: slice_def rangeLength_def)

definition framed :: "'b list \<Rightarrow> 'b response \<Rightarrow> bool" where
  "framed rep res \<longleftrightarrow>
     (let status = rs_status res in
          if status = 206 then \<exists>r. in_bounds (int (length rep)) r \<and> rs_body res = Bytes (slice rep r) \<and>
            js_get (rs_headers res) ''Content-Range'' = Some (formatContentRange r (int (length rep))) \<and>
            js_get (rs_headers res) ''Content-Length'' = Some (show_int (int (length (slice rep r))))
          else if status = 200 then rs_body res = (if rep = [] then NoBody else Bytes rep) \<and>
            js_get (rs_headers res) ''Content-Range'' = None \<and>
            js_get (rs_headers res) ''Content-Length'' = Some (show_int (int (length rep)))
          else if status = 416 then js_get (rs_headers res) ''Content-Range'' = Some (formatUnsatisfiedRange (int (length rep)))
          else status = 304 \<and> rs_body res = NoBody \<and> js_get (rs_headers res) ''Content-Length'' = None)"

text \<open>The answer on each branch of the handler.\<close>

lemma send_not_modified:
  assumes "evaluateReadPreconditions date_parse (headerValue req ''if-none-match'')
      (headerValue req ''if-modified-since'') (source_validators source) = NotModified"
  shows "sendByteRange date_parse toUTCString pipeline req res source cacheControl =
    ((common_headers toUTCString cacheControl source res)\<lparr>rs_status := 304, rs_body := NoBody\<rparr>, None)"
  using assms by (simp add: sendByteRange_def Let_def)

lemma send_unsatisfiable:
  assumes "evaluateReadPreconditions date_parse (headerValue req ''if-none-match'')
      (headerValue req ''if-modified-since'') (source_validators source) = Proceed"
    and "resolveRequestedRange date_parse req (bs_size source) (source_validators source) = Some Unsatisfiable"
  shows "\<exists>message. sendByteRange date_parse toUTCString pipeline req res source cacheControl =
    (sendFail (setHeader ''Content-Range'' (formatUnsatisfiedRange (bs_size source))
       (common_headers toUTCString cacheControl source res)) 416 ''RANGE_NOT_SATISFIABLE'' message, None)"
  unfolding sendByteRange_def Let_def assms by (rule exI) (simp del: append.simps)

lemma send_content:
  assumes "evaluateReadPreconditions date_parse (headerValue req ''if-none-match'')
      (headerValue req ''if-modified-since'') (source_validators source) = Proceed"
    and "resolveRequestedRange date_parse req (bs_size source) (source_validators source) = Some resolution"
    and "resolution = (if partial then Satisfied r else Ignore)"
    and "\<not> partial \<Longrightarrow> r = \<lparr>br_start = 0, br_end = bs_size source - 1\<rparr>"
  shows "sendByteRange date_parse toUTCString pipeline req res source cacheControl =
    (let head = commitHead partial r (rangeLength r) source (common_headers toUTCString cacheControl source res) in
     if rq_verb req = ''HEAD'' \<or> rangeLength r = 0 then (head\<lparr>rs_body := NoBody\<rparr>, None)
     else case bs_open source r of
         Inl err \<Rightarrow> (common_headers toUTCString cacheControl source res, Some (OpenFailed err))
       | Inr stream \<Rightarrow> transfer pipeline stream head)"
proof -
  have "\<not> partial \<Longrightarrow> rangeLength r = bs_size source"
    using assms(4) by (simp add: rangeLength_def)
  then show ?thesis
    using assms by (cases partial) (simp_all add: sendByteRange_def Let_def)
qed

section \<open>Properties\<close>

text \<open>
  A single range of any length of numeral, leading zeros included, resolves against a
  representation of up to \<open>10\<^sup>1\<^sup>5\<close> bytes to exactly the bytes it names: the clamping of long
  numerals never moves an offset, and the request is unsatisfiable exactly when it names none.
\<close>

lemma range_names_its_bytes:
  assumes "wf_range_text a b" and "0 \<le> sz" and "sz \<le> 10 ^ 15"
  shows "\<exists>specs resolution. parseRangeHeader (''bytes='' @ a @ CHR ''-'' # b) = Some specs \<and>
    resolveRange specs sz = Some resolution \<and> resolution_names resolution (named_bytes a b sz)"
  using parseRangeHeader_text [OF assms(1)] resolve_text [OF assms] by blast

text \<open>
  C32: For a source that yields the bytes it is asked for, every answer to a GET is framed
  consistently. A 206 carries exactly the bytes of an interval inside the representation, and its
  \<open>Content-Range\<close> and \<open>Content-Length\<close> are that interval's; a 200 carries the whole and no
  \<open>Content-Range\<close>; a 416 states the size; a 304 has neither content nor \<open>Content-Length\<close>. Nothing
  is thrown.
\<close>

theorem get_is_framed:
  assumes "serves source rep" and "rq_verb req = ''GET''" and "\<forall>stream. pipeline stream = Piped"
    and "sendByteRange date_parse toUTCString pipeline req fresh_response source cacheControl = (res, thrown)"
  shows "framed rep res \<and> thrown = None"
proof -
  let ?head = "common_headers toUTCString cacheControl source fresh_response"
  let ?e = "evaluateReadPreconditions date_parse (headerValue req ''if-none-match'')
      (headerValue req ''if-modified-since'') (source_validators source)"
  have bytes: "bs_size source = int (length rep)" "length rep \<le> MAX_SAFE_INTEGER"
    and opens: "\<And>r. in_bounds (int (length rep)) r \<Longrightarrow> bs_open source r = Inr (slice rep r)"
    using assms(1) by (simp_all add: serves_def)
  obtain resolution where res: "resolveRequestedRange date_parse req (bs_size source) (source_validators source) = Some resolution"
    using requested_sized [of "bs_size source" date_parse req "source_validators source"] bytes by auto
  note start = common_headers_fresh [of _ toUTCString cacheControl source]
  have out: "res = fst (sendByteRange date_parse toUTCString pipeline req fresh_response source cacheControl)"
    "thrown = snd (sendByteRange date_parse toUTCString pipeline req fresh_response source cacheControl)"
    using assms(4) by simp_all
  consider "?e = NotModified" | "?e = Proceed" "resolution = Unsatisfiable" | "?e = Proceed" "resolution = Ignore"
    | r where "?e = Proceed" "resolution = Satisfied r"
    by (cases ?e; cases resolution) auto
  then show ?thesis
  proof cases
    case 1
    then show ?thesis
      unfolding out by (simp add: send_not_modified framed_def start)
  next
    case 2
    then show ?thesis
      using send_unsatisfiable [OF 2(1), of toUTCString pipeline fresh_response cacheControl] res bytes
      unfolding out by (auto simp: framed_def sendFail_def)
  next
    case 3
    have whole: "in_bounds (int (length rep)) \<lparr>br_start = 0, br_end = int (length rep) - 1\<rparr>" if "rep \<noteq> []"
      using that by (cases rep) (simp_all add: in_bounds_def)
    show ?thesis
      using send_content [OF 3(1) res, of False "\<lparr>br_start = 0, br_end = bs_size source - 1\<rparr>" toUTCString pipeline
          fresh_response cacheControl] 3 bytes assms(2,3) opens [OF whole] slice_all [of rep]
      unfolding out by (cases "rep = []") (simp_all add: framed_def Let_def transfer_def rangeLength_def start)
  next
    case (4 r)
    have bounds: "in_bounds (int (length rep)) r"
      using requested_in_bounds res 4 bytes by metis
    then have "rangeLength r = int (length (slice rep r))" "rangeLength r \<noteq> 0"
      using slice_length [of rep r] by (simp_all add: in_bounds_def rangeLength_def)
    then show ?thesis
      using send_content [OF 4(1) res, of True r toUTCString pipeline fresh_response cacheControl]
        4 bytes assms(2,3) opens [OF bounds] bounds
      unfolding out by (auto simp: framed_def Let_def transfer_def)
  qed
qed

theorem get_is_framed_witness:
  "\<exists>res. sendByteRange (\<lambda>s. None) (\<lambda>d. []) (\<lambda>s. Piped) \<lparr>rq_verb = ''GET'', rq_headers = [(''range'', OneValue ''bytes=1-'')]\<rparr>
     fresh_response \<lparr>bs_size = 3, bs_etag = ''e'', bs_contentType = ''t'', bs_lastModified = None,
       bs_open = (\<lambda>r. Inr (slice [5, 6, 7 :: nat] r) :: nat + nat list)\<rparr> None = (res, None) \<and>
     rs_status res = 206 \<and> framed [5, 6, 7] res"
proof -
  let ?req = "\<lparr>rq_verb = ''GET'', rq_headers = [(''range'', OneValue ''bytes=1-'')]\<rparr>"
  let ?source = "\<lparr>bs_size = 3, bs_etag = ''e'', bs_contentType = ''t'', bs_lastModified = None,
       bs_open = (\<lambda>r. Inr (slice [5, 6, 7 :: nat] r) :: nat + nat list)\<rparr>"
  let ?out = "sendByteRange (\<lambda>s. None) (\<lambda>d. []) (\<lambda>s. Piped) ?req fresh_response ?source None"
  have "framed [5, 6, 7] (fst ?out) \<and> snd ?out = None"
    by (rule get_is_framed [of ?source _ ?req]) (simp_all add: serves_def MAX_SAFE_INTEGER_def)
  moreover have "parseRangeHeader ''bytes=1-'' = Some [IntRange 1 None]"
    using parseRangeHeader_text [of "''1''" "[]"]
    by (simp add: wf_range_text_def is_digits_def is_digit_def range_of_text_def clamp_def of_digits_def code_def)
  then have "resolveRequestedRange (\<lambda>s. None) ?req 3 (source_validators ?source) =
      Some (Satisfied \<lparr>br_start = 1, br_end = 2\<rparr>)"
    by (simp add: resolveRequestedRange_def headerValue_def shouldApplyRange_def resolveRange_def MAX_SAFE_INTEGER_def)
  then have "rs_status (fst ?out) = 206"
    using send_content [of "\<lambda>s. None" ?req ?source _ True "\<lparr>br_start = 1, br_end = 2\<rparr>"]
    by (simp add: evaluateReadPreconditions_def headerValue_def rangeLength_def transfer_def Let_def)
  ultimately show ?thesis
    by (intro exI [of _ "fst ?out"]) (simp add: prod_eq_iff)
qed

text \<open>
  When the storage refuses to open the range, the error leaves the handler with the response
  still free to become any error answer: status and body are untouched and no \<open>Content-Type\<close>,
  \<open>Content-Length\<close> or \<open>Content-Range\<close> has been set.
\<close>

lemma failed_open_leaves_head_unwritten:
  assumes "sendByteRange date_parse toUTCString pipeline req fresh_response source cacheControl = (res, Some (OpenFailed err))"
  shows "rs_status res = 200 \<and> rs_body res = NoBody \<and> js_get (rs_headers res) ''Content-Type'' = None \<and>
    js_get (rs_headers res) ''Content-Length'' = None \<and> js_get (rs_headers res) ''Content-Range'' = None"
proof -
  have "transfer pipeline stream head \<noteq> (r, Some (OpenFailed err))" for stream head r
    by (auto simp: transfer_def split: pipe_end.splits)
  then have "res = common_headers toUTCString cacheControl source fresh_response"
    using assms
    by (auto simp: sendByteRange_def Let_def
        split: read_precondition.splits option.splits range_resolution.splits if_splits sum.splits)
  then show ?thesis
    by (simp add: common_headers_fresh) (simp add: fresh_response_def)
qed

section \<open>HEAD and the limits of clamping\<close>

text \<open>A HEAD has the status and headers of its GET and never opens the source.\<close>

lemma head_previews_get:
  assumes "sendByteRange date_parse u pipeline \<lparr>rq_verb = ''GET'', rq_headers = hs\<rparr> res source c = (got, None)"
  shows "\<exists>previewed. sendByteRange date_parse u pipeline' \<lparr>rq_verb = ''HEAD'', rq_headers = hs\<rparr> res (source\<lparr>bs_open := other\<rparr>) c =
      (previewed, None) \<and> rs_status previewed = rs_status got \<and> rs_headers previewed = rs_headers got"
proof -
  let ?get = "\<lparr>rq_verb = ''GET'', rq_headers = hs\<rparr>"
  let ?head = "\<lparr>rq_verb = ''HEAD'', rq_headers = hs\<rparr>"
  let ?source = "source\<lparr>bs_open := other\<rparr>"
  have hv: "headerValue ?head = headerValue ?get"
    by (simp add: fun_eq_iff headerValue_def)
  have rr: "resolveRequestedRange date_parse ?head = resolveRequestedRange date_parse ?get"
    by (intro ext) (simp add: resolveRequestedRange_def hv cong: option.case_cong)
  have same: "source_validators ?source = source_validators source"
    "common_headers u c ?source res = common_headers u c source res"
    "commitHead p r l ?source h = commitHead p r l source h" for p r l h
    by (simp_all add: source_validators_def common_headers_def commitHead_def)
  show ?thesis
    using assms
    by (auto simp: sendByteRange_def Let_def hv rr same transfer_def
        split: read_precondition.splits option.splits range_resolution.splits if_splits sum.splits pipe_end.splits)
qed

text \<open>
  Two positions past fifteen digits are both read as \<open>MAX_SAFE_INTEGER\<close>, so a range that ends
  before it starts is not recognised as malformed there; it becomes a 416.
\<close>

lemma clamping_hides_inverted_range:
  "of_digits ''1000000000000000'' < of_digits ''9999999999999999'' \<and>
   parseRangeSpec ''9999999999999999-1000000000000000'' = Some (IntRange MAX_SAFE_INTEGER (Some MAX_SAFE_INTEGER)) \<and>
   parseRangeSpec ''2-1'' = None"
  by (simp add: parseRangeSpec_def parsePosition_def is_digits_def is_digit_def of_digits_def code_def
      MAX_POSITION_DIGITS_def)

end
