(* ===== verification/Worker_Pool.thy ===== *)
theory Worker_Pool
  imports Prelude "HOL-Library.Multiset"
begin

text \<open>
  The worker pool (\<open>src/workers/worker-pool.ts\<close>): a bounded queue in front of a fixed number of
  threads. A worker record is an object the event listeners of its thread keep referring to
  after it has left the pool, so records live in a heap and are named by the order in which they
  were spawned. A call of \<open>run\<close> is named by a number that stands for the promise it returns;
  \<open>wp_settled\<close> lists what was resolved or rejected, in order. The threads themselves and the
  structured clone algorithm are outside: a thread's messages and its death are events, and
  \<open>cloneable\<close> says which payloads \<open>postMessage\<close> takes. \<open>createWorker\<close> is taken not to throw.
\<close>

section \<open>State\<close>

datatype pool_state = Open | Draining | Closed

datatype 'v pool_error =
    WorkerPoolClosedError pool_state
  | WorkerQueueFullError nat nat
  | WorkerTaskError string 'v
  | WorkerTaskTimeoutError string nat
  | WorkerCrashedError string 'v
  | DataCloneError

datatype 'v settlement = Resolved 'v | Rejected "'v pool_error"

record 'p queued_task =
  qt_promise :: nat
  qt_task :: string
  qt_payload :: 'p
  qt_timeoutMs :: nat

record in_flight_task =
  ft_id :: nat
  ft_promise :: nat
  ft_task :: string
  ft_timeoutMs :: nat

record worker_record =
  wr_current :: "in_flight_task option"
  wr_retired :: bool

text \<open>
  The promise of \<open>drain\<close>: \<open>wp_drained\<close> says that it exists, \<open>wp_resolveDrained\<close> that its resolver is
  held, \<open>wp_drainResolved\<close> that it has been fulfilled.
\<close>

record ('p, 'v) pool =
  wp_size :: nat
  wp_maxQueueDepth :: nat
  wp_taskTimeoutMs :: nat
  wp_retryAfterSeconds :: nat
  wp_heap :: "nat \<Rightarrow> worker_record"
  wp_spawned :: nat
  wp_workers :: "nat list"
  wp_idle :: "nat list"
  wp_queue :: "'p queued_task list"
  wp_state :: pool_state
  wp_nextTaskId :: nat
  wp_drained :: bool
  wp_resolveDrained :: bool
  wp_drainResolved :: bool
  wp_destroying :: nat
  wp_settled :: "(nat \<times> 'v settlement) list"

definition fresh_record :: worker_record where
  "fresh_record = \<lparr>wr_current = None, wr_retired = False\<rparr>"

definition assertPositiveInteger :: "string \<Rightarrow> int \<Rightarrow> string option" where
  "assertPositiveInteger name val = (if val \<le> 0 then Some name else None)"

definition assertNonNegativeInteger :: "string \<Rightarrow> int \<Rightarrow> string option" where
  "assertNonNegativeInteger name val = (if val < 0 then Some name else None)"

text \<open>The constructor; \<open>Inl\<close> names the option that is out of range.\<close>

definition createPool :: "int \<Rightarrow> int \<Rightarrow> int \<Rightarrow> int option \<Rightarrow> string + ('p, 'v) pool" where
  "createPool sz maxQueueDepth taskTimeoutMs retryAfterSeconds =
     (let retryAfter = (case retryAfterSeconds of None \<Rightarrow> 1 | Some s \<Rightarrow> s) in
      case assertPositiveInteger ''size'' sz of Some e \<Rightarrow> Inl e | None \<Rightarrow>
      (case assertNonNegativeInteger ''maxQueueDepth'' maxQueueDepth of Some e \<Rightarrow> Inl e | None \<Rightarrow>
      (case assertPositiveInteger ''taskTimeoutMs'' taskTimeoutMs of Some e \<Rightarrow> Inl e | None \<Rightarrow>
      (case assertPositiveInteger ''retryAfterSeconds'' retryAfter of Some e \<Rightarrow> Inl e | None \<Rightarrow>
        Inr \<lparr>wp_size = nat sz, wp_maxQueueDepth = nat maxQueueDepth, wp_taskTimeoutMs = nat taskTimeoutMs,
             wp_retryAfterSeconds = nat retryAfter, wp_heap = (\<lambda>_. fresh_record), wp_spawned = 0,
             wp_workers = [], wp_idle = [], wp_queue = [], wp_state = Open, wp_nextTaskId = 1,
             wp_drained = False, wp_resolveDrained = False, wp_drainResolved = False, wp_destroying = 0, wp_settled = []\<rparr>))))"

section \<open>Small steps\<close>

definition settle :: "nat \<Rightarrow> 'v settlement \<Rightarrow> ('p, 'v) pool \<Rightarrow> ('p, 'v) pool" where
  "settle promise outcome st = st\<lparr>wp_settled := wp_settled st @ [(promise, outcome)]\<rparr>"

definition set_current :: "nat \<Rightarrow> in_flight_task option \<Rightarrow> ('p, 'v) pool \<Rightarrow> ('p, 'v) pool" where
  "set_current w current st = st\<lparr>wp_heap := (wp_heap st)(w := (wp_heap st w)\<lparr>wr_current := current\<rparr>)\<rparr>"

definition spawn :: "('p, 'v) pool \<Rightarrow> nat \<times> ('p, 'v) pool" where
  "spawn st = (wp_spawned st,
     st\<lparr>wp_heap := (wp_heap st)(wp_spawned st := fresh_record), wp_spawned := wp_spawned st + 1,
        wp_workers := wp_workers st @ [wp_spawned st]\<rparr>)"

definition acquireWorker :: "('p, 'v) pool \<Rightarrow> (nat \<times> ('p, 'v) pool) option" where
  "acquireWorker st =
     (if wp_idle st \<noteq> [] then Some (last (wp_idle st), st\<lparr>wp_idle := butlast (wp_idle st)\<rparr>)
      else if length (wp_workers st) \<ge> wp_size st then None
      else Some (spawn st))"

text \<open>
  The part of \<open>destroyAll\<close> that runs at once; what follows \<open>Promise.all\<close> is a pending
  continuation, counted in \<open>wp_destroying\<close>.
\<close>

definition destroyAll :: "nat list \<Rightarrow> ('p, 'v) pool \<Rightarrow> ('p, 'v) pool" where
  "destroyAll records st =
     st\<lparr>wp_workers := [], wp_idle := [],
        wp_heap := (\<lambda>w. if w \<in> set records then (wp_heap st w)\<lparr>wr_retired := True\<rparr> else wp_heap st w),
        wp_destroying := wp_destroying st + 1\<rparr>"

definition busy :: "('p, 'v) pool \<Rightarrow> nat \<Rightarrow> bool" where
  "busy st w \<longleftrightarrow> wr_current (wp_heap st w) \<noteq> None"

definition settleDrainIfIdle :: "('p, 'v) pool \<Rightarrow> ('p, 'v) pool" where
  "settleDrainIfIdle st =
     (if wp_state st \<noteq> Draining then st
      else if wp_queue st \<noteq> [] then st
      else if list_ex (busy st) (wp_workers st) then st
      else destroyAll (wp_workers st) (st\<lparr>wp_state := Closed\<rparr>))"

definition resolveDrainedIfPending :: "('p, 'v) pool \<Rightarrow> ('p, 'v) pool" where
  "resolveDrainedIfPending st =
     (if wp_resolveDrained st then st\<lparr>wp_resolveDrained := False, wp_drainResolved := True\<rparr> else st)"

section \<open>Dispatching\<close>

text \<open>
  \<open>pump\<close> dispatches, and a dispatch whose payload cannot be cloned releases the worker, which
  pumps again. Each turn of the loop takes a task off the queue, so the number of turns, nested
  ones included, is bounded by its length; the three operations are given the \<open>pump\<close> they call.
\<close>

definition retire_with ::
  "(('p, 'v) pool \<Rightarrow> ('p, 'v) pool) \<Rightarrow> nat \<Rightarrow> ('p, 'v) pool \<Rightarrow> ('p, 'v) pool" where
  "retire_with pump w st =
     (if wr_retired (wp_heap st w) then st
      else let st = st\<lparr>wp_heap := (wp_heap st)(w := (wp_heap st w)\<lparr>wr_retired := True\<rparr>),
                      wp_workers := removeAll w (wp_workers st),
                      wp_idle := remove1 w (wp_idle st)\<rparr>
           in settleDrainIfIdle (pump st))"

definition release_with ::
  "(('p, 'v) pool \<Rightarrow> ('p, 'v) pool) \<Rightarrow> nat \<Rightarrow> ('p, 'v) pool \<Rightarrow> ('p, 'v) pool" where
  "release_with pump w st =
     (if wr_retired (wp_heap st w) then st
      else if wp_state st = Closed then retire_with pump w st
      else settleDrainIfIdle (pump (st\<lparr>wp_idle := wp_idle st @ [w]\<rparr>)))"

definition dispatch_with ::
  "(('p, 'v) pool \<Rightarrow> ('p, 'v) pool) \<Rightarrow> ('p \<Rightarrow> bool) \<Rightarrow> nat \<Rightarrow> 'p queued_task \<Rightarrow> ('p, 'v) pool \<Rightarrow> ('p, 'v) pool" where
  "dispatch_with pump cloneable w queued st =
     (let st = set_current w (Some \<lparr>ft_id = wp_nextTaskId st, ft_promise = qt_promise queued,
                 ft_task = qt_task queued, ft_timeoutMs = qt_timeoutMs queued\<rparr>)
               (st\<lparr>wp_nextTaskId := wp_nextTaskId st + 1\<rparr>)
      in if cloneable (qt_payload queued) then st
         else release_with pump w (settle (qt_promise queued) (Rejected DataCloneError) (set_current w None st)))"

fun pump_loop :: "('p \<Rightarrow> bool) \<Rightarrow> nat \<Rightarrow> ('p, 'v) pool \<Rightarrow> ('p, 'v) pool" where
  "pump_loop cloneable 0 st = st"
| "pump_loop cloneable (Suc turns) st =
     (if wp_queue st = [] \<or> wp_state st = Closed then st
      else case acquireWorker st of
          None \<Rightarrow> st
        | Some (w, st') \<Rightarrow>
            (case wp_queue st' of
               [] \<Rightarrow> st'\<lparr>wp_idle := wp_idle st' @ [w]\<rparr>
             | queued # rest \<Rightarrow>
                 pump_loop cloneable turns
                   (dispatch_with (pump_loop cloneable turns) cloneable w queued (st'\<lparr>wp_queue := rest\<rparr>))))"

definition pump :: "('p \<Rightarrow> bool) \<Rightarrow> ('p, 'v) pool \<Rightarrow> ('p, 'v) pool" where
  "pump cloneable st = pump_loop cloneable (length (wp_queue st)) st"

definition retire :: "('p \<Rightarrow> bool) \<Rightarrow> nat \<Rightarrow> ('p, 'v) pool \<Rightarrow> ('p, 'v) pool" where
  "retire cloneable = retire_with (pump cloneable)"

definition release :: "('p \<Rightarrow> bool) \<Rightarrow> nat \<Rightarrow> ('p, 'v) pool \<Rightarrow> ('p, 'v) pool" where
  "release cloneable = release_with (pump cloneable)"

definition dispatch :: "('p \<Rightarrow> bool) \<Rightarrow> nat \<Rightarrow> 'p queued_task \<Rightarrow> ('p, 'v) pool \<Rightarrow> ('p, 'v) pool" where
  "dispatch cloneable = dispatch_with (pump cloneable) cloneable"

section \<open>Operations and events\<close>

definition run ::
  "('p \<Rightarrow> bool) \<Rightarrow> nat \<Rightarrow> string \<Rightarrow> 'p \<Rightarrow> nat option \<Rightarrow> ('p, 'v) pool \<Rightarrow> ('p, 'v) pool" where
  "run cloneable promise task payload timeoutMs st =
     (let queued = \<lparr>qt_promise = promise, qt_task = task, qt_payload = payload,
            qt_timeoutMs = (case timeoutMs of None \<Rightarrow> wp_taskTimeoutMs st | Some t \<Rightarrow> t)\<rparr>
      in if wp_state st \<noteq> Open then settle promise (Rejected (WorkerPoolClosedError (wp_state st))) st
         else case acquireWorker st of
             Some (w, st') \<Rightarrow> dispatch cloneable w queued st'
           | None \<Rightarrow>
               if length (wp_queue st) \<ge> wp_maxQueueDepth st
               then settle promise (Rejected (WorkerQueueFullError (length (wp_queue st)) (wp_retryAfterSeconds st))) st
               else st\<lparr>wp_queue := wp_queue st @ [queued]\<rparr>)"

record pool_stats =
  ps_state :: pool_state
  ps_size :: nat
  ps_spawned :: nat
  ps_busy :: nat
  ps_queued :: nat
  ps_maxQueueDepth :: nat

definition stats :: "('p, 'v) pool \<Rightarrow> pool_stats" where
  "stats st = \<lparr>ps_state = wp_state st, ps_size = wp_size st, ps_spawned = length (wp_workers st),
     ps_busy = length (filter (busy st) (wp_workers st)), ps_queued = length (wp_queue st),
     ps_maxQueueDepth = wp_maxQueueDepth st\<rparr>"

definition drain :: "('p, 'v) pool \<Rightarrow> ('p, 'v) pool" where
  "drain st =
     (if wp_state st = Closed then st
      else if wp_drained st then st
      else settleDrainIfIdle (st\<lparr>wp_state := Draining, wp_drained := True, wp_resolveDrained := True\<rparr>))"

text \<open>\<open>terminate\<close>: the queue first, then what is on the threads, then the threads.\<close>

primrec reject_current :: "nat list \<Rightarrow> ('p, 'v) pool \<Rightarrow> ('p, 'v) pool" where
  "reject_current [] st = st"
| "reject_current (w # ws) st =
     reject_current ws
       (case wr_current (wp_heap st w) of
          None \<Rightarrow> st
        | Some current \<Rightarrow>
            settle (ft_promise current) (Rejected (WorkerPoolClosedError Closed)) (set_current w None st))"

definition terminate :: "('p, 'v) pool \<Rightarrow> ('p, 'v) pool" where
  "terminate st =
     (if wp_state st = Closed then st
      else let st = st\<lparr>wp_state := Closed\<rparr>;
               rejected = map (\<lambda>queued. (qt_promise queued, Rejected (WorkerPoolClosedError Closed))) (wp_queue st);
               st = st\<lparr>wp_queue := [], wp_settled := wp_settled st @ rejected\<rparr>;
               records = wp_workers st
           in destroyAll records (reject_current records st))"

datatype 'v message = TaskResponse nat "'v + 'v" | OtherMessage

definition onMessage :: "('p \<Rightarrow> bool) \<Rightarrow> nat \<Rightarrow> 'v message \<Rightarrow> ('p, 'v) pool \<Rightarrow> ('p, 'v) pool" where
  "onMessage cloneable w msg st =
     (case msg of
        OtherMessage \<Rightarrow> st
      | TaskResponse tid answer \<Rightarrow>
          (case wr_current (wp_heap st w) of
             None \<Rightarrow> st
           | Some current \<Rightarrow>
               if ft_id current \<noteq> tid then st
               else release cloneable w
                 (settle (ft_promise current)
                    (case answer of Inr val \<Rightarrow> Resolved val | Inl err \<Rightarrow> Rejected (WorkerTaskError (ft_task current) err))
                    (set_current w None st))))"

definition onTimeout :: "('p \<Rightarrow> bool) \<Rightarrow> nat \<Rightarrow> nat \<Rightarrow> ('p, 'v) pool \<Rightarrow> ('p, 'v) pool" where
  "onTimeout cloneable w tid st =
     (case wr_current (wp_heap st w) of
        None \<Rightarrow> st
      | Some current \<Rightarrow>
          if ft_id current \<noteq> tid then st
          else retire cloneable w
            (settle (ft_promise current) (Rejected (WorkerTaskTimeoutError (ft_task current) (ft_timeoutMs current)))
               (set_current w None st)))"

definition onWorkerFailure :: "('p \<Rightarrow> bool) \<Rightarrow> nat \<Rightarrow> 'v \<Rightarrow> ('p, 'v) pool \<Rightarrow> ('p, 'v) pool" where
  "onWorkerFailure cloneable w err st =
     (if wr_retired (wp_heap st w) then st
      else case wr_current (wp_heap st w) of
          Some current \<Rightarrow>
            retire cloneable w
              (settle (ft_promise current) (Rejected (WorkerCrashedError (ft_task current) err)) (set_current w None st))
        | None \<Rightarrow> retire cloneable w st)"

text \<open>
  Everything that can happen to a pool. Listeners exist for spawned workers only; a timer may
  fire late, for a task that is no longer there.
\<close>

datatype ('p, 'v) pool_event =
    Run nat string 'p "nat option"
  | Message nat "'v message"
  | Timer nat nat
  | Failure nat 'v
  | Drain
  | Terminate
  | Destroyed

primrec pool_do :: "('p \<Rightarrow> bool) \<Rightarrow> ('p, 'v) pool_event \<Rightarrow> ('p, 'v) pool \<Rightarrow> ('p, 'v) pool" where
  "pool_do cloneable (Run promise task payload timeoutMs) st = run cloneable promise task payload timeoutMs st"
| "pool_do cloneable (Message w msg) st = (if w < wp_spawned st then onMessage cloneable w msg st else st)"
| "pool_do cloneable (Timer w tid) st = (if w < wp_spawned st then onTimeout cloneable w tid st else st)"
| "pool_do cloneable (Failure w err) st = (if w < wp_spawned st then onWorkerFailure cloneable w err st else st)"
| "pool_do cloneable Drain st = drain st"
| "pool_do cloneable Terminate st = terminate st"
| "pool_do cloneable Destroyed st =
     (if wp_destroying st = 0 then st
      else resolveDrainedIfPending (st\<lparr>wp_destroying := wp_destroying st - 1\<rparr>))"

section \<open>The loop ends\<close>

lemma settleDrain_queue [simp]: "wp_queue (settleDrainIfIdle st) = wp_queue st"
  by (simp add: settleDrainIfIdle_def destroyAll_def)

lemma acquireWorker_queue: "acquireWorker st = Some (w, st') \<Longrightarrow> wp_queue st' = wp_queue st"
  by (auto simp: acquireWorker_def spawn_def split: if_splits)

definition shrinks :: "(('p, 'v) pool \<Rightarrow> ('p, 'v) pool) \<Rightarrow> bool" where
  "shrinks f \<longleftrightarrow> (\<forall>st. length (wp_queue (f st)) \<le> length (wp_queue st))"

lemma shrinks_dispatch:
  assumes "shrinks f"
  shows "length (wp_queue (dispatch_with f cloneable w queued st)) \<le> length (wp_queue st)"
proof -
  have "length (wp_queue (f st')) \<le> length (wp_queue st)" if "wp_queue st' = wp_queue st" for st'
    using assms that unfolding shrinks_def by metis
  then show ?thesis
    by (simp add: dispatch_with_def release_with_def retire_with_def Let_def settle_def set_current_def)
qed

lemma shrinks_pump_loop: "shrinks (pump_loop cloneable turns)"
proof (induction turns)
  case (Suc turns)
  have "length (wp_queue (pump_loop cloneable (Suc turns) st)) \<le> length (wp_queue st)" for st :: "('a, 'b) pool"
  proof (cases "wp_queue st = [] \<or> wp_state st = Closed")
    case False
    then obtain queued rest where q: "wp_queue st = queued # rest"
      by (meson neq_Nil_conv)
    show ?thesis
    proof (cases "acquireWorker st")
      case (Some a)
      obtain w st' where a: "a = (w, st')"
        by (cases a)
      let ?d = "dispatch_with (pump_loop cloneable turns) cloneable w queued (st'\<lparr>wp_queue := rest\<rparr>)"
      have "length (wp_queue (pump_loop cloneable turns ?d)) \<le> length (wp_queue ?d)"
        using Suc.IH unfolding shrinks_def by blast
      also have "\<dots> \<le> length rest"
        using shrinks_dispatch [OF Suc.IH, of cloneable w queued "st'\<lparr>wp_queue := rest\<rparr>"] by simp
      finally show ?thesis
        using False Some a q acquireWorker_queue [of st w st'] by simp
    qed (use False in simp)
  qed auto
  then show ?case
    unfolding shrinks_def by blast
qed (simp add: shrinks_def)

text \<open>Turns beyond the length of the queue change nothing.\<close>

lemma dispatch_with_cong:
  assumes "\<And>st'. wp_queue st' = wp_queue st \<Longrightarrow> f st' = g st'"
  shows "dispatch_with f cloneable w queued st = dispatch_with g cloneable w queued st"
  using assms by (simp add: dispatch_with_def release_with_def retire_with_def Let_def settle_def set_current_def)

lemma pump_loop_enough:
  "length (wp_queue st) \<le> m \<Longrightarrow> length (wp_queue st) \<le> n \<Longrightarrow> pump_loop cloneable m st = pump_loop cloneable n st"
proof (induction m arbitrary: n st)
  case 0
  then show ?case
    by (cases n) simp_all
next
  case (Suc m)
  show ?case
  proof (cases "wp_queue st = [] \<or> wp_state st = Closed")
    case True
    then show ?thesis
      by (cases n) auto
  next
    case False
    then obtain queued rest where q: "wp_queue st = queued # rest"
      by (meson neq_Nil_conv)
    then obtain n' where n: "n = Suc n'"
      using Suc.prems by (cases n) auto
    show ?thesis
    proof (cases "acquireWorker st")
      case (Some a)
      obtain w st' where a: "a = (w, st')"
        by (cases a)
      let ?s = "st'\<lparr>wp_queue := rest\<rparr>"
      have len: "length rest \<le> m" "length rest \<le> n'"
        using Suc.prems q n by simp_all
      have same: "dispatch_with (pump_loop cloneable m) cloneable w queued ?s =
          dispatch_with (pump_loop cloneable n') cloneable w queued ?s"
        by (rule dispatch_with_cong) (simp add: Suc.IH len)
      have "length (wp_queue (dispatch_with (pump_loop cloneable n') cloneable w queued ?s)) \<le> length rest"
        using shrinks_dispatch [OF shrinks_pump_loop, of cloneable n' cloneable w queued ?s] by simp
      then have "pump_loop cloneable m (dispatch_with (pump_loop cloneable n') cloneable w queued ?s) =
          pump_loop cloneable n' (dispatch_with (pump_loop cloneable n') cloneable w queued ?s)"
        using len by (intro Suc.IH) simp_all
      then show ?thesis
        using False Some a q n acquireWorker_queue [of st w st'] same by simp
    qed (use False n in simp)
  qed
qed

text \<open>The source's loop, as an equation between the operations that call each other.\<close>

lemma pump_unfold:
  "pump cloneable st =
     (if wp_queue st = [] \<or> wp_state st = Closed then st
      else case acquireWorker st of
          None \<Rightarrow> st
        | Some (w, st') \<Rightarrow> pump cloneable (dispatch cloneable w (hd (wp_queue st)) (st'\<lparr>wp_queue := tl (wp_queue st)\<rparr>)))"
proof (cases "wp_queue st")
  case (Cons queued rest)
  show ?thesis
  proof (cases "acquireWorker st")
    case (Some a)
    obtain w st' where a: "a = (w, st')"
      by (cases a)
    let ?s = "st'\<lparr>wp_queue := rest\<rparr>"
    have d: "dispatch_with (pump_loop cloneable (length rest)) cloneable w queued ?s = dispatch cloneable w queued ?s"
      unfolding dispatch_def by (rule dispatch_with_cong) (simp add: pump_def)
    have "length (wp_queue (dispatch cloneable w queued ?s)) \<le> length rest"
      using shrinks_dispatch [OF shrinks_pump_loop, of cloneable "length rest" cloneable w queued ?s] d by simp
    then have "pump_loop cloneable (length rest) (dispatch cloneable w queued ?s) = pump cloneable (dispatch cloneable w queued ?s)"
      unfolding pump_def by (intro pump_loop_enough) simp_all
    then show ?thesis
      using Cons Some a acquireWorker_queue [of st w st'] d by (simp add: pump_def)
  qed (simp add: pump_def Cons)
qed (simp add: pump_def)

section \<open>Invariant\<close>

definition on_thread :: "in_flight_task option \<Rightarrow> nat multiset" where
  "on_thread current = (case current of None \<Rightarrow> {#} | Some t \<Rightarrow> {#ft_promise t#})"

definition in_flight :: "('p, 'v) pool \<Rightarrow> nat multiset" where
  "in_flight st = (\<Sum>w < wp_spawned st. on_thread (wr_current (wp_heap st w)))"

text \<open>Where the promises are: waiting, on a thread, or settled.\<close>

definition promises :: "('p, 'v) pool \<Rightarrow> nat multiset" where
  "promises st = mset (map qt_promise (wp_queue st)) + in_flight st + mset (map fst (wp_settled st))"

text \<open>
  The shape of a pool while \<open>held\<close>, if any, is a worker just taken out of rotation: every
  other worker is idle or busy and never both, and nothing outside the pool runs a task.
\<close>

definition pool_ok :: "nat option \<Rightarrow> ('p, 'v) pool \<Rightarrow> bool" where
  "pool_ok held st \<longleftrightarrow>
     distinct (wp_workers st) \<and> distinct (wp_idle st) \<and> set (wp_idle st) \<subseteq> set (wp_workers st) \<and>
     length (wp_workers st) \<le> wp_size st \<and> length (wp_queue st) \<le> wp_maxQueueDepth st \<and>
     (\<forall>w \<in> set (wp_workers st). w < wp_spawned st \<and> \<not> wr_retired (wp_heap st w)) \<and>
     (\<forall>w \<in> set (wp_workers st). held \<noteq> Some w \<longrightarrow> (busy st w \<longleftrightarrow> w \<notin> set (wp_idle st))) \<and>
     (\<forall>w \<in> set_option held. w \<in> set (wp_workers st) \<and> w \<notin> set (wp_idle st) \<and> \<not> busy st w) \<and>
     (\<forall>w. w \<notin> set (wp_workers st) \<longrightarrow> \<not> busy st w \<and> (w < wp_spawned st \<longrightarrow> wr_retired (wp_heap st w))) \<and>
     (wp_state st = Closed \<longrightarrow> wp_workers st = [] \<and> wp_queue st = [])"

definition config :: "('p, 'v) pool \<Rightarrow> nat \<times> nat" where
  "config st = (wp_size st, wp_maxQueueDepth st)"

definition keeps :: "(('p, 'v) pool \<Rightarrow> ('p, 'v) pool) \<Rightarrow> bool" where
  "keeps f \<longleftrightarrow> (\<forall>st. pool_ok None st \<longrightarrow> pool_ok None (f st) \<and> promises (f st) = promises st \<and> config (f st) = config st)"

lemma in_flight_set_current:
  assumes "w < wp_spawned st"
  shows "in_flight (set_current w c st) + on_thread (wr_current (wp_heap st w)) = in_flight st + on_thread c"
proof -
  have w: "w \<in> {..< wp_spawned st}" "finite {..< wp_spawned st}"
    using assms by simp_all
  have "(\<Sum>v \<in> {..< wp_spawned st} - {w}. on_thread (wr_current (wp_heap (set_current w c st) v))) =
      (\<Sum>v \<in> {..< wp_spawned st} - {w}. on_thread (wr_current (wp_heap st v)))"
    by (rule sum.cong) (auto simp: set_current_def)
  then show ?thesis
    using sum.remove [OF w(2,1), of "\<lambda>v. on_thread (wr_current (wp_heap st v))"]
      sum.remove [OF w(2,1), of "\<lambda>v. on_thread (wr_current (wp_heap (set_current w c st) v))"]
    by (simp add: in_flight_def set_current_def)
qed

lemma in_flight_idle: "\<forall>w. \<not> busy st w \<Longrightarrow> in_flight st = {#}"
  by (simp add: in_flight_def busy_def on_thread_def)

lemma keeps_settleDrain: "keeps settleDrainIfIdle"
proof -
  have "pool_ok None (settleDrainIfIdle st) \<and> promises (settleDrainIfIdle st) = promises st \<and>
      config (settleDrainIfIdle st) = config st" if ok: "pool_ok None st" for st :: "('p, 'v) pool"
  proof (cases "wp_state st \<noteq> Draining \<or> wp_queue st \<noteq> [] \<or> list_ex (busy st) (wp_workers st)")
    case False
    then have rest: "\<forall>w. \<not> busy st w"
      using ok by (auto simp: pool_ok_def list_ex_iff)
    have heap: "on_thread (wr_current (wp_heap (settleDrainIfIdle st) w)) = on_thread (wr_current (wp_heap st w))" for w
      using False by (simp add: settleDrainIfIdle_def destroyAll_def)
    have "promises (settleDrainIfIdle st) = promises st"
      using False heap by (simp add: promises_def in_flight_def settleDrainIfIdle_def destroyAll_def)
    moreover have "pool_ok None (settleDrainIfIdle st)"
      using False ok rest by (auto simp: settleDrainIfIdle_def destroyAll_def pool_ok_def busy_def)
    ultimately show ?thesis
      using False by (simp add: settleDrainIfIdle_def destroyAll_def config_def)
  qed (use ok in \<open>auto simp: settleDrainIfIdle_def\<close>)
  then show ?thesis
    unfolding keeps_def by blast
qed

lemma pool_ok_acquire:
  assumes ok: "pool_ok None st" and open_pool: "wp_state st \<noteq> Closed" and got: "acquireWorker st = Some (w, st')"
  shows "pool_ok (Some w) st' \<and> promises st' = promises st \<and> config st' = config st \<and> wp_state st' = wp_state st"
proof (cases "wp_idle st = []")
  case False
  then have st': "w = last (wp_idle st)" "st' = st\<lparr>wp_idle := butlast (wp_idle st)\<rparr>"
    using got by (auto simp: acquireWorker_def)
  obtain front where idle: "wp_idle st = front @ [w]"
    using False st'(1) append_butlast_last_id [of "wp_idle st"] by metis
  have "st' = st\<lparr>wp_idle := front\<rparr>"
    using st'(2) by (simp add: idle)
  then show ?thesis
    using ok idle by (auto simp: pool_ok_def promises_def in_flight_def config_def busy_def)
next
  case True
  then have st': "w = wp_spawned st" "st' = snd (spawn st)" and room: "length (wp_workers st) < wp_size st"
    using got by (auto simp: acquireWorker_def spawn_def split: if_splits)
  have fresh: "wp_spawned st \<notin> set (wp_workers st)"
    using ok by (auto simp: pool_ok_def)
  have "pool_ok (Some w) st'"
    using ok open_pool True room fresh unfolding st' pool_ok_def
    by (auto simp: spawn_def busy_def fresh_record_def less_Suc_eq)
  moreover have "in_flight st' = in_flight st"
    unfolding st' in_flight_def by (simp add: spawn_def fresh_record_def on_thread_def)
  ultimately show ?thesis
    unfolding st' by (simp add: promises_def spawn_def config_def)
qed

lemma pool_ok_held:
  assumes "pool_ok (Some w) st"
  shows "wp_state st \<noteq> Closed" "\<not> wr_retired (wp_heap st w)" "w < wp_spawned st" "w \<in> set (wp_workers st)"
    "wr_current (wp_heap st w) = None"
  using assms by (auto simp: pool_ok_def busy_def)

text \<open>A held worker goes back into rotation, out of the pool, or to work.\<close>

lemma held_to_idle:
  assumes "pool_ok (Some w) st"
  shows "pool_ok None (st\<lparr>wp_idle := wp_idle st @ [w]\<rparr>)"
  using assms by (auto simp: pool_ok_def busy_def)

lemma held_removed:
  assumes "pool_ok held st" "w \<in> set (wp_workers st)" "\<not> busy st w" "held = None \<or> held = Some w"
  shows "pool_ok None (st\<lparr>wp_heap := (wp_heap st)(w := (wp_heap st w)\<lparr>wr_retired := True\<rparr>),
    wp_workers := removeAll w (wp_workers st), wp_idle := remove1 w (wp_idle st)\<rparr>)"
proof -
  have "length (removeAll w (wp_workers st)) \<le> wp_size st"
    using assms(1) le_trans [OF length_filter_le] by (auto simp: pool_ok_def removeAll_filter_not_eq)
  then show ?thesis
    using assms unfolding pool_ok_def by (auto simp: busy_def distinct_removeAll)
qed

lemma in_flight_same:
  "(\<And>v. wr_current (wp_heap st' v) = wr_current (wp_heap st v)) \<Longrightarrow> wp_spawned st' = wp_spawned st \<Longrightarrow>
   in_flight st' = in_flight st"
  by (simp add: in_flight_def)

lemma keepsD:
  "keeps f \<Longrightarrow> pool_ok None st \<Longrightarrow> pool_ok None (f st)"
  "keeps f \<Longrightarrow> pool_ok None st \<Longrightarrow> promises (f st) = promises st"
  "keeps f \<Longrightarrow> pool_ok None st \<Longrightarrow> config (f st) = config st"
  by (simp_all add: keeps_def)

lemma keeps_comp: "keeps f \<Longrightarrow> keeps g \<Longrightarrow> keeps (\<lambda>st. f (g st))"
  by (simp add: keeps_def)

lemma keeps_release:
  assumes "keeps f" "pool_ok (Some w) st"
  shows "pool_ok None (release_with f w st) \<and> promises (release_with f w st) = promises st \<and>
    config (release_with f w st) = config st"
proof -
  let ?s = "st\<lparr>wp_idle := wp_idle st @ [w]\<rparr>"
  have "release_with f w st = settleDrainIfIdle (f ?s)"
    using pool_ok_held [OF assms(2)] by (simp add: release_with_def)
  moreover have "promises ?s = promises st" "config ?s = config st"
    by (simp_all add: promises_def in_flight_def config_def)
  ultimately show ?thesis
    using keepsD [OF keeps_comp [OF keeps_settleDrain assms(1)] held_to_idle [OF assms(2)]] by simp
qed

lemma keeps_retire:
  assumes "keeps f" "pool_ok held st" "w \<in> set (wp_workers st)" "\<not> busy st w" "held = None \<or> held = Some w"
  shows "pool_ok None (retire_with f w st) \<and> promises (retire_with f w st) = promises st \<and>
    config (retire_with f w st) = config st"
proof -
  let ?s = "st\<lparr>wp_heap := (wp_heap st)(w := (wp_heap st w)\<lparr>wr_retired := True\<rparr>),
    wp_workers := removeAll w (wp_workers st), wp_idle := remove1 w (wp_idle st)\<rparr>"
  have "\<not> wr_retired (wp_heap st w)"
    using assms(2,3) by (auto simp: pool_ok_def)
  then have "retire_with f w st = settleDrainIfIdle (f ?s)"
    by (simp add: retire_with_def)
  moreover have "promises ?s = promises st" "config ?s = config st"
    using in_flight_same [of ?s st] by (simp_all add: promises_def config_def)
  ultimately show ?thesis
    using keepsD [OF keeps_comp [OF keeps_settleDrain assms(1)] held_removed [OF assms(2-5)]] by simp
qed

lemma keeps_dispatch:
  assumes "keeps f" "pool_ok (Some w) st"
  shows "pool_ok None (dispatch_with f cloneable w queued st) \<and>
    promises (dispatch_with f cloneable w queued st) = add_mset (qt_promise queued) (promises st) \<and>
    config (dispatch_with f cloneable w queued st) = config st"
proof -
  note held = pool_ok_held [OF assms(2)]
  let ?t = "\<lparr>ft_id = wp_nextTaskId st, ft_promise = qt_promise queued, ft_task = qt_task queued, ft_timeoutMs = qt_timeoutMs queued\<rparr>"
  let ?n = "st\<lparr>wp_nextTaskId := wp_nextTaskId st + 1\<rparr>"
  let ?s = "set_current w (Some ?t) ?n"
  show ?thesis
  proof (cases "cloneable (qt_payload queued)")
    case True
    have "in_flight ?s = add_mset (qt_promise queued) (in_flight st)"
      using in_flight_set_current [of w ?n "Some ?t"] held by (simp add: on_thread_def in_flight_def)
    moreover have "pool_ok None ?s"
      using assms(2) by (auto simp: pool_ok_def set_current_def busy_def)
    ultimately show ?thesis
      using True by (simp add: dispatch_with_def promises_def config_def Let_def) (simp add: set_current_def)
  next
    case False
    let ?r = "settle (qt_promise queued) (Rejected DataCloneError) (set_current w None ?s)"
    have heap: "wp_heap (set_current w None ?s) = wp_heap st"
      using held(5) by (auto simp: set_current_def fun_eq_iff)
    have "pool_ok (Some w) ?r"
      using assms(2) heap by (simp add: pool_ok_def settle_def busy_def) (simp add: set_current_def)
    moreover have "promises ?r = add_mset (qt_promise queued) (promises st)"
      using heap by (simp add: promises_def settle_def in_flight_def) (simp add: set_current_def)
    moreover have "config ?r = config st"
      by (simp add: config_def settle_def set_current_def)
    ultimately show ?thesis
      using False keeps_release [OF assms(1), of w ?r] by (simp add: dispatch_with_def Let_def)
  qed
qed

lemma keeps_pump_turn:
  assumes "keeps f" "pool_ok None st" "wp_queue st = queued # rest" "wp_state st \<noteq> Closed"
    "acquireWorker st = Some (w, st')"
  shows "pool_ok None (dispatch_with f cloneable w queued (st'\<lparr>wp_queue := rest\<rparr>)) \<and>
    promises (dispatch_with f cloneable w queued (st'\<lparr>wp_queue := rest\<rparr>)) = promises st \<and>
    config (dispatch_with f cloneable w queued (st'\<lparr>wp_queue := rest\<rparr>)) = config st"
proof -
  note got = pool_ok_acquire [OF assms(2,4,5)]
  have q: "wp_queue st' = queued # rest"
    using acquireWorker_queue [OF assms(5)] assms(3) by simp
  have "pool_ok (Some w) (st'\<lparr>wp_queue := rest\<rparr>)"
    using got q assms(4) by (auto simp: pool_ok_def busy_def)
  moreover have "add_mset (qt_promise queued) (promises (st'\<lparr>wp_queue := rest\<rparr>)) = promises st"
    using got q by (simp add: promises_def in_flight_def)
  moreover have "config (st'\<lparr>wp_queue := rest\<rparr>) = config st"
    using got by (simp add: config_def)
  ultimately show ?thesis
    using keeps_dispatch [OF assms(1), of w "st'\<lparr>wp_queue := rest\<rparr>" cloneable queued] by simp
qed

lemma keeps_pump_loop: "keeps (pump_loop cloneable turns)"
proof (induction turns)
  case (Suc turns)
  have "pool_ok None (pump_loop cloneable (Suc turns) st) \<and> promises (pump_loop cloneable (Suc turns) st) = promises st \<and>
      config (pump_loop cloneable (Suc turns) st) = config st" if ok: "pool_ok None st" for st :: "('a, 'b) pool"
  proof (cases "wp_queue st = [] \<or> wp_state st = Closed \<or> acquireWorker st = None")
    case False
    then obtain queued rest w st' where turn: "wp_queue st = queued # rest" "wp_state st \<noteq> Closed" "acquireWorker st = Some (w, st')"
      by (auto simp: neq_Nil_conv)
    then have "pump_loop cloneable (Suc turns) st =
        pump_loop cloneable turns (dispatch_with (pump_loop cloneable turns) cloneable w queued (st'\<lparr>wp_queue := rest\<rparr>))"
      using acquireWorker_queue [of st w st'] by simp
    then show ?thesis
      using keeps_pump_turn [OF Suc.IH ok turn, of cloneable] keepsD [OF Suc.IH] by metis
  qed (use ok in auto)
  then show ?case
    unfolding keeps_def by blast
qed (simp add: keeps_def)

lemma keeps_pump: "keeps (pump cloneable)"
  using keeps_pump_loop [of cloneable] unfolding keeps_def pump_def by blast

text \<open>After pumping, a task waits only if every thread there may be is busy.\<close>

definition saturated :: "('p, 'v) pool \<Rightarrow> bool" where
  "saturated st \<longleftrightarrow> wp_queue st = [] \<or> wp_idle st = [] \<and> length (wp_workers st) = wp_size st"

lemma pump_loop_saturates:
  "pool_ok None st \<Longrightarrow> length (wp_queue st) \<le> turns \<Longrightarrow> saturated (pump_loop cloneable turns st)"
proof (induction turns arbitrary: st)
  case (Suc turns)
  show ?case
  proof (cases "wp_queue st = [] \<or> wp_state st = Closed \<or> acquireWorker st = None")
    case True
    then show ?thesis
      using Suc.prems by (auto simp: saturated_def pool_ok_def acquireWorker_def split: if_splits)
  next
    case False
    then obtain queued rest w st' where turn: "wp_queue st = queued # rest" "wp_state st \<noteq> Closed" "acquireWorker st = Some (w, st')"
      by (auto simp: neq_Nil_conv)
    let ?d = "dispatch_with (pump_loop cloneable turns) cloneable w queued (st'\<lparr>wp_queue := rest\<rparr>)"
    have "length (wp_queue ?d) \<le> turns"
      using shrinks_dispatch [OF shrinks_pump_loop, of cloneable turns cloneable w queued "st'\<lparr>wp_queue := rest\<rparr>"]
        Suc.prems(2) turn(1) by simp
    then have "saturated (pump_loop cloneable turns ?d)"
      using Suc.IH keeps_pump_turn [OF keeps_pump_loop Suc.prems(1) turn, of cloneable turns cloneable] by blast
    then show ?thesis
      using turn acquireWorker_queue [of st w st'] by simp
  qed
qed (simp add: saturated_def)

lemma saturated_settleDrain: "saturated st \<Longrightarrow> saturated (settleDrainIfIdle st)"
  by (auto simp: saturated_def settleDrainIfIdle_def destroyAll_def)

text \<open>A pool that is draining has something to wait for.\<close>

definition drain_live :: "('p, 'v) pool \<Rightarrow> bool" where
  "drain_live st \<longleftrightarrow> (wp_state st = Draining \<longrightarrow> (\<exists>w \<in> set (wp_workers st). busy st w))"

lemma drain_live_settleDrain:
  assumes "pool_ok None st" "saturated st" "0 < wp_size st"
  shows "drain_live (settleDrainIfIdle st)"
proof (cases "wp_state st \<noteq> Draining \<or> wp_queue st = [] \<and> \<not> list_ex (busy st) (wp_workers st)")
  case True
  then show ?thesis
    by (auto simp: drain_live_def settleDrainIfIdle_def destroyAll_def)
next
  case False
  moreover have "\<exists>w \<in> set (wp_workers st). busy st w" if "wp_queue st \<noteq> []"
  proof -
    have "wp_idle st = []" "wp_workers st \<noteq> []"
      using assms that by (auto simp: saturated_def)
    then show ?thesis
      using assms(1) by (auto simp: pool_ok_def neq_Nil_conv)
  qed
  ultimately show ?thesis
    by (auto simp: drain_live_def settleDrainIfIdle_def list_ex_iff)
qed

text \<open>The promise of \<open>drain\<close>: what the internal steps may do to it.\<close>

definition drain_view :: "('p, 'v) pool \<Rightarrow> pool_state \<times> bool \<times> bool \<times> bool \<times> nat" where
  "drain_view st = (wp_state st, wp_drained st, wp_resolveDrained st, wp_drainResolved st, wp_destroying st)"

definition quiet :: "('p, 'v) pool \<Rightarrow> ('p, 'v) pool \<Rightarrow> bool" where
  "quiet st st' \<longleftrightarrow> drain_view st' = drain_view st \<or>
     wp_state st = Draining \<and> drain_view st' = (Closed, wp_drained st, wp_resolveDrained st, wp_drainResolved st, wp_destroying st + 1)"

lemma drain_view_simps [simp]:
  "drain_view (st\<lparr>wp_queue := q\<rparr>) = drain_view st" "drain_view (st\<lparr>wp_idle := i\<rparr>) = drain_view st"
  by (simp_all add: drain_view_def)

lemma quiet_trans: "quiet a b \<Longrightarrow> quiet b c \<Longrightarrow> quiet a c"
  by (auto simp: quiet_def drain_view_def)

lemma quiet_same: "drain_view a' = drain_view a \<Longrightarrow> quiet a' b \<Longrightarrow> quiet a b"
  by (auto simp: quiet_def drain_view_def)

lemma quiet_settleDrain: "quiet st (settleDrainIfIdle st)"
  by (simp add: quiet_def drain_view_def settleDrainIfIdle_def destroyAll_def)

lemma quiet_refl [simp]: "quiet st st"
  by (simp add: quiet_def)

lemma quiet_finish:
  "(\<And>st. quiet st (f st)) \<Longrightarrow> drain_view st' = drain_view st \<Longrightarrow> quiet st (settleDrainIfIdle (f st'))"
  by (rule quiet_same [OF _ quiet_trans [OF _ quiet_settleDrain]])

lemma quiet_retire: "(\<And>st. quiet st (f st)) \<Longrightarrow> quiet st (retire_with f w st)"
  by (simp add: retire_with_def Let_def quiet_finish drain_view_def)

lemma quiet_release: "(\<And>st. quiet st (f st)) \<Longrightarrow> quiet st (release_with f w st)"
  by (simp add: release_with_def quiet_finish quiet_retire drain_view_def)

lemma quiet_dispatch:
  assumes "\<And>st. quiet st (f st)"
  shows "quiet st (dispatch_with f cloneable w queued st)"
proof -
  have "quiet st (release_with f w st')" if "drain_view st' = drain_view st" for st'
    using quiet_same [OF that quiet_release [of f, OF assms]] .
  then show ?thesis
    by (simp add: dispatch_with_def Let_def settle_def set_current_def drain_view_def quiet_def)
qed

lemma quiet_pump_loop: "quiet st (pump_loop cloneable turns st)"
proof (induction turns arbitrary: st)
  case (Suc turns)
  have "quiet st (pump_loop cloneable turns (dispatch_with (pump_loop cloneable turns) cloneable w queued st'))"
    if "drain_view st' = drain_view st" for w queued st'
    using quiet_same [OF that quiet_trans [OF quiet_dispatch [OF Suc.IH] Suc.IH]] .
  moreover have "drain_view st' = drain_view st" if "acquireWorker st = Some (w, st')" for w st'
    using that by (auto simp: acquireWorker_def spawn_def drain_view_def split: if_splits)
  ultimately show ?case
    by (auto simp: quiet_def [of st "wp_idle_update _ _"] split: option.splits list.splits)
qed simp

definition drain_ok :: "('p, 'v) pool \<Rightarrow> bool" where
  "drain_ok st \<longleftrightarrow> (wp_state st = Open \<longrightarrow> \<not> wp_drained st) \<and> (wp_state st = Draining \<longrightarrow> wp_drained st) \<and>
     (wp_resolveDrained st \<longrightarrow> wp_drained st \<and> (wp_state st = Draining \<or> 0 < wp_destroying st)) \<and>
     (wp_drained st \<longrightarrow> wp_resolveDrained st \<noteq> wp_drainResolved st) \<and> (\<not> wp_drained st \<longrightarrow> \<not> wp_drainResolved st)"

lemma drain_ok_quiet: "quiet st st' \<Longrightarrow> drain_ok st \<Longrightarrow> drain_ok st'"
  by (auto simp: quiet_def drain_view_def drain_ok_def)

text \<open>The pool between two events.\<close>

definition pool_inv :: "('p, 'v) pool \<Rightarrow> bool" where
  "pool_inv st \<longleftrightarrow> pool_ok None st \<and> saturated st \<and> drain_live st \<and> drain_ok st \<and> 0 < wp_size st"

lemma finish_inv:
  assumes "pool_ok None st" "drain_ok st" "0 < wp_size st"
  shows "pool_inv (settleDrainIfIdle (pump cloneable st))"
    and "promises (settleDrainIfIdle (pump cloneable st)) = promises st"
    and "config (settleDrainIfIdle (pump cloneable st)) = config st"
proof -
  let ?p = "pump cloneable st"
  have p: "pool_ok None ?p" "saturated ?p" "0 < wp_size ?p" "drain_ok ?p"
    using keepsD [OF keeps_pump assms(1), of cloneable] pump_loop_saturates [OF assms(1) order_refl, of cloneable]
      assms(3) drain_ok_quiet [OF quiet_pump_loop assms(2)]
    by (simp_all add: pump_def config_def)
  then show "pool_inv (settleDrainIfIdle ?p)"
    using keepsD [OF keeps_settleDrain p(1)] drain_live_settleDrain [OF p(1-3)] saturated_settleDrain [OF p(2)]
      drain_ok_quiet [OF quiet_settleDrain p(4)]
    by (simp add: pool_inv_def config_def)
  show "promises (settleDrainIfIdle ?p) = promises st" "config (settleDrainIfIdle ?p) = config st"
    using keepsD [OF keeps_comp [OF keeps_settleDrain keeps_pump] assms(1)] by simp_all
qed

lemma release_inv:
  assumes "pool_ok (Some w) st" "drain_ok st" "0 < wp_size st"
  shows "pool_inv (release cloneable w st)" "promises (release cloneable w st) = promises st"
    "config (release cloneable w st) = config st"
proof -
  let ?s = "st\<lparr>wp_idle := wp_idle st @ [w]\<rparr>"
  have "release cloneable w st = settleDrainIfIdle (pump cloneable ?s)"
    using pool_ok_held [OF assms(1)] by (simp add: release_def release_with_def)
  moreover have "promises ?s = promises st" "config ?s = config st" "drain_ok ?s" "0 < wp_size ?s"
    using assms by (simp_all add: promises_def in_flight_def config_def drain_ok_def)
  ultimately show "pool_inv (release cloneable w st)" "promises (release cloneable w st) = promises st"
    "config (release cloneable w st) = config st"
    using finish_inv [OF held_to_idle [OF assms(1)], of cloneable] by simp_all
qed

lemma retire_inv:
  assumes "pool_ok held st" "w \<in> set (wp_workers st)" "\<not> busy st w" "held = None \<or> held = Some w"
    "drain_ok st" "0 < wp_size st"
  shows "pool_inv (retire cloneable w st)" "promises (retire cloneable w st) = promises st"
    "config (retire cloneable w st) = config st"
proof -
  let ?s = "st\<lparr>wp_heap := (wp_heap st)(w := (wp_heap st w)\<lparr>wr_retired := True\<rparr>),
    wp_workers := removeAll w (wp_workers st), wp_idle := remove1 w (wp_idle st)\<rparr>"
  have "\<not> wr_retired (wp_heap st w)"
    using assms(1,2) by (auto simp: pool_ok_def)
  then have "retire cloneable w st = settleDrainIfIdle (pump cloneable ?s)"
    by (simp add: retire_def retire_with_def)
  moreover have "promises ?s = promises st" "config ?s = config st" "drain_ok ?s" "0 < wp_size ?s"
    using assms(5,6) in_flight_same [of ?s st] by (simp_all add: promises_def config_def drain_ok_def)
  ultimately show "pool_inv (retire cloneable w st)" "promises (retire cloneable w st) = promises st"
    "config (retire cloneable w st) = config st"
    using finish_inv [OF held_removed [OF assms(1-4)], of cloneable] by simp_all
qed

section \<open>Every event keeps the invariant\<close>

lemma clear_current:
  fixes outcome
  assumes "pool_ok None st" "wr_current (wp_heap st w) = Some current"
  defines "st' \<equiv> settle (ft_promise current) outcome (set_current w None st)"
  shows "pool_ok (Some w) st'" "promises st' = promises st" "config st' = config st"
    "drain_ok st' = drain_ok st" "wp_size st' = wp_size st" "w \<in> set (wp_workers st')" "\<not> busy st' w"
proof -
  have w: "w \<in> set (wp_workers st)" "w \<notin> set (wp_idle st)" "w < wp_spawned st"
    using assms(1,2) by (auto simp: pool_ok_def busy_def)
  show "pool_ok (Some w) st'"
    using assms(1) w by (auto simp: st'_def pool_ok_def settle_def set_current_def busy_def)
  show "promises st' = promises st"
    using in_flight_set_current [OF w(3), of None] assms(2)
    by (simp add: st'_def promises_def settle_def on_thread_def) (simp add: set_current_def in_flight_def)
  show "config st' = config st" "drain_ok st' = drain_ok st" "wp_size st' = wp_size st" "w \<in> set (wp_workers st')"
    "\<not> busy st' w"
    using w by (simp_all add: st'_def config_def drain_ok_def settle_def set_current_def busy_def)
qed

definition evolves :: "nat multiset \<Rightarrow> ('p, 'v) pool \<Rightarrow> ('p, 'v) pool \<Rightarrow> bool" where
  "evolves new st st' \<longleftrightarrow> pool_inv st' \<and> promises st' = new + promises st \<and> config st' = config st"

lemma evolves_refl: "pool_inv st \<Longrightarrow> evolves {#} st st"
  by (simp add: evolves_def)

lemma pool_invD:
  assumes "pool_inv st"
  shows "pool_ok None st" "drain_ok st" "0 < wp_size st" "saturated st" "drain_live st"
  using assms by (simp_all add: pool_inv_def)

lemma onMessage_evolves:
  assumes "pool_inv st"
  shows "evolves {#} st (onMessage cloneable w msg st)"
proof (cases "\<exists>tid answer current. msg = TaskResponse tid answer \<and> wr_current (wp_heap st w) = Some current \<and> ft_id current = tid")
  case True
  then obtain answer current where m: "msg = TaskResponse (ft_id current) answer" "wr_current (wp_heap st w) = Some current"
    by auto
  note cc = clear_current [OF pool_invD(1) [OF assms] m(2)]
  show ?thesis
    using m release_inv [OF cc(1), of _ cloneable] cc(2-5) pool_invD(2,3) [OF assms]
    by (simp add: onMessage_def evolves_def)
next
  case False
  then have "onMessage cloneable w msg st = st"
    by (auto simp: onMessage_def split: message.splits option.splits)
  then show ?thesis
    using assms by (simp add: evolves_refl)
qed

lemma onTimeout_evolves:
  assumes "pool_inv st"
  shows "evolves {#} st (onTimeout cloneable w tid st)"
proof (cases "\<exists>current. wr_current (wp_heap st w) = Some current \<and> ft_id current = tid")
  case True
  then obtain current where m: "ft_id current = tid" "wr_current (wp_heap st w) = Some current"
    by auto
  note cc = clear_current [OF pool_invD(1) [OF assms] m(2)]
  show ?thesis
    using m retire_inv [OF cc(1,6,7), of _ cloneable] cc(2-5) pool_invD(2,3) [OF assms]
    by (simp add: onTimeout_def evolves_def)
next
  case False
  then have "onTimeout cloneable w tid st = st"
    by (auto simp: onTimeout_def split: option.splits)
  then show ?thesis
    using assms by (simp add: evolves_refl)
qed

lemma onWorkerFailure_evolves:
  assumes "pool_inv st" "w < wp_spawned st"
  shows "evolves {#} st (onWorkerFailure cloneable w err st)"
proof (cases "wr_retired (wp_heap st w)")
  case True
  then show ?thesis
    using assms by (simp add: onWorkerFailure_def evolves_refl)
next
  case False
  note inv = pool_invD [OF assms(1)]
  have w: "w \<in> set (wp_workers st)"
    using inv(1) assms(2) False by (auto simp: pool_ok_def)
  show ?thesis
  proof (cases "wr_current (wp_heap st w)")
    case None
    then show ?thesis
      using False retire_inv [OF inv(1) w, of cloneable] inv(2,3)
      by (simp add: onWorkerFailure_def evolves_def busy_def)
  next
    case (Some current)
    note cc = clear_current [OF inv(1) Some]
    show ?thesis
      using False Some retire_inv [OF cc(1,6,7), of _ cloneable] cc(2-5) inv(2,3)
      by (simp add: onWorkerFailure_def evolves_def)
  qed
qed

lemma settle_evolves: "pool_inv st \<Longrightarrow> evolves {#promise#} st (settle promise outcome st)"
  by (auto simp: evolves_def pool_inv_def pool_ok_def saturated_def drain_live_def drain_ok_def busy_def settle_def
      promises_def in_flight_def config_def)

lemma dispatch_evolves:
  assumes "pool_inv st" "wp_state st = Open" "acquireWorker st = Some (w, st')"
  shows "evolves {#qt_promise queued#} st (dispatch cloneable w queued st')"
proof -
  note inv = pool_invD [OF assms(1)]
  have opened: "wp_state st \<noteq> Closed"
    using assms(2) by simp
  note got = pool_ok_acquire [OF inv(1) opened assms(3)]
  have queue: "wp_queue st' = []" and view: "drain_view st' = drain_view st"
    using inv(4) assms(3) by (auto simp: saturated_def acquireWorker_def spawn_def drain_view_def split: if_splits)
  let ?d = "dispatch cloneable w queued st'"
  have d: "pool_ok None ?d" "promises ?d = add_mset (qt_promise queued) (promises st)" "config ?d = config st"
    using keeps_dispatch [OF keeps_pump, of w st' cloneable cloneable queued] got unfolding dispatch_def by simp_all
  have "quiet st ?d"
    using quiet_same [OF view quiet_dispatch [of "pump cloneable"]] quiet_pump_loop
    unfolding dispatch_def pump_def by blast
  then have "drain_ok ?d" "wp_state ?d = Open"
    using drain_ok_quiet [of st ?d] inv(2) assms(2) by (simp, simp add: quiet_def drain_view_def)
  moreover have "wp_queue ?d = []"
    using shrinks_dispatch [of "pump cloneable" cloneable w queued st'] shrinks_pump_loop queue
    unfolding dispatch_def shrinks_def pump_def by fastforce
  ultimately show ?thesis
    using d inv(3) by (simp add: evolves_def pool_inv_def saturated_def drain_live_def config_def)
qed

lemma run_evolves:
  assumes "pool_inv st"
  shows "evolves {#promise#} st (run cloneable promise task payload timeoutMs st)"
proof (cases "wp_state st = Open")
  case False
  then show ?thesis
    using settle_evolves [OF assms] by (simp add: run_def)
next
  case True
  show ?thesis
  proof (cases "acquireWorker st")
    case None
    then have full: "wp_idle st = []" "length (wp_workers st) = wp_size st"
      using assms by (auto simp: acquireWorker_def pool_inv_def pool_ok_def split: if_splits)
    have "evolves {#promise#} st (st\<lparr>wp_queue := wp_queue st @ [queued]\<rparr>)"
      if "length (wp_queue st) < wp_maxQueueDepth st" "qt_promise queued = promise" for queued
      using that full True assms
      by (auto simp: evolves_def pool_inv_def pool_ok_def saturated_def drain_live_def drain_ok_def busy_def
          promises_def in_flight_def config_def)
    then show ?thesis
      using None True settle_evolves [OF assms] by (simp add: run_def Let_def)
  next
    case (Some a)
    obtain w st' where a: "a = (w, st')"
      by (cases a)
    have "evolves {#promise#} st (dispatch cloneable w queued st')" if "qt_promise queued = promise" for queued
      using dispatch_evolves [OF assms True, of w st' queued cloneable] Some a that by simp
    then show ?thesis
      using True Some a by (simp add: run_def Let_def)
  qed
qed

lemma drain_evolves:
  assumes "pool_inv st"
  shows "evolves {#} st (drain st)"
proof (cases "wp_state st = Closed \<or> wp_drained st")
  case True
  then have "drain st = st"
    by (auto simp: drain_def)
  then show ?thesis
    using assms by (simp add: evolves_refl)
next
  case False
  note inv = pool_invD [OF assms]
  let ?s = "st\<lparr>wp_state := Draining, wp_drained := True, wp_resolveDrained := True\<rparr>"
  have s: "pool_ok None ?s" "saturated ?s" "0 < wp_size ?s" "drain_ok ?s" "promises ?s = promises st" "config ?s = config st"
    using inv False by (auto simp: pool_ok_def saturated_def drain_ok_def promises_def in_flight_def config_def busy_def)
  have "drain st = settleDrainIfIdle ?s"
    using False by (simp add: drain_def)
  then show ?thesis
    using keepsD [OF keeps_settleDrain s(1)] drain_live_settleDrain [OF s(1-3)] saturated_settleDrain [OF s(2)]
      drain_ok_quiet [OF quiet_settleDrain s(4)] s(3,5,6)
    by (simp add: evolves_def pool_inv_def config_def)
qed

lemma reject_current_props:
  "\<forall>w \<in> set ws. w < wp_spawned st \<Longrightarrow>
   promises (reject_current ws st) = promises st \<and> config (reject_current ws st) = config st \<and>
   (\<forall>w. busy (reject_current ws st) w \<longleftrightarrow> busy st w \<and> w \<notin> set ws) \<and>
   (\<forall>w. wr_retired (wp_heap (reject_current ws st) w) = wr_retired (wp_heap st w)) \<and>
   wp_spawned (reject_current ws st) = wp_spawned st \<and> wp_queue (reject_current ws st) = wp_queue st \<and>
   drain_view (reject_current ws st) = drain_view st"
proof (induction ws arbitrary: st)
  case (Cons w ws)
  define st' where "st' = (case wr_current (wp_heap st w) of None \<Rightarrow> st
    | Some current \<Rightarrow> settle (ft_promise current) (Rejected (WorkerPoolClosedError Closed)) (set_current w None st))"
  have "promises st' = promises st"
    using in_flight_set_current [of w st None] Cons.prems
    by (auto simp: st'_def promises_def settle_def on_thread_def split: option.splits)
      (auto simp: set_current_def in_flight_def)
  moreover have "config st' = config st" "busy st' v \<longleftrightarrow> busy st v \<and> v \<noteq> w"
    "wr_retired (wp_heap st' v) = wr_retired (wp_heap st v)" "wp_spawned st' = wp_spawned st" "wp_queue st' = wp_queue st"
    "drain_view st' = drain_view st" for v
    by (auto simp: st'_def config_def settle_def set_current_def busy_def drain_view_def split: option.splits)
  ultimately show ?case
    using Cons.IH [of st'] Cons.prems by (auto simp flip: st'_def)
qed simp

lemma destroyAll_ok:
  assumes "\<And>w. \<not> busy st w" "wp_queue st = []"
    "\<And>w. w < wp_spawned st \<Longrightarrow> w \<notin> set ws \<Longrightarrow> wr_retired (wp_heap st w)"
  shows "pool_ok None (destroyAll ws st)"
  using assms by (auto simp: pool_ok_def destroyAll_def busy_def)

lemma promises_destroyAll: "promises (destroyAll ws st) = promises st"
  by (simp add: promises_def in_flight_def destroyAll_def if_distrib cong: if_cong)

lemma terminate_evolves:
  assumes "pool_inv st"
  shows "evolves {#} st (terminate st)"
proof (cases "wp_state st = Closed")
  case True
  then show ?thesis
    using assms by (simp add: terminate_def evolves_refl)
next
  case False
  note inv = pool_invD [OF assms]
  let ?s = "st\<lparr>wp_state := Closed, wp_queue := [],
     wp_settled := wp_settled st @ map (\<lambda>queued. (qt_promise queued, Rejected (WorkerPoolClosedError Closed))) (wp_queue st)\<rparr>"
  let ?r = "reject_current (wp_workers st) ?s"
  have "\<forall>w \<in> set (wp_workers st). w < wp_spawned ?s"
    using inv(1) by (auto simp: pool_ok_def)
  note rej = reject_current_props [OF this]
  have t: "terminate st = destroyAll (wp_workers st) ?r"
    using False by (simp add: terminate_def Let_def)
  have still: "\<not> busy ?r w" for w
    using rej inv(1) by (auto simp: pool_ok_def busy_def)
  have r: "wp_queue ?r = []" "wp_spawned ?r = wp_spawned st" "\<And>w. wr_retired (wp_heap ?r w) = wr_retired (wp_heap st w)"
    using rej by simp_all
  have "pool_ok None (terminate st)"
    unfolding t by (rule destroyAll_ok) (use r still inv(1) in \<open>auto simp: pool_ok_def\<close>)
  moreover have "promises ?s = promises st"
    by (simp add: promises_def in_flight_def comp_def)
  then have "promises (terminate st) = promises st"
    using rej promises_destroyAll [of "wp_workers st" ?r] unfolding t by simp
  moreover have "drain_ok (terminate st)"
    using rej inv(2) False unfolding t
    by (cases "wp_state st") (auto simp: drain_ok_def destroyAll_def drain_view_def)
  ultimately show ?thesis
    using rej inv(3) unfolding t
    by (simp add: evolves_def pool_inv_def saturated_def drain_live_def config_def destroyAll_def drain_view_def)
qed

lemma destroyed_evolves: "pool_inv st \<Longrightarrow> evolves {#} st (pool_do cloneable Destroyed st)"
  by (auto simp: evolves_def pool_inv_def pool_ok_def saturated_def drain_live_def drain_ok_def busy_def
      promises_def in_flight_def config_def resolveDrainedIfPending_def)

primrec new_promises :: "('p, 'v) pool_event \<Rightarrow> nat multiset" where
  "new_promises (Run promise task payload timeoutMs) = {#promise#}"
| "new_promises (Message w msg) = {#}"
| "new_promises (Timer w tid) = {#}"
| "new_promises (Failure w err) = {#}"
| "new_promises Drain = {#}"
| "new_promises Terminate = {#}"
| "new_promises Destroyed = {#}"

lemma pool_do_evolves:
  assumes "pool_inv st"
  shows "evolves (new_promises e) st (pool_do cloneable e st)"
  using run_evolves [OF assms] onMessage_evolves [OF assms] onTimeout_evolves [OF assms]
    onWorkerFailure_evolves [OF assms] drain_evolves [OF assms] terminate_evolves [OF assms]
    destroyed_evolves [OF assms, of cloneable] evolves_refl [OF assms]
  by (cases e) (simp_all del: pool_do.simps(7))

interpretation pool: step_invariant "pool_do cloneable" pool_inv for cloneable
  by unfold_locales (use pool_do_evolves evolves_def in blast)

lemma createPool_inv:
  "createPool sz maxQueueDepth taskTimeoutMs retryAfterSeconds = Inr st \<Longrightarrow>
   pool_inv st \<and> promises st = {#} \<and> config st = (nat sz, nat maxQueueDepth)"
  by (auto simp: createPool_def assertPositiveInteger_def assertNonNegativeInteger_def Let_def pool_inv_def pool_ok_def
      saturated_def drain_live_def drain_ok_def busy_def fresh_record_def promises_def in_flight_def on_thread_def config_def
      split: if_splits option.splits)

lemma pool_run_promises:
  "pool_inv st \<Longrightarrow> promises (fold (pool_do cloneable) es st) = (\<Sum>e \<leftarrow> es. new_promises e) + promises st \<and>
   config (fold (pool_do cloneable) es st) = config st"
proof (induction es arbitrary: st)
  case (Cons e es)
  then show ?case
    using pool_do_evolves [OF Cons.prems, of e cloneable] by (simp add: evolves_def ac_simps)
qed simp

section \<open>Draining ends\<close>

definition outstanding :: "('p, 'v) pool \<Rightarrow> nat" where
  "outstanding st = length (wp_queue st) + size (in_flight st)"

lemma outstanding_promises: "size (promises st) = outstanding st + length (wp_settled st)"
  by (simp add: promises_def outstanding_def)

definition settled_grows :: "('p, 'v) pool \<Rightarrow> ('p, 'v) pool \<Rightarrow> bool" where
  "settled_grows st st' \<longleftrightarrow> length (wp_settled st) \<le> length (wp_settled st')"

lemma settled_settleDrain [simp]: "wp_settled (settleDrainIfIdle st) = wp_settled st"
  by (simp add: settleDrainIfIdle_def destroyAll_def)

lemma settled_dispatch:
  assumes "\<And>st. settled_grows st (f st)"
  shows "settled_grows st (dispatch_with f cloneable w queued st)"
proof -
  have "settled_grows st (f st')" if "length (wp_settled st) \<le> length (wp_settled st')" for st'
    using assms [of st'] that by (simp add: settled_grows_def)
  then show ?thesis
    by (simp add: settled_grows_def dispatch_with_def release_with_def retire_with_def Let_def settle_def set_current_def)
qed

lemma settled_pump_loop: "settled_grows st (pump_loop cloneable turns st)"
proof (induction turns arbitrary: st)
  case (Suc turns)
  have "settled_grows st (pump_loop cloneable turns (dispatch_with (pump_loop cloneable turns) cloneable w queued st'))"
    if "wp_settled st' = wp_settled st" for w queued st'
    using settled_dispatch [of "pump_loop cloneable turns", OF Suc.IH, of st'] Suc.IH that
    unfolding settled_grows_def by (metis order_trans)
  moreover have "wp_settled st' = wp_settled st" if "acquireWorker st = Some (w, st')" for w st'
    using that by (auto simp: acquireWorker_def spawn_def split: if_splits)
  ultimately show ?case
    by (auto simp: settled_grows_def [of st "wp_idle_update _ _"] settled_grows_def [of st st]
        split: option.splits list.splits)
qed (simp add: settled_grows_def)

text \<open>A timer that finds its task takes it off the pool's hands.\<close>

lemma onTimeout_progress:
  assumes "pool_inv st" "wp_state st = Draining" "wr_current (wp_heap st w) = Some current"
  shows "outstanding (onTimeout cloneable w (ft_id current) st) < outstanding st"
    and "wp_state (onTimeout cloneable w (ft_id current) st) \<noteq> Open"
    and "wp_drained (onTimeout cloneable w (ft_id current) st) = wp_drained st"
proof -
  let ?s = "settle (ft_promise current) (Rejected (WorkerTaskTimeoutError (ft_task current) (ft_timeoutMs current)))
    (set_current w None st)"
  have t: "onTimeout cloneable w (ft_id current) st = retire cloneable w ?s"
    using assms(3) by (simp add: onTimeout_def)
  have "\<not> wr_retired (wp_heap ?s w)"
    using assms(1,3) by (auto simp: pool_inv_def pool_ok_def busy_def settle_def set_current_def)
  then have "length (wp_settled ?s) \<le> length (wp_settled (retire cloneable w ?s))"
    using settled_pump_loop unfolding retire_def retire_with_def pump_def settled_grows_def
    by (auto simp: Let_def intro: order_trans [OF _ settled_pump_loop [unfolded settled_grows_def]])
  then have "length (wp_settled st) < length (wp_settled (onTimeout cloneable w (ft_id current) st))"
    unfolding t by (simp add: settle_def set_current_def)
  moreover have "promises (onTimeout cloneable w (ft_id current) st) = promises st"
    using onTimeout_evolves [OF assms(1), of cloneable w "ft_id current"] by (simp add: evolves_def)
  ultimately show "outstanding (onTimeout cloneable w (ft_id current) st) < outstanding st"
    using outstanding_promises [of st] outstanding_promises [of "onTimeout cloneable w (ft_id current) st"] by simp
  have "quiet ?s (retire cloneable w ?s)"
    unfolding retire_def pump_def by (rule quiet_retire) (rule quiet_pump_loop)
  then show "wp_state (onTimeout cloneable w (ft_id current) st) \<noteq> Open"
    and "wp_drained (onTimeout cloneable w (ft_id current) st) = wp_drained st"
    using assms(2) unfolding t by (auto simp: quiet_def drain_view_def settle_def set_current_def)
qed

primrec is_timer :: "('p, 'v) pool_event \<Rightarrow> bool" where
  "is_timer (Timer w tid) = True"
| "is_timer (Run promise task payload timeoutMs) = False"
| "is_timer (Message w msg) = False"
| "is_timer (Failure w err) = False"
| "is_timer Drain = False"
| "is_timer Terminate = False"
| "is_timer Destroyed = False"

lemma drain_by_timers:
  "pool_inv st \<Longrightarrow> wp_state st = Draining \<Longrightarrow>
   \<exists>ts. list_all is_timer ts \<and> length ts \<le> outstanding st
     \<and> wp_state (fold (pool_do cloneable) ts st) = Closed \<and> wp_drained (fold (pool_do cloneable) ts st)"
proof (induction "outstanding st" arbitrary: st rule: less_induct)
  case less
  obtain w current where w: "w \<in> set (wp_workers st)" "wr_current (wp_heap st w) = Some current"
    using less.prems by (auto simp: pool_inv_def drain_live_def busy_def)
  have spawned: "w < wp_spawned st"
    using w less.prems(1) by (auto simp: pool_inv_def pool_ok_def)
  let ?st = "onTimeout cloneable w (ft_id current) st"
  have do: "pool_do cloneable (Timer w (ft_id current)) st = ?st"
    using spawned by simp
  note progress = onTimeout_progress [OF less.prems w(2), of cloneable]
  have inv: "pool_inv ?st"
    using onTimeout_evolves [OF less.prems(1), of cloneable w "ft_id current"] by (simp add: evolves_def)
  show ?case
  proof (cases "wp_state ?st = Closed")
    case True
    then show ?thesis
      using progress(1,3) do less.prems by (intro exI [of _ "[Timer w (ft_id current)]"]) (simp add: pool_inv_def drain_ok_def del: pool_do.simps)
  next
    case False
    then have "wp_state ?st = Draining"
      using progress(2) by (cases "wp_state ?st") simp_all
    then obtain ts where "list_all is_timer ts" "length ts \<le> outstanding ?st" "wp_state (fold (pool_do cloneable) ts ?st) = Closed"
      "wp_drained (fold (pool_do cloneable) ts ?st)"
      using less.hyps [OF progress(1) inv] by blast
    then show ?thesis
      using progress(1) do by (intro exI [of _ "Timer w (ft_id current) # ts"]) (simp del: pool_do.simps)
  qed
qed

lemma closed_all_settled:
  "pool_inv st \<Longrightarrow> wp_state st = Closed \<Longrightarrow> promises st = mset (map fst (wp_settled st))"
  using in_flight_idle [of st] by (simp add: pool_inv_def pool_ok_def promises_def)

section \<open>Properties\<close>

text \<open>
  C1: Whatever the callers, the threads, the timers and the shutdown do, and in whatever order,
  every call of \<open>run\<close> is in exactly one place: waiting, on one thread, or settled once. None is
  lost and none is settled twice; and once the pool is closed all of them are settled.
\<close>

theorem every_call_settles_once:
  assumes "createPool sz maxQueueDepth taskTimeoutMs retryAfterSeconds = Inr st"
  shows "promises (fold (pool_do cloneable) es st) = (\<Sum>e \<leftarrow> es. new_promises e) \<and>
    (wp_state (fold (pool_do cloneable) es st) = Closed \<longrightarrow>
       mset (map fst (wp_settled (fold (pool_do cloneable) es st))) = (\<Sum>e \<leftarrow> es. new_promises e))"
  using pool_run_promises [of st cloneable es] pool.run_keeps [of st cloneable es] createPool_inv [OF assms]
    closed_all_settled [of "fold (pool_do cloneable) es st"]
  by simp

definition example_pool :: "(bool, nat) pool" where
  "example_pool = (case createPool 1 1 5 None of Inr st \<Rightarrow> st)"

lemma example_pool: "createPool 1 1 5 None = Inr example_pool"
  by (simp add: example_pool_def createPool_def assertPositiveInteger_def assertNonNegativeInteger_def)

theorem every_call_settles_once_witness:
  "mset (map fst (wp_settled (fold (pool_do (\<lambda>p. p)) [Run 7 ''a'' True None, Run 8 ''b'' False None, Drain, Timer 0 1] example_pool))) =
   {#7, 8#}"
  using every_call_settles_once [OF example_pool, of "\<lambda>p. p" "[Run 7 ''a'' True None, Run 8 ''b'' False None, Drain, Timer 0 1]"]
  by (simp add: example_pool_def createPool_def assertPositiveInteger_def assertNonNegativeInteger_def run_def
      acquireWorker_def spawn_def dispatch_def dispatch_with_def set_current_def drain_def settleDrainIfIdle_def
      list_ex_iff busy_def onTimeout_def retire_def retire_with_def settle_def pump_def Let_def fresh_record_def
      release_with_def destroyAll_def)

text \<open>
  C22: The pool never has more threads than its size nor more waiting tasks than its bound, and it
  never lets work wait beside a free thread: while a task is queued, every thread the size allows
  has been spawned and is running a task.
\<close>

theorem pool_is_bounded_and_work_conserving:
  assumes "createPool sz maxQueueDepth taskTimeoutMs retryAfterSeconds = Inr st"
    and "s = stats (fold (pool_do cloneable) es st)"
  shows "int (ps_spawned s) \<le> sz \<and> int (ps_queued s) \<le> maxQueueDepth \<and> ps_busy s \<le> ps_spawned s \<and>
    (0 < ps_queued s \<longrightarrow> int (ps_busy s) = sz)"
proof -
  let ?st = "fold (pool_do cloneable) es st"
  have inv: "pool_ok None ?st" "saturated ?st" "0 < wp_size ?st"
    and c: "wp_size ?st = nat sz" "wp_maxQueueDepth ?st = nat maxQueueDepth"
    using pool.run_keeps [of st cloneable es] pool_run_promises [of st cloneable es] createPool_inv [OF assms(1)]
    by (auto simp: pool_inv_def config_def)
  have nonneg: "0 \<le> sz" "0 \<le> maxQueueDepth"
    using assms(1) by (auto simp: createPool_def assertPositiveInteger_def assertNonNegativeInteger_def Let_def
        split: if_splits option.splits)
  have "filter (busy ?st) (wp_workers ?st) = wp_workers ?st" if "wp_queue ?st \<noteq> []"
    using inv that by (intro filter_True) (auto simp: pool_ok_def saturated_def)
  then show ?thesis
    using inv c nonneg by (auto simp: assms(2) stats_def pool_ok_def saturated_def)
qed

theorem pool_is_bounded_and_work_conserving_witness:
  "ps_spawned (stats (fold (pool_do (\<lambda>p. p)) [Run 7 ''a'' True None, Run 8 ''b'' True None] example_pool)) \<le> 1"
  using pool_is_bounded_and_work_conserving
    [OF example_pool refl, of "\<lambda>p. p" "[Run 7 ''a'' True None, Run 8 ''b'' True None]"]
  by simp

text \<open>
  C23: A drain ends. In whatever state a draining pool is, the deadlines of the tasks it has on its
  threads, and of those it then starts, close it in at most as many steps as there are calls
  outstanding, with every call settled; the promise that \<open>drain\<close> returned then exists, and the
  continuation of the destruction fulfils it.
\<close>

theorem drain_completes:
  assumes "createPool sz maxQueueDepth taskTimeoutMs retryAfterSeconds = Inr st0"
    and "st = fold (pool_do cloneable) es st0" and "wp_state st = Draining"
  shows "\<exists>ts. list_all is_timer ts \<and> length ts \<le> outstanding st \<and>
    (let closed = fold (pool_do cloneable) ts st in
       wp_state closed = Closed \<and> outstanding closed = 0 \<and> wp_drained closed \<and> wp_drainResolved (pool_do cloneable Destroyed closed))"
proof -
  have inv: "pool_inv st"
    using pool.run_keeps [of st0 cloneable es] createPool_inv [OF assms(1)] assms(2) by simp
  obtain ts where ts: "list_all is_timer ts" "length ts \<le> outstanding st" "wp_state (fold (pool_do cloneable) ts st) = Closed"
    "wp_drained (fold (pool_do cloneable) ts st)"
    using drain_by_timers [OF inv assms(3), of cloneable] by blast
  let ?c = "fold (pool_do cloneable) ts st"
  have closed: "pool_inv ?c"
    using pool.run_keeps [OF inv] .
  have "outstanding ?c = 0"
    using closed_all_settled [OF closed ts(3)] outstanding_promises [of ?c] by simp
  moreover have "wp_drainResolved (pool_do cloneable Destroyed ?c)"
    using closed ts(3,4) by (auto simp: pool_inv_def drain_ok_def resolveDrainedIfPending_def)
  ultimately show ?thesis
    using ts unfolding Let_def by blast
qed

theorem drain_completes_witness:
  "\<exists>ts. list_all is_timer ts \<and>
    (let st = fold (pool_do (\<lambda>p. p)) [Run 7 ''a'' True None, Run 8 ''b'' True None, Drain] example_pool;
         closed = fold (pool_do (\<lambda>p. p)) ts st in
       length ts \<le> outstanding st \<and> wp_state closed = Closed \<and> outstanding closed = 0
         \<and> wp_drainResolved (pool_do (\<lambda>p. p) Destroyed closed))"
proof -
  let ?st = "fold (pool_do (\<lambda>p. p)) [Run 7 ''a'' True None, Run 8 ''b'' True None, Drain] example_pool"
  have "wp_state ?st = Draining"
    by (simp add: example_pool_def createPool_def assertPositiveInteger_def assertNonNegativeInteger_def run_def
        acquireWorker_def spawn_def dispatch_def dispatch_with_def set_current_def drain_def settleDrainIfIdle_def)
  then show ?thesis
    using drain_completes [OF example_pool refl, of "\<lambda>p. p" "[Run 7 ''a'' True None, Run 8 ''b'' True None, Drain]"]
    unfolding Let_def by blast
qed

text \<open>
  C37: The loop of \<open>pump\<close> ends, although a task that cannot be posted makes it call itself: one
  turn per waiting task is enough and more change nothing, and with that bound \<open>pump\<close> and
  \<open>dispatch\<close> satisfy the mutually recursive equation of the source.
\<close>

theorem pump_terminates:
  "pump_loop cloneable (length (wp_queue st) + extra) st = pump cloneable st \<and>
   pump cloneable st =
     (if wp_queue st = [] \<or> wp_state st = Closed then st
      else case acquireWorker st of
          None \<Rightarrow> st
        | Some (w, st') \<Rightarrow> pump cloneable (dispatch cloneable w (hd (wp_queue st)) (st'\<lparr>wp_queue := tl (wp_queue st)\<rparr>)))"
  using pump_unfold [of cloneable st] pump_loop_enough [of st "length (wp_queue st) + extra" "length (wp_queue st)" cloneable]
  by (simp add: pump_def)

end
