(* ===== verification/Container.thy ===== *)
theory Container
  imports Prelude
begin

text \<open>
  The dependency-injection container (\<open>src/lib/container/container.ts\<close>). A factory is the tree
  of the requests it makes to its resolver: it may ask for a token and go on with what comes
  back, an instance or the error thrown, which it may catch. The container's maps and the maps of
  the scope a resolution runs in are threaded through it; the registrations do not change while
  it runs.
\<close>

section \<open>Data\<close>

datatype lifetime = Singleton | Scoped | Transient

datatype ('t, 'e) container_error =
    UnregisteredTokenError 't "'t list"
  | CaptiveDependencyError 't "'t list"
  | ScopeRequiredError 't
  | MissingSeedError 't
  | CircularDependencyError 't "'t list"
  | DuplicateRegistrationError 't
  | SeedConflictError 't bool
  | DisposedError string
  | FactoryError 'e

type_synonym ('t, 'v, 'e) outcome = "('t, 'e) container_error + 'v"

datatype ('t, 'v, 'e) factory =
    Return 'v
  | Throw "('t, 'e) container_error"
  | Ask 't "('t, 'e) container_error + 'v \<Rightarrow> ('t, 'v, 'e) factory"

text \<open>A disposer returns the error it fails with, if it does.\<close>

record ('t, 'v, 'e) registration =
  rg_lifetime :: lifetime
  rg_factory :: "('t, 'v, 'e) factory option"
  rg_dispose :: "('v \<Rightarrow> 'e option) option"

record ('t, 'v, 'e) owned =
  ow_token :: 't
  ow_instance :: 'v
  ow_dispose :: "'v \<Rightarrow> 'e option"

record ('t, 'v, 'e) scope_state =
  sc_instances :: "('t, 'v) js_map"
  sc_owned :: "('t, 'v, 'e) owned list"

record ('t, 'v, 'e) resolution =
  rv_singletons :: "('t, 'v) js_map"
  rv_ownedSingletons :: "('t, 'v, 'e) owned list"
  rv_scope :: "('t, 'v, 'e) scope_state"

type_synonym ('t, 'v, 'e) registrations = "('t, ('t, 'v, 'e) registration) js_map"

section \<open>Resolution\<close>

primrec run_factory ::
  "('t \<Rightarrow> 's \<Rightarrow> ('t, 'v, 'e) outcome \<times> 's) \<Rightarrow> ('t, 'v, 'e) factory \<Rightarrow> 's \<Rightarrow> ('t, 'v, 'e) outcome \<times> 's" where
  "run_factory resolve (Return v) = (\<lambda>st. (Inr v, st))"
| "run_factory resolve (Throw err) = (\<lambda>st. (Inl err, st))"
| "run_factory resolve (Ask dependency next_step) =
     (\<lambda>st. case resolve dependency st of (answer, st') \<Rightarrow> run_factory resolve (next_step answer) st')"

definition construct ::
  "('t \<Rightarrow> bool \<Rightarrow> 't list \<Rightarrow> 's \<Rightarrow> ('t, 'v, 'e) outcome \<times> 's) \<Rightarrow> 't \<Rightarrow> ('t, 'v, 'e) registration \<Rightarrow>
   bool \<Rightarrow> 't list \<Rightarrow> 's \<Rightarrow> ('t, 'v, 'e) outcome \<times> 's" where
  "construct resolve token registration scoped path st =
     (if token \<in> set path then (Inl (CircularDependencyError token path), st)
      else case rg_factory registration of
          None \<Rightarrow> (Inl (MissingSeedError token), st)
        | Some build \<Rightarrow>
            (let dependencyScope = (if rg_lifetime registration = Singleton then False else scoped) in
             run_factory (\<lambda>dependency. resolve dependency dependencyScope (path @ [token])) build st))"

definition own :: "'t \<Rightarrow> 'v \<Rightarrow> ('v \<Rightarrow> 'e option) option \<Rightarrow> ('t, 'v, 'e) owned list \<Rightarrow> ('t, 'v, 'e) owned list" where
  "own token inst dispose owned =
     (case dispose of
        None \<Rightarrow> owned
      | Some d \<Rightarrow> owned @ [\<lparr>ow_token = token, ow_instance = inst, ow_dispose = d\<rparr>])"

text \<open>What \<open>resolveInternal\<close> does with a new singleton and with a new scoped instance.\<close>

definition keep_singleton ::
  "'t \<Rightarrow> ('v \<Rightarrow> 'e option) option \<Rightarrow> ('t, 'v, 'e) outcome \<times> ('t, 'v, 'e) resolution \<Rightarrow>
   ('t, 'v, 'e) outcome \<times> ('t, 'v, 'e) resolution" where
  "keep_singleton token dispose built =
     (case built of
        (Inl err, st) \<Rightarrow> (Inl err, st)
      | (Inr inst, st) \<Rightarrow>
          (Inr inst, st\<lparr>rv_singletons := js_set token inst (rv_singletons st),
                       rv_ownedSingletons := own token inst dispose (rv_ownedSingletons st)\<rparr>))"

definition keep_scoped ::
  "'t \<Rightarrow> ('v \<Rightarrow> 'e option) option \<Rightarrow> ('t, 'v, 'e) outcome \<times> ('t, 'v, 'e) resolution \<Rightarrow>
   ('t, 'v, 'e) outcome \<times> ('t, 'v, 'e) resolution" where
  "keep_scoped token dispose built =
     (case built of
        (Inl err, st) \<Rightarrow> (Inl err, st)
      | (Inr inst, st) \<Rightarrow>
          (Inr inst, st\<lparr>rv_scope := \<lparr>sc_instances = js_set token inst (sc_instances (rv_scope st)),
                                   sc_owned = own token inst dispose (sc_owned (rv_scope st))\<rparr>\<rparr>))"

lemma run_factory_cong:
  "build = build' \<Longrightarrow> st = st' \<Longrightarrow> (\<And>dependency s. resolve dependency s = resolve' dependency s) \<Longrightarrow>
   run_factory resolve build st = run_factory resolve' build' st'"
  by (metis ext)

lemma construct_cong [fundef_cong]:
  assumes "token = token'" "registration = registration'" "scoped = scoped'" "path = path'" "st = st'"
    and "\<And>dependency s b. token' \<notin> set path' \<Longrightarrow> resolve dependency b (path' @ [token']) s = resolve' dependency b (path' @ [token']) s"
  shows "construct resolve token registration scoped path st = construct resolve' token' registration' scoped' path' st'"
  using assms by (auto simp: construct_def Let_def split: option.splits intro!: run_factory_cong)

text \<open>Every nested resolution has one more registered token on its path.\<close>

lemma path_grows:
  assumes "js_get registrations token = Some registration" "token \<notin> set path"
  shows "card (fst ` set registrations - set (path @ [token])) < card (fst ` set registrations - set path)"
proof (rule psubset_card_mono)
  have "token \<in> fst ` set registrations"
    using assms(1) by (metis js_get_in_set fst_conv imageI)
  then show "fst ` set registrations - set (path @ [token]) \<subset> fst ` set registrations - set path"
    using assms(2) by auto
qed simp

function resolveInternal ::
  "('t, 'v, 'e) registrations \<Rightarrow> 't \<Rightarrow> bool \<Rightarrow> 't list \<Rightarrow> ('t, 'v, 'e) resolution \<Rightarrow>
   ('t, 'v, 'e) outcome \<times> ('t, 'v, 'e) resolution" where
  "resolveInternal registrations token scoped path st =
     (case js_get registrations token of
        None \<Rightarrow> (Inl (UnregisteredTokenError token path), st)
      | Some registration \<Rightarrow>
          (case rg_lifetime registration of
             Singleton \<Rightarrow>
               (case js_get (rv_singletons st) token of
                  Some inst \<Rightarrow> (Inr inst, st)
                | None \<Rightarrow>
                    keep_singleton token (rg_dispose registration)
                      (construct (resolveInternal registrations) token registration False path st))
           | Scoped \<Rightarrow>
               if \<not> scoped then
                 (Inl (if length path > 0 then CaptiveDependencyError token path else ScopeRequiredError token), st)
               else
                 (case js_get (sc_instances (rv_scope st)) token of
                    Some inst \<Rightarrow> (Inr inst, st)
                  | None \<Rightarrow>
                      if rg_factory registration = None then (Inl (MissingSeedError token), st)
                      else keep_scoped token (rg_dispose registration)
                        (construct (resolveInternal registrations) token registration scoped path st))
           | Transient \<Rightarrow> construct (resolveInternal registrations) token registration scoped path st))"
  by pat_completeness auto
termination
  by (relation "measure (\<lambda>(registrations, token, scoped, path, st). card (fst ` set registrations - set path))")
    (simp_all add: path_grows del: set_append)

declare resolveInternal.simps [simp del]

section \<open>Containers and scopes\<close>

record ('t, 'v, 'e) container =
  ct_name :: string
  ct_registrations :: "('t, 'v, 'e) registrations"
  ct_singletons :: "('t, 'v) js_map"
  ct_ownedSingletons :: "('t, 'v, 'e) owned list"
  ct_disposed :: bool

record ('t, 'v, 'e) scope =
  sp_label :: string
  sp_state :: "('t, 'v, 'e) scope_state"
  sp_disposed :: bool

definition createContainer :: "string option \<Rightarrow> ('t, 'v, 'e) container" where
  "createContainer name =
     \<lparr>ct_name = (case name of None \<Rightarrow> ''container'' | Some n \<Rightarrow> n), ct_registrations = [], ct_singletons = [],
      ct_ownedSingletons = [], ct_disposed = False\<rparr>"

definition assertLive :: "('t, 'v, 'e) container \<Rightarrow> ('t, 'e) container_error option" where
  "assertLive c = (if ct_disposed c then Some (DisposedError (''Container '' @ ct_name c)) else None)"

definition register ::
  "'t \<Rightarrow> ('t, 'v, 'e) registration \<Rightarrow> ('t, 'v, 'e) container \<Rightarrow> ('t, 'e) container_error + ('t, 'v, 'e) container" where
  "register token registration c =
     (case assertLive c of
        Some err \<Rightarrow> Inl err
      | None \<Rightarrow>
          if js_has (ct_registrations c) token then Inl (DuplicateRegistrationError token)
          else Inr (c\<lparr>ct_registrations := js_set token registration (ct_registrations c)\<rparr>))"

definition registerSingleton where
  "registerSingleton token build dispose =
     register token \<lparr>rg_lifetime = Singleton, rg_factory = Some build, rg_dispose = dispose\<rparr>"

definition registerScoped where
  "registerScoped token build dispose =
     register token \<lparr>rg_lifetime = Scoped, rg_factory = Some build, rg_dispose = dispose\<rparr>"

definition registerTransient where
  "registerTransient token build =
     register token \<lparr>rg_lifetime = Transient, rg_factory = Some build, rg_dispose = None\<rparr>"

definition registerValue where
  "registerValue token val =
     register token \<lparr>rg_lifetime = Singleton, rg_factory = Some (Return val), rg_dispose = None\<rparr>"

definition registerSeed where
  "registerSeed token = register token \<lparr>rg_lifetime = Scoped, rg_factory = None, rg_dispose = None\<rparr>"

definition has_token :: "('t, 'v, 'e) container \<Rightarrow> 't \<Rightarrow> bool" where
  "has_token c token \<longleftrightarrow> js_has (ct_registrations c) token"

definition enter :: "('t, 'v, 'e) container \<Rightarrow> ('t, 'v, 'e) scope_state \<Rightarrow> ('t, 'v, 'e) resolution" where
  "enter c s = \<lparr>rv_singletons = ct_singletons c, rv_ownedSingletons = ct_ownedSingletons c, rv_scope = s\<rparr>"

definition leave :: "('t, 'v, 'e) resolution \<Rightarrow> ('t, 'v, 'e) container \<Rightarrow> ('t, 'v, 'e) container" where
  "leave st c = c\<lparr>ct_singletons := rv_singletons st, ct_ownedSingletons := rv_ownedSingletons st\<rparr>"

definition empty_scope :: "('t, 'v, 'e) scope_state" where
  "empty_scope = \<lparr>sc_instances = [], sc_owned = []\<rparr>"

text \<open>\<open>container.resolve\<close>.\<close>

definition resolve_root ::
  "'t \<Rightarrow> ('t, 'v, 'e) container \<Rightarrow> ('t, 'v, 'e) outcome \<times> ('t, 'v, 'e) container" where
  "resolve_root token c =
     (case assertLive c of
        Some err \<Rightarrow> (Inl err, c)
      | None \<Rightarrow>
          (case resolveInternal (ct_registrations c) token False [] (enter c empty_scope) of
             (answer, st) \<Rightarrow> (answer, leave st c)))"

definition createScope ::
  "string option \<Rightarrow> ('t, 'v, 'e) container \<Rightarrow> ('t, 'e) container_error + ('t, 'v, 'e) scope" where
  "createScope scopeName c =
     (case assertLive c of
        Some err \<Rightarrow> Inl err
      | None \<Rightarrow> Inr \<lparr>sp_label = (case scopeName of None \<Rightarrow> ct_name c @ '':scope'' | Some n \<Rightarrow> n),
                     sp_state = empty_scope, sp_disposed = False\<rparr>)"

text \<open>\<open>scope.resolve\<close>.\<close>

definition resolve_scope ::
  "'t \<Rightarrow> ('t, 'v, 'e) scope \<Rightarrow> ('t, 'v, 'e) container \<Rightarrow>
   ('t, 'v, 'e) outcome \<times> ('t, 'v, 'e) scope \<times> ('t, 'v, 'e) container" where
  "resolve_scope token s c =
     (if sp_disposed s then (Inl (DisposedError (''Scope '' @ sp_label s)), s, c)
      else case assertLive c of
          Some err \<Rightarrow> (Inl err, s, c)
        | None \<Rightarrow>
            (case resolveInternal (ct_registrations c) token True [] (enter c (sp_state s)) of
               (answer, st) \<Rightarrow> (answer, s\<lparr>sp_state := rv_scope st\<rparr>, leave st c)))"

definition seed ::
  "'t \<Rightarrow> 'v \<Rightarrow> ('t, 'v, 'e) scope \<Rightarrow> ('t, 'v, 'e) container \<Rightarrow> ('t, 'e) container_error + ('t, 'v, 'e) scope" where
  "seed token val s c =
     (if sp_disposed s then Inl (DisposedError (''Scope '' @ sp_label s))
      else case js_get (ct_registrations c) token of
          None \<Rightarrow> Inl (UnregisteredTokenError token [])
        | Some registration \<Rightarrow>
            if rg_lifetime registration \<noteq> Scoped \<or> rg_factory registration \<noteq> None
            then Inl (SeedConflictError token False)
            else if js_has (sc_instances (sp_state s)) token then Inl (SeedConflictError token True)
            else Inr (s\<lparr>sp_state := (sp_state s)\<lparr>sc_instances := js_set token val (sc_instances (sp_state s))\<rparr>\<rparr>))"

text \<open>
  The disposers in the order they are called, each with what it was called on and the error that
  is reported if it fails.
\<close>

definition disposeAll :: "('t, 'v, 'e) owned list \<Rightarrow> ('t \<times> 'v \<times> 'e option) list" where
  "disposeAll owned = map (\<lambda>entry. (ow_token entry, ow_instance entry, ow_dispose entry (ow_instance entry))) (rev owned)"

definition dispose_scope :: "('t, 'v, 'e) scope \<Rightarrow> ('t, 'v, 'e) scope \<times> ('t \<times> 'v \<times> 'e option) list" where
  "dispose_scope s =
     (if sp_disposed s then (s, [])
      else (s\<lparr>sp_disposed := True, sp_state := empty_scope\<rparr>, disposeAll (sc_owned (sp_state s))))"

definition dispose_container ::
  "('t, 'v, 'e) container \<Rightarrow> ('t, 'v, 'e) container \<times> ('t \<times> 'v \<times> 'e option) list" where
  "dispose_container c =
     (if ct_disposed c then (c, [])
      else (c\<lparr>ct_disposed := True, ct_singletons := [], ct_ownedSingletons := []\<rparr>, disposeAll (ct_ownedSingletons c)))"

section \<open>What a resolution may change\<close>

lemma run_factory_keeps:
  assumes "\<And>dependency st. I st \<Longrightarrow> I (snd (resolve dependency st))" "I st"
  shows "I (snd (run_factory resolve build st))"
  using assms(2)
proof (induction build arbitrary: st)
  case (Ask dependency next_step)
  then show ?case
    using assms(1) [of st dependency] by (cases "resolve dependency st") simp
qed simp_all

lemma run_factory_commutes:
  assumes "\<And>dependency st. resolve dependency (f st) = apsnd f (resolve' dependency st)"
  shows "run_factory resolve build (f st) = apsnd f (run_factory resolve' build st)"
proof (induction build arbitrary: st)
  case (Ask dependency next_step)
  then show ?case
    using assms [of dependency st] by (cases "resolve' dependency st") simp
qed simp_all

text \<open>A map that only gains entries, and none for a token of \<open>path\<close>.\<close>

definition gains :: "'t list \<Rightarrow> ('t, 'v) js_map \<Rightarrow> ('t, 'v) js_map \<Rightarrow> bool" where
  "gains path m m' \<longleftrightarrow> (\<forall>u v. js_get m u = Some v \<longrightarrow> js_get m' u = Some v) \<and>
     (\<forall>u \<in> set path. js_get m' u = js_get m u)"

definition extends :: "'t list \<Rightarrow> ('t, 'v, 'e) resolution \<Rightarrow> ('t, 'v, 'e) resolution \<Rightarrow> bool" where
  "extends path st st' \<longleftrightarrow> gains path (rv_singletons st) (rv_singletons st') \<and>
     gains path (sc_instances (rv_scope st)) (sc_instances (rv_scope st'))"

lemma gains_refl [simp]: "gains path m m"
  by (simp add: gains_def)

lemma gains_trans: "gains path a b \<Longrightarrow> gains path b c \<Longrightarrow> gains path a c"
  by (simp add: gains_def)

lemma gains_add: "gains (path @ [token]) m m' \<Longrightarrow> js_get m token = None \<Longrightarrow> token \<notin> set path \<Longrightarrow> gains path m (js_set token v m')"
  by (auto simp: gains_def)

lemma gains_less: "gains (path @ [token]) m m' \<Longrightarrow> gains path m m'"
  by (simp add: gains_def)

lemma extends_refl [simp]: "extends path st st"
  by (simp add: extends_def)

lemma extends_trans: "extends path a b \<Longrightarrow> extends path b c \<Longrightarrow> extends path a c"
  by (auto simp: extends_def intro: gains_trans)

lemma extends_construct:
  assumes "\<And>dependency b st. token \<notin> set path \<Longrightarrow> extends (path @ [token]) st (snd (resolve dependency b (path @ [token]) st))"
  shows "fst (construct resolve token registration scoped path st) = Inl (CircularDependencyError token path) \<and>
      snd (construct resolve token registration scoped path st) = st \<or>
    token \<notin> set path \<and> extends (path @ [token]) st (snd (construct resolve token registration scoped path st))"
proof (cases "token \<in> set path")
  case False
  have "extends (path @ [token]) st (snd (run_factory (\<lambda>dependency. resolve dependency b (path @ [token])) build st))" for b build
    by (rule run_factory_keeps) (use assms False extends_trans in blast, simp)
  then show ?thesis
    using False by (simp add: construct_def Let_def split: option.splits)
qed (simp add: construct_def)

text \<open>
  Induction over a resolution: what holds of the resolutions a factory can ask for, on the path
  with its own token, holds of the resolution that runs the factory.
\<close>

lemma resolve_induct:
  assumes "\<And>token path. (\<And>registration dependency. js_get registrations token = Some registration \<Longrightarrow> token \<notin> set path \<Longrightarrow>
      P dependency (path @ [token])) \<Longrightarrow> P token path"
  shows "P token path"
proof (induction "card (fst ` set registrations - set path)" arbitrary: token path rule: less_induct)
  case less
  show ?case
    by (rule assms) (rule less, rule path_grows)
qed

lemma extends_resolve: "extends path st (snd (resolveInternal registrations token scoped path st))"
proof (induction token path arbitrary: scoped st rule: resolve_induct [where registrations = registrations])
  case (1 token path)
  show ?case
  proof (cases "js_get registrations token")
    case None
    then show ?thesis
      by (simp add: resolveInternal.simps)
  next
    case (Some registration)
    note built = extends_construct [of token path "resolveInternal registrations" registration _ st, OF 1 [OF Some]]
    let ?b = "\<lambda>b. construct (resolveInternal registrations) token registration b path st"
    have less: "extends path st (snd (?b b))" for b
      using built [of b] by (auto simp: extends_def dest: gains_less)
    show ?thesis
    proof (cases "rg_lifetime registration")
      case Singleton
      have "extends path st (snd (keep_singleton token (rg_dispose registration) (?b False)))" if "js_get (rv_singletons st) token = None"
        using built [of False] that less [of False]
        by (auto simp: keep_singleton_def extends_def intro: gains_add split: prod.splits sum.splits)
      then show ?thesis
        using Some Singleton by (simp add: resolveInternal.simps [of _ token] split: option.splits)
    next
      case Scoped
      have "extends path st (snd (keep_scoped token (rg_dispose registration) (?b scoped)))"
        if "js_get (sc_instances (rv_scope st)) token = None"
        using built [of scoped] that less [of scoped]
        by (auto simp: keep_scoped_def extends_def intro: gains_add split: prod.splits sum.splits)
      then show ?thesis
        using Some Scoped by (cases scoped) (simp_all add: resolveInternal.simps [of _ token] split: option.splits)
    next
      case Transient
      then show ?thesis
        using Some less by (simp add: resolveInternal.simps [of _ token])
    qed
  qed
qed

text \<open>At the root the scope is neither read nor written.\<close>

abbreviation in_scope :: "('t, 'v, 'e) scope_state \<Rightarrow> ('t, 'v, 'e) resolution \<Rightarrow> ('t, 'v, 'e) resolution" where
  "in_scope s st \<equiv> st\<lparr>rv_scope := s\<rparr>"

lemma root_ignores_scope:
  "resolveInternal registrations token False path (in_scope s st) =
   apsnd (in_scope s) (resolveInternal registrations token False path st)"
proof (induction token path arbitrary: st rule: resolve_induct [where registrations = registrations])
  case (1 token path)
  show ?case
  proof (cases "js_get registrations token")
    case None
    then show ?thesis
      by (simp add: resolveInternal.simps)
  next
    case (Some registration)
    have built: "construct (resolveInternal registrations) token registration False path (in_scope s st) =
        apsnd (in_scope s) (construct (resolveInternal registrations) token registration False path st)"
    proof (cases "token \<in> set path")
      case False
      then have "run_factory (\<lambda>dependency. resolveInternal registrations dependency False (path @ [token])) build (in_scope s st) =
          apsnd (in_scope s) (run_factory (\<lambda>dependency. resolveInternal registrations dependency False (path @ [token])) build st)"
        for build
        using 1 [OF Some] by (intro run_factory_commutes) blast
      then show ?thesis
        using False by (simp add: construct_def split: option.splits)
    qed (simp add: construct_def)
    have "keep_singleton token d (apsnd (in_scope s) b) = apsnd (in_scope s) (keep_singleton token d b)" for d b
      by (cases b) (simp add: keep_singleton_def split: sum.splits)
    then show ?thesis
      using Some built
      by (cases "rg_lifetime registration") (simp_all add: resolveInternal.simps [of _ token] split: option.splits)
  qed
qed

lemma singleton_ignores_scoped:
  assumes "js_get registrations token = Some registration" "rg_lifetime registration = Singleton"
  shows "resolveInternal registrations token scoped path st = resolveInternal registrations token False path st"
  using assms by (simp add: resolveInternal.simps [of _ token])

section \<open>What is owned\<close>

definition disposable :: "('t, 'v, 'e) registrations \<Rightarrow> 't \<Rightarrow> bool" where
  "disposable registrations token \<longleftrightarrow>
     (case js_get registrations token of None \<Rightarrow> False | Some registration \<Rightarrow> rg_dispose registration \<noteq> None)"

text \<open>
  The owned list of a map of instances: an entry for each instance whose registration has a
  disposer, with that instance, in the order in which the instances were stored.
\<close>

definition owns ::
  "('t, 'v, 'e) registrations \<Rightarrow> ('t, 'v) js_map \<Rightarrow> ('t, 'v, 'e) owned list \<Rightarrow> bool" where
  "owns registrations m owned \<longleftrightarrow>
     js_ok m \<and> fst ` set m \<subseteq> fst ` set registrations \<and>
     map (\<lambda>entry. (ow_token entry, ow_instance entry)) owned = filter (\<lambda>(token, _). disposable registrations token) m"

definition resolution_ok :: "('t, 'v, 'e) registrations \<Rightarrow> ('t, 'v, 'e) resolution \<Rightarrow> bool" where
  "resolution_ok registrations st \<longleftrightarrow> owns registrations (rv_singletons st) (rv_ownedSingletons st) \<and>
     owns registrations (sc_instances (rv_scope st)) (sc_owned (rv_scope st))"

lemma owns_add:
  assumes "owns registrations m owned" "js_get m token = None" "js_get registrations token = Some registration"
  shows "owns registrations (js_set token inst m) (own token inst (rg_dispose registration) owned)"
proof -
  have "token \<in> fst ` set registrations"
    using assms(3) by (metis js_get_in_set fst_conv imageI)
  moreover have "disposable registrations token \<longleftrightarrow> rg_dispose registration \<noteq> None"
    using assms(3) by (simp add: disposable_def)
  moreover have "js_ok (m @ [(token, inst)])"
    using assms(1) js_ok_set [of m token inst] js_set_new [OF assms(2), of inst] by (simp add: owns_def)
  ultimately show ?thesis
    using assms(1) js_set_new [OF assms(2), of inst]
    by (cases "rg_dispose registration") (simp_all add: owns_def own_def)
qed

lemma ok_construct:
  assumes "\<And>dependency b st. token \<notin> set path \<Longrightarrow> resolution_ok registrations st \<Longrightarrow>
      resolution_ok registrations (snd (resolve dependency b (path @ [token]) st))"
    and "resolution_ok registrations st"
  shows "resolution_ok registrations (snd (construct resolve token registration scoped path st))"
proof (cases "token \<in> set path")
  case False
  then have "resolution_ok registrations (snd (run_factory (\<lambda>dependency. resolve dependency b (path @ [token])) build st))" for b build
    by (intro run_factory_keeps [where I = "resolution_ok registrations"] assms)
  then show ?thesis
    using False assms(2) by (simp add: construct_def Let_def split: option.splits)
qed (use assms(2) in \<open>simp add: construct_def\<close>)

lemma ok_resolve:
  "resolution_ok registrations st \<Longrightarrow> resolution_ok registrations (snd (resolveInternal registrations token scoped path st))"
proof (induction token path arbitrary: scoped st rule: resolve_induct [where registrations = registrations])
  case (1 token path)
  show ?case
  proof (cases "js_get registrations token")
    case None
    then show ?thesis
      using 1 by (simp add: resolveInternal.simps)
  next
    case (Some registration)
    let ?b = "\<lambda>b. construct (resolveInternal registrations) token registration b path st"
    have ok: "resolution_ok registrations (snd (?b b))" for b
      using ok_construct [of token path registrations "resolveInternal registrations" st registration b] 1 Some by blast
    have same: "fst (?b b) = Inl (CircularDependencyError token path) \<or>
        js_get (rv_singletons (snd (?b b))) token = js_get (rv_singletons st) token \<and>
        js_get (sc_instances (rv_scope (snd (?b b)))) token = js_get (sc_instances (rv_scope st)) token" for b
      using extends_construct [of token path "resolveInternal registrations" registration b st, OF extends_resolve]
      by (auto simp: extends_def gains_def)
    have "resolution_ok registrations (snd (keep_singleton token (rg_dispose registration) (?b False)))"
      if "js_get (rv_singletons st) token = None"
      using ok [of False] same [of False] that owns_add [OF _ _ Some]
      by (cases "?b False") (auto simp: keep_singleton_def resolution_ok_def split: sum.splits)
    moreover have "resolution_ok registrations (snd (keep_scoped token (rg_dispose registration) (?b True)))"
      if "js_get (sc_instances (rv_scope st)) token = None"
      using ok [of True] same [of True] that owns_add [OF _ _ Some]
      by (cases "?b True") (auto simp: keep_scoped_def resolution_ok_def split: sum.splits)
    ultimately show ?thesis
      using Some 1(2) ok
      by (cases "rg_lifetime registration"; cases scoped)
        (simp_all add: resolveInternal.simps [of _ token] split: option.splits)
  qed
qed

section \<open>A container with its scopes\<close>

type_synonym ('t, 'v, 'e) system = "('t, 'v, 'e) container \<times> ('t, 'v, 'e) scope list"

datatype ('t, 'v, 'e) register_call =
    RegisterSingleton "('t, 'v, 'e) factory" "('v \<Rightarrow> 'e option) option"
  | RegisterScoped "('t, 'v, 'e) factory" "('v \<Rightarrow> 'e option) option"
  | RegisterTransient "('t, 'v, 'e) factory"
  | RegisterValue 'v
  | RegisterSeed

primrec do_register ::
  "('t, 'v, 'e) register_call \<Rightarrow> 't \<Rightarrow> ('t, 'v, 'e) container \<Rightarrow> ('t, 'e) container_error + ('t, 'v, 'e) container" where
  "do_register (RegisterSingleton build dispose) token = registerSingleton token build dispose"
| "do_register (RegisterScoped build dispose) token = registerScoped token build dispose"
| "do_register (RegisterTransient build) token = registerTransient token build"
| "do_register (RegisterValue val) token = registerValue token val"
| "do_register RegisterSeed token = registerSeed token"

datatype ('t, 'v, 'e) container_event =
    Register 't "('t, 'v, 'e) register_call"
  | ResolveRoot 't
  | CreateScope "string option"
  | ResolveScope nat 't
  | Seed nat 't 'v
  | DisposeScope nat
  | DisposeContainer

fun container_do :: "('t, 'v, 'e) container_event \<Rightarrow> ('t, 'v, 'e) system \<Rightarrow> ('t, 'v, 'e) system" where
  "container_do (Register token call) (c, ss) =
     (case do_register call token c of Inl err \<Rightarrow> (c, ss) | Inr c' \<Rightarrow> (c', ss))"
| "container_do (ResolveRoot token) (c, ss) = (snd (resolve_root token c), ss)"
| "container_do (CreateScope name) (c, ss) =
     (case createScope name c of Inl err \<Rightarrow> (c, ss) | Inr s \<Rightarrow> (c, ss @ [s]))"
| "container_do (ResolveScope i token) (c, ss) =
     (if i < length ss then (case resolve_scope token (ss ! i) c of (answer, s, c') \<Rightarrow> (c', ss[i := s])) else (c, ss))"
| "container_do (Seed i token val) (c, ss) =
     (if i < length ss then (case seed token val (ss ! i) c of Inl err \<Rightarrow> (c, ss) | Inr s \<Rightarrow> (c, ss[i := s])) else (c, ss))"
| "container_do (DisposeScope i) (c, ss) =
     (if i < length ss then (c, ss[i := fst (dispose_scope (ss ! i))]) else (c, ss))"
| "container_do DisposeContainer (c, ss) = (fst (dispose_container c), ss)"

definition system_ok :: "('t, 'v, 'e) system \<Rightarrow> bool" where
  "system_ok sys \<longleftrightarrow> owns (ct_registrations (fst sys)) (ct_singletons (fst sys)) (ct_ownedSingletons (fst sys)) \<and>
     (\<forall>s \<in> set (snd sys). owns (ct_registrations (fst sys)) (sc_instances (sp_state s)) (sc_owned (sp_state s)))"

lemma owns_Nil [simp]: "owns registrations [] []"
  by (simp add: owns_def)

lemma owns_register:
  assumes "owns registrations m owned" "js_get registrations token = None"
  shows "owns (js_set token registration registrations) m owned"
proof -
  have regs: "js_set token registration registrations = registrations @ [(token, registration)]"
    using js_set_new [OF assms(2)] .
  have "disposable (js_set token registration registrations) u = disposable registrations u" if "(u, w) \<in> set m" for u w
  proof -
    have "u \<noteq> token"
      using that assms by (auto simp: owns_def map_of_eq_None_iff rev_image_eqI)
    then show ?thesis
      by (simp add: disposable_def)
  qed
  then have "filter (\<lambda>(u, _). disposable (js_set token registration registrations) u) m = filter (\<lambda>(u, _). disposable registrations u) m"
    by (intro filter_cong) auto
  then show ?thesis
    using assms(1) regs by (auto simp: owns_def)
qed

lemma owns_seed:
  assumes "owns registrations m owned" "js_get m token = None" "js_get registrations token = Some registration"
    "rg_dispose registration = None"
  shows "owns registrations (js_set token val m) owned"
  using owns_add [OF assms(1-3), of val] assms(4) by (simp add: own_def)

text \<open>A seeded registration has no disposer.\<close>

definition seeds_plain :: "('t, 'v, 'e) container \<Rightarrow> bool" where
  "seeds_plain c \<longleftrightarrow> (\<forall>token registration. js_get (ct_registrations c) token = Some registration \<longrightarrow>
     rg_factory registration = None \<longrightarrow> rg_dispose registration = None)"

lemma do_register_cases:
  assumes "do_register call token c = Inr c'"
  shows "\<exists>registration. js_get (ct_registrations c) token = None \<and> \<not> ct_disposed c \<and>
    c' = c\<lparr>ct_registrations := js_set token registration (ct_registrations c)\<rparr> \<and>
    (rg_factory registration = None \<longrightarrow> rg_dispose registration = None)"
  using assms
  by (cases call)
    (auto simp: registerSingleton_def registerScoped_def registerTransient_def registerValue_def registerSeed_def
      register_def assertLive_def split: if_splits option.splits)

definition system_inv :: "('t, 'v, 'e) system \<Rightarrow> bool" where
  "system_inv sys \<longleftrightarrow> system_ok sys \<and> seeds_plain (fst sys)"

lemma system_inv_update:
  assumes "system_inv (c, ss)" "owns (ct_registrations c) (sc_instances (sp_state s)) (sc_owned (sp_state s))"
  shows "system_inv (c, ss[i := s])"
  using assms set_update_subset_insert [of ss i s] by (auto simp: system_inv_def system_ok_def)

lemma resolve_root_ok:
  assumes "system_inv (c, ss)"
  shows "system_inv (snd (resolve_root token c), ss)"
proof -
  have "resolution_ok (ct_registrations c) (enter c empty_scope)"
    using assms by (simp add: resolution_ok_def enter_def empty_scope_def system_inv_def system_ok_def)
  from ok_resolve [OF this, of token False "[]"] show ?thesis
    using assms
    by (auto simp: system_inv_def system_ok_def seeds_plain_def resolve_root_def resolution_ok_def leave_def
        split: option.splits prod.splits)
qed

lemma resolve_scope_ok:
  assumes "system_inv (c, ss)" "i < length ss" "resolve_scope token (ss ! i) c = (answer, s, c')"
  shows "system_inv (c', ss[i := s])"
proof -
  have "resolution_ok (ct_registrations c) (enter c (sp_state (ss ! i)))"
    using assms by (simp add: resolution_ok_def enter_def system_inv_def system_ok_def)
  note ok = ok_resolve [OF this, of token True "[]"]
  obtain a st where st: "resolveInternal (ct_registrations c) token True [] (enter c (sp_state (ss ! i))) = (a, st)"
    by fastforce
  have "(s, c') = (ss ! i, c) \<or> (s, c') = ((ss ! i)\<lparr>sp_state := rv_scope st\<rparr>, leave st c)"
    using assms(3) st by (auto simp: resolve_scope_def split: if_splits option.splits)
  then show ?thesis
    using assms(1,2) ok st set_update_subset_insert [of ss i s]
    by (auto simp: system_inv_def system_ok_def seeds_plain_def resolution_ok_def leave_def)
qed

lemma container_do_inv:
  assumes "system_inv sys"
  shows "system_inv (container_do e sys)"
proof -
  obtain c ss where sys: "sys = (c, ss)"
    by fastforce
  have inv: "system_inv (c, ss)"
    using assms sys by simp
  show ?thesis
  proof (cases e)
    case (Register token call)
    show ?thesis
    proof (cases "do_register call token c")
      case (Inr c')
      then obtain registration where "js_get (ct_registrations c) token = None"
        "c' = c\<lparr>ct_registrations := js_set token registration (ct_registrations c)\<rparr>"
        "rg_factory registration = None \<longrightarrow> rg_dispose registration = None"
        using do_register_cases [of call token c c'] by auto
      then show ?thesis
        using inv Inr Register sys by (auto simp: system_inv_def system_ok_def seeds_plain_def owns_register)
    qed (use inv Register sys in simp)
  next
    case (ResolveRoot token)
    then show ?thesis
      using resolve_root_ok [OF inv] sys by simp
  next
    case (CreateScope name)
    then show ?thesis
      using inv sys by (auto simp: createScope_def system_inv_def system_ok_def empty_scope_def split: option.splits)
  next
    case (ResolveScope i token)
    then show ?thesis
      using resolve_scope_ok [OF inv, of i token] inv sys
      by (cases "resolve_scope token (ss ! i) c") auto
  next
    case (Seed i token val)
    show ?thesis
    proof (cases "i < length ss")
      case True
      have "seed token val (ss ! i) c = Inr s \<Longrightarrow> owns (ct_registrations c) (sc_instances (sp_state s)) (sc_owned (sp_state s))" for s
        using inv True owns_seed [of "ct_registrations c" "sc_instances (sp_state (ss ! i))" "sc_owned (sp_state (ss ! i))" token]
        by (auto simp: seed_def system_inv_def system_ok_def seeds_plain_def split: if_splits option.splits)
      then show ?thesis
        using inv True Seed sys system_inv_update [OF inv] by (auto split: sum.splits)
    qed (use inv Seed sys in simp)
  next
    case (DisposeScope i)
    then show ?thesis
      using inv sys system_inv_update [OF inv] by (auto simp: dispose_scope_def empty_scope_def)
  next
    case DisposeContainer
    then show ?thesis
      using inv sys by (auto simp: system_inv_def system_ok_def seeds_plain_def dispose_container_def)
  qed
qed

interpretation wiring: step_invariant container_do system_inv
  by unfold_locales (rule container_do_inv)

lemma createContainer_inv: "system_inv (createContainer name, [])"
  by (simp add: system_inv_def system_ok_def seeds_plain_def createContainer_def)

section \<open>Singletons stay\<close>

definition registered_singleton :: "('t, 'v, 'e) container \<Rightarrow> 't \<Rightarrow> bool" where
  "registered_singleton c token \<longleftrightarrow>
     (\<exists>registration. js_get (ct_registrations c) token = Some registration \<and> rg_lifetime registration = Singleton)"

definition remembers :: "'t \<Rightarrow> 'v \<Rightarrow> ('t, 'v, 'e) system \<Rightarrow> bool" where
  "remembers token val sys \<longleftrightarrow> \<not> ct_disposed (fst sys) \<and> registered_singleton (fst sys) token \<and>
     js_get (ct_singletons (fst sys)) token = Some val"

lemma resolve_stores:
  assumes "js_get registrations token = Some registration" "rg_lifetime registration = Singleton"
    "resolveInternal registrations token scoped path st = (Inr val, st')"
  shows "js_get (rv_singletons st') token = Some val"
  using assms by (auto simp: resolveInternal.simps [of _ token] keep_singleton_def split: option.splits prod.splits sum.splits)

lemma resolve_keeps_singletons:
  "js_get (rv_singletons st) token = Some val \<Longrightarrow>
   js_get (rv_singletons (snd (resolveInternal registrations u scoped path st))) token = Some val"
  using extends_resolve [of path st registrations u scoped] by (simp add: extends_def gains_def)

lemma remembers_do:
  assumes "remembers token val sys" "e \<noteq> DisposeContainer"
  shows "remembers token val (container_do e sys)"
proof -
  obtain c ss where sys: "sys = (c, ss)"
    by fastforce
  note keep = resolve_keeps_singletons [of "enter c _" token val "ct_registrations c"]
  have live: "\<not> ct_disposed c" "registered_singleton c token" "js_get (ct_singletons c) token = Some val"
    using assms(1) sys by (simp_all add: remembers_def)
  show ?thesis
  proof (cases e)
    case (Register u call)
    have "remembers token val (c', ss)" if "do_register call u c = Inr c'" for c'
      using do_register_cases [OF that] live by (auto simp: remembers_def registered_singleton_def)
    then show ?thesis
      using assms(1) Register sys by (simp split: sum.splits)
  next
    case (ResolveRoot u)
    then show ?thesis
      using live keep [of empty_scope u False "[]"] sys
      by (simp add: remembers_def resolve_root_def assertLive_def registered_singleton_def leave_def enter_def case_prod_beta)
  next
    case (ResolveScope i u)
    then show ?thesis
      using live keep [of "sp_state (ss ! i)" u True "[]"] sys
      by (simp add: remembers_def resolve_scope_def assertLive_def registered_singleton_def leave_def enter_def case_prod_beta)
  qed (use assms sys in \<open>auto simp: remembers_def createScope_def split: option.splits sum.splits\<close>)
qed

lemma remembers_run:
  "remembers token val sys \<Longrightarrow> DisposeContainer \<notin> set es \<Longrightarrow> remembers token val (fold container_do es sys)"
proof (induction es arbitrary: sys)
  case (Cons e es)
  have "remembers token val (container_do e sys)"
    by (rule remembers_do) (use Cons.prems in auto)
  then show ?case
    using Cons.IH Cons.prems(2) by simp
qed simp

lemma remembers_answers:
  assumes "remembers token val (c, ss)"
  shows "fst (resolve_root token c) = Inr val" "\<not> sp_disposed s \<Longrightarrow> fst (resolve_scope token s c) = Inr val"
  using assms
  by (auto simp: remembers_def registered_singleton_def resolve_root_def resolve_scope_def assertLive_def enter_def
      resolveInternal.simps [of _ token])

lemma resolve_root_remembers:
  assumes "registered_singleton c token" "resolve_root token c = (Inr val, c')"
  shows "remembers token val (c', ss)"
  using assms resolve_stores [of "ct_registrations c" token _ False "[]" "enter c empty_scope" val]
  by (auto simp: remembers_def registered_singleton_def resolve_root_def assertLive_def leave_def
      split: option.splits prod.splits if_splits)

section \<open>Cycles\<close>

text \<open>A factory that first asks for \<open>dependency\<close> and does not catch what that throws.\<close>

definition needs :: "('t, 'v, 'e) registrations \<Rightarrow> 't \<Rightarrow> 't \<Rightarrow> bool" where
  "needs registrations token dependency \<longleftrightarrow>
     (\<exists>registration rest. js_get registrations token = Some registration \<and> rg_lifetime registration \<noteq> Scoped \<and>
        rg_factory registration = Some (Ask dependency rest) \<and> (\<forall>err. rest (Inl err) = Throw err))"

lemma needs_propagates:
  assumes "needs registrations token dependency" "token \<notin> set path" "js_get (rv_singletons st) token = None"
    "resolveInternal registrations dependency False (path @ [token]) st = (Inl err, st)"
  shows "resolveInternal registrations token False path st = (Inl err, st)"
proof -
  obtain registration rest where r: "js_get registrations token = Some registration" "rg_lifetime registration \<noteq> Scoped"
    "rg_factory registration = Some (Ask dependency rest)" "rest (Inl err) = Throw err"
    using assms(1) by (auto simp: needs_def)
  then have "construct (resolveInternal registrations) token registration False path st = (Inl err, st)"
    using assms by (simp add: construct_def)
  then show ?thesis
    using r(1,2) assms(3) by (cases "rg_lifetime registration") (simp_all add: resolveInternal.simps [of _ token] keep_singleton_def)
qed

lemma needs_circular:
  assumes "needs registrations token dependency" "token \<in> set path" "js_get (rv_singletons st) token = None"
  shows "resolveInternal registrations token False path st = (Inl (CircularDependencyError token path), st)"
  using assms by (auto simp: needs_def resolveInternal.simps [of _ token] construct_def keep_singleton_def split: lifetime.splits)

lemma chain_circular:
  assumes "distinct ts" "i < length ts"
    "\<And>j. j < length ts \<Longrightarrow> needs registrations (ts ! j) ((ts @ [hd ts]) ! Suc j)"
    "\<And>t. t \<in> set ts \<Longrightarrow> js_get (rv_singletons st) t = None"
  shows "resolveInternal registrations (ts ! i) False (take i ts) st = (Inl (CircularDependencyError (hd ts) ts), st)"
  using assms(2)
proof (induction "length ts - i" arbitrary: i)
  case (Suc n)
  have path: "take i ts @ [ts ! i] = take (Suc i) ts"
    using Suc.prems by (simp add: take_Suc_conv_app_nth)
  have "distinct (take i ts @ [ts ! i])"
    unfolding path using assms(1) by simp
  then have fresh: "ts ! i \<notin> set (take i ts)"
    by simp
  have deeper: "resolveInternal registrations ((ts @ [hd ts]) ! Suc i) False (take i ts @ [ts ! i]) st =
      (Inl (CircularDependencyError (hd ts) ts), st)"
  proof (cases "Suc i < length ts")
    case True
    then show ?thesis
      using Suc.hyps(1) [of "Suc i"] Suc.hyps(2) path by (simp add: nth_append)
  next
    case False
    then have "Suc i = length ts"
      using Suc.prems by simp
    moreover have "ts \<noteq> []"
      using Suc.prems by auto
    ultimately show ?thesis
      using needs_circular [OF assms(3) [of 0], of ts st] assms(4) [of "hd ts"] path
      by (simp add: nth_append hd_conv_nth)
  qed
  show ?case
    by (rule needs_propagates [OF assms(3) [OF Suc.prems] fresh assms(4) deeper]) (use Suc.prems in simp)
qed simp

section \<open>Properties\<close>

text \<open>
  C10: A singleton never depends on the scope it is asked for in. Resolving it in any scope gives
  the very answer the root gives, changes the container exactly as the root does, and neither
  reads nor writes the scope: no singleton can capture one request's instance.
\<close>

theorem singleton_never_captures_a_scope:
  assumes "registered_singleton c token" and "\<not> sp_disposed s"
  shows "resolve_scope token s c = (fst (resolve_root token c), s, snd (resolve_root token c))"
proof (cases "ct_disposed c")
  case False
  let ?regs = "ct_registrations c"
  obtain registration where r: "js_get ?regs token = Some registration" "rg_lifetime registration = Singleton"
    using assms(1) by (auto simp: registered_singleton_def)
  have enter: "enter c (sp_state s) = in_scope (sp_state s) (enter c empty_scope)"
    by (simp add: enter_def)
  have "resolveInternal ?regs token True [] (enter c (sp_state s)) =
      apsnd (in_scope (sp_state s)) (resolveInternal ?regs token False [] (enter c empty_scope))"
    unfolding enter singleton_ignores_scoped [OF r, of True] by (rule root_ignores_scope)
  then show ?thesis
    using False assms(2)
    by (simp add: resolve_scope_def resolve_root_def assertLive_def leave_def case_prod_beta)
qed (use assms in \<open>simp add: resolve_scope_def resolve_root_def assertLive_def\<close>)

text \<open>An example: a logger shared by the process and a handler that asks for it.\<close>

definition example_container :: "(nat, nat, nat) container" where
  "example_container =
     (createContainer None)\<lparr>ct_registrations :=
        [(1, \<lparr>rg_lifetime = Singleton, rg_factory = Some (Return 10), rg_dispose = Some (\<lambda>v. None)\<rparr>),
         (2, \<lparr>rg_lifetime = Singleton, rg_factory = Some (Ask 1 (\<lambda>r. case r of Inl e \<Rightarrow> Throw e | Inr v \<Rightarrow> Return (v + 1))),
              rg_dispose = Some (\<lambda>v. Some 0)\<rparr>),
         (3, \<lparr>rg_lifetime = Transient, rg_factory = Some (Ask 4 (\<lambda>r. case r of Inl e \<Rightarrow> Throw e | Inr v \<Rightarrow> Return v)),
              rg_dispose = None\<rparr>),
         (4, \<lparr>rg_lifetime = Transient, rg_factory = Some (Ask 3 (\<lambda>r. case r of Inl e \<Rightarrow> Throw e | Inr v \<Rightarrow> Return v)),
              rg_dispose = None\<rparr>)]\<rparr>"

theorem singleton_never_captures_a_scope_witness:
  "resolve_scope 2 \<lparr>sp_label = ''s'', sp_state = empty_scope, sp_disposed = False\<rparr> example_container =
   (fst (resolve_root 2 example_container), \<lparr>sp_label = ''s'', sp_state = empty_scope, sp_disposed = False\<rparr>,
    snd (resolve_root 2 example_container))"
  by (rule singleton_never_captures_a_scope) (simp_all add: registered_singleton_def example_container_def createContainer_def)

text \<open>
  A singleton is built once. After it has been resolved successfully, every later resolution,
  at the root or in any live scope, returns the same instance, whatever is registered, resolved,
  seeded or disposed in between, as long as the container itself is not disposed.
\<close>

lemma singleton_is_shared:
  assumes "registered_singleton c token" and "resolve_root token c = (Inr val, c')"
    and "fold container_do es (c', ss) = (c'', ss'')" and "DisposeContainer \<notin> set es"
  shows "fst (resolve_root token c'') = Inr val \<and> (\<forall>s. \<not> sp_disposed s \<longrightarrow> fst (resolve_scope token s c'') = Inr val)"
proof -
  have "remembers token val (fold container_do es (c', ss))"
    by (rule remembers_run [OF resolve_root_remembers [OF assms(1,2)] assms(4)])
  then show ?thesis
    using remembers_answers [of token val c'' ss''] unfolding assms(3) by blast
qed

text \<open>
  Disposal closes what the container created and nothing else, most recent first: the
  disposers called are those of the stored singletons whose registration has one, each called
  once with the stored instance, in the reverse of the order in which they were built, however
  many of them fail. The same holds of every scope and its scoped instances.
\<close>

lemma disposal_in_reverse_order:
  assumes "fold container_do es (createContainer name, []) = (c, ss)" and "\<not> ct_disposed c"
  shows "map (\<lambda>(token, inst, err). (token, inst)) (snd (dispose_container c)) =
      rev (filter (\<lambda>(token, inst). disposable (ct_registrations c) token) (ct_singletons c)) \<and>
    distinct (map fst (ct_singletons c)) \<and>
    (\<forall>s \<in> set ss. \<not> sp_disposed s \<longrightarrow> map (\<lambda>(token, inst, err). (token, inst)) (snd (dispose_scope s)) =
      rev (filter (\<lambda>(token, inst). disposable (ct_registrations c) token) (sc_instances (sp_state s))))"
proof -
  have inv: "system_inv (c, ss)"
    using wiring.run_keeps [OF createContainer_inv, of es name] assms(1) by simp
  have order: "map (\<lambda>(token, inst, err). (token, inst)) (disposeAll owned) =
      rev (filter (\<lambda>(token, inst). disposable (ct_registrations c) token) m)"
    if "owns (ct_registrations c) m owned" for m owned
    using that by (simp add: owns_def disposeAll_def comp_def flip: rev_map)
  show ?thesis
    using inv assms(2) order
    by (auto simp: system_inv_def system_ok_def dispose_container_def dispose_scope_def owns_def js_ok_def)
qed

text \<open>
  C36: Factories that need each other in a ring never recurse for ever: the resolution fails with
  the error that names the token it came back to and the path it took, and it leaves the
  container as it was.
\<close>

theorem cycle_is_reported:
  assumes "\<not> ct_disposed c" and "distinct ts" and "ts \<noteq> []"
    and "\<forall>j < length ts. needs (ct_registrations c) (ts ! j) ((ts @ [hd ts]) ! Suc j)"
    and "\<forall>t \<in> set ts. js_get (ct_singletons c) t = None"
  shows "resolve_root (hd ts) c = (Inl (CircularDependencyError (hd ts) ts), c)"
proof -
  have "resolveInternal (ct_registrations c) (ts ! 0) False (take 0 ts) (enter c empty_scope) =
      (Inl (CircularDependencyError (hd ts) ts), enter c empty_scope)"
    using assms by (intro chain_circular) (auto simp: enter_def)
  then show ?thesis
    using assms(1,3) by (simp add: resolve_root_def assertLive_def hd_conv_nth leave_def enter_def)
qed

theorem cycle_is_reported_witness:
  "resolve_root (hd [3, 4]) example_container = (Inl (CircularDependencyError (hd [3, 4]) [3, 4]), example_container)"
  by (rule cycle_is_reported)
    (auto simp: example_container_def createContainer_def needs_def less_Suc_eq)

text \<open>
  A transient resolved at the root that needs something scoped is reported as a captive
  dependency, although no singleton is involved.
\<close>

lemma transient_reported_as_captive:
  assumes "js_get regs t = Some \<lparr>rg_lifetime = Transient, rg_factory = Some (Ask u (\<lambda>r. case r of Inl e \<Rightarrow> Throw e | Inr v \<Rightarrow> Return v)),
      rg_dispose = None\<rparr>"
    and "js_get regs u = Some registration" "rg_lifetime registration = Scoped"
  shows "fst (resolveInternal regs t False [] st) = Inl (CaptiveDependencyError u [t])"
  using assms by (simp add: resolveInternal.simps construct_def)

end
