(* ===== verification/Event_Stream.thy ===== *)
theory Event_Stream
  imports Js_String "HOL-Library.Code_Target_Nat"
begin

text \<open>
  Server-sent events (\<open>src/sse\<close>): the wire format (\<open>frame.ts\<close>), the replay log
  (\<open>event-log.ts\<close>), one open response (\<open>connection.ts\<close>), the fan-out (\<open>hub.ts\<close>) and the handler
  (\<open>sse.controller.ts\<close>). What the socket does with a write is a parameter, and so is
  \<open>JSON.stringify\<close>. The reading side is the algorithm of WHATWG HTML 9.2.6, which is the contract
  the encoder is written for.
\<close>

abbreviation LF :: char where "LF \<equiv> CHR 0x0A"
abbreviation CR :: char where "CR \<equiv> CHR 0x0D"
abbreviation NUL :: char where "NUL \<equiv> CHR 0x00"

section \<open>The wire format\<close>

definition MAX_FIELD_LENGTH :: nat where "MAX_FIELD_LENGTH = 256"

record sse_frame =
  sf_id :: "string option"
  sf_event :: "string option"
  sf_data :: string

datatype frame_error = LineBreak | NulCharacter | FieldTooLong | EmptyEvent | BadRetry | BadOption

definition has_terminator :: "string \<Rightarrow> bool" where
  "has_terminator s \<longleftrightarrow> list_ex (\<lambda>c. c = CR \<or> c = LF) s"

text \<open>\<open>replace(/\r\n|[\r\n]/g, '\n')\<close>.\<close>

fun normalise :: "string \<Rightarrow> string" where
  "normalise [] = []"
| "normalise (c # cs) =
     (if c = CR then LF # (case cs of [] \<Rightarrow> [] | d # ds \<Rightarrow> if d = LF then normalise ds else normalise cs)
      else c # normalise cs)"

definition rejectFieldValue :: "string \<Rightarrow> frame_error option" where
  "rejectFieldValue val =
     (if has_terminator val then Some LineBreak
      else if NUL \<in> set val then Some NulCharacter
      else if MAX_FIELD_LENGTH < length val then Some FieldTooLong
      else None)"

text \<open>The lines of a field that may be absent, or the error its value is refused with.\<close>

definition id_lines :: "string option \<Rightarrow> frame_error + string list" where
  "id_lines field =
     (case field of
        None \<Rightarrow> Inr []
      | Some val \<Rightarrow> (case rejectFieldValue val of Some err \<Rightarrow> Inl err | None \<Rightarrow> Inr [''id: '' @ val]))"

definition event_lines :: "string option \<Rightarrow> frame_error + string list" where
  "event_lines field =
     (case field of
        None \<Rightarrow> Inr []
      | Some val \<Rightarrow>
          (case rejectFieldValue val of
             Some err \<Rightarrow> Inl err
           | None \<Rightarrow> if val = [] then Inl EmptyEvent else Inr [''event: '' @ val]))"

definition encodeFrame :: "sse_frame \<Rightarrow> frame_error + string" where
  "encodeFrame frame =
     (case id_lines (sf_id frame) of
        Inl err \<Rightarrow> Inl err
      | Inr ids \<Rightarrow>
          (case event_lines (sf_event frame) of
             Inl err \<Rightarrow> Inl err
           | Inr events \<Rightarrow>
               Inr (join [LF] (ids @ events @ map ((@) ''data: '') (split_on LF (normalise (sf_data frame)))) @ [LF, LF])))"

definition encodeComment :: "string \<Rightarrow> frame_error + string" where
  "encodeComment remark = (if has_terminator remark then Inl LineBreak else Inr ('': '' @ remark @ [LF, LF]))"

definition encodeRetry :: "int \<Rightarrow> frame_error + string" where
  "encodeRetry delayMs = (if delayMs < 0 then Inl BadRetry else Inr (''retry: '' @ show_nat (nat delayMs) @ [LF, LF]))"

section \<open>The reader\<close>

record reader =
  rd_data :: string
  rd_type :: string
  rd_lastId :: string

record dispatched =
  di_type :: string
  di_data :: string
  di_lastId :: string

definition dispatch :: "reader \<Rightarrow> dispatched list \<times> reader" where
  "dispatch r =
     (if rd_data r = [] then ([], r\<lparr>rd_type := []\<rparr>)
      else ([\<lparr>di_type = (if rd_type r = [] then ''message'' else rd_type r),
              di_data = (if last (rd_data r) = LF then butlast (rd_data r) else rd_data r),
              di_lastId = rd_lastId r\<rparr>],
            r\<lparr>rd_data := [], rd_type := []\<rparr>))"

definition strip_space :: "string \<Rightarrow> string" where
  "strip_space s = (case s of [] \<Rightarrow> [] | c # cs \<Rightarrow> if c = CHR '' '' then cs else s)"

definition field_line :: "string \<Rightarrow> string \<times> string" where
  "field_line line =
     (case index_of (CHR '':'') line of
        None \<Rightarrow> (line, [])
      | Some i \<Rightarrow> (take i line, strip_space (drop (i + 1) line)))"

definition set_field :: "string \<Rightarrow> string \<Rightarrow> reader \<Rightarrow> reader" where
  "set_field field val r =
     (if field = ''event'' then r\<lparr>rd_type := val\<rparr>
      else if field = ''data'' then r\<lparr>rd_data := rd_data r @ val @ [LF]\<rparr>
      else if field = ''id'' then (if NUL \<in> set val then r else r\<lparr>rd_lastId := val\<rparr>)
      else r)"

definition read_line :: "string \<Rightarrow> reader \<Rightarrow> dispatched list \<times> reader" where
  "read_line line r =
     (case line of
        [] \<Rightarrow> dispatch r
      | c # cs \<Rightarrow> if c = CHR '':'' then ([], r) else ([], case field_line line of (field, val) \<Rightarrow> set_field field val r))"

fun read_lines :: "string list \<Rightarrow> reader \<Rightarrow> dispatched list \<times> reader" where
  "read_lines [] r = ([], r)"
| "read_lines (line # lines) r =
     (case read_line line r of (events, r') \<Rightarrow>
        (case read_lines lines r' of (later, r'') \<Rightarrow> (events @ later, r'')))"

text \<open>Lines end in any of the three terminators; an unfinished last line is not read.\<close>

definition read_stream :: "string \<Rightarrow> reader \<Rightarrow> dispatched list \<times> reader" where
  "read_stream bytes r = read_lines (butlast (split_on LF (normalise bytes))) r"

section \<open>The replay log\<close>

record stream_message =
  sm_id :: string
  sm_event :: string
  sm_data :: string

datatype reset_reason = Expired | UnknownStream | MalformedCursor

datatype resume_outcome = Live | Replay "stream_message list" | Reset reset_reason

record event_log =
  lg_slots :: "stream_message option list"
  lg_capacity :: nat
  lg_streamId :: string
  lg_latestSequence :: nat

datatype log_error = BadCapacity | BadStreamId

definition createEventLog :: "int \<Rightarrow> string \<Rightarrow> log_error + event_log" where
  "createEventLog capacity streamId =
     (if capacity < 1 then Inl BadCapacity
      else if CHR '':'' \<in> set streamId then Inl BadStreamId
      else Inr \<lparr>lg_slots = replicate (nat capacity) None, lg_capacity = nat capacity, lg_streamId = streamId,
                lg_latestSequence = 0\<rparr>)"

definition idFor :: "event_log \<Rightarrow> nat \<Rightarrow> string" where
  "idFor l sequence = lg_streamId l @ '':'' @ show_nat sequence"

definition latestEventId :: "event_log \<Rightarrow> string option" where
  "latestEventId l = (if lg_latestSequence l = 0 then None else Some (idFor l (lg_latestSequence l)))"

definition oldestSequence :: "event_log \<Rightarrow> int" where
  "oldestSequence l = max 1 (int (lg_latestSequence l) - int (lg_capacity l) + 1)"

definition log_append :: "string \<Rightarrow> string \<Rightarrow> event_log \<Rightarrow> event_log \<times> stream_message" where
  "log_append event data l =
     (let sequence = lg_latestSequence l + 1;
          message = \<lparr>sm_id = idFor l sequence, sm_event = event, sm_data = data\<rparr>
      in (l\<lparr>lg_latestSequence := sequence, lg_slots := (lg_slots l)[sequence mod lg_capacity l := Some message]\<rparr>, message))"

definition replay_from :: "event_log \<Rightarrow> nat \<Rightarrow> stream_message list" where
  "replay_from l sequence =
     List.map_filter (\<lambda>next_seq. lg_slots l ! (next_seq mod lg_capacity l)) [sequence + 1 ..< lg_latestSequence l + 1]"

definition since :: "event_log \<Rightarrow> string option \<Rightarrow> resume_outcome" where
  "since l lastEventId =
     (case lastEventId of
        None \<Rightarrow> Live
      | Some cursor \<Rightarrow>
          (case index_of (CHR '':'') cursor of
             None \<Rightarrow> Reset MalformedCursor
           | Some separatorAt \<Rightarrow>
               if take separatorAt cursor \<noteq> lg_streamId l then Reset UnknownStream
               else let rawSequence = drop (separatorAt + 1) cursor in
                 if rawSequence = [] \<or> \<not> list_all is_digit rawSequence \<or> of_digits rawSequence > MAX_SAFE_INTEGER
                    \<or> of_digits rawSequence < 1
                 then Reset MalformedCursor
                 else let sequence = of_digits rawSequence in
                   if sequence \<ge> lg_latestSequence l then Live
                   else if int sequence + 1 < oldestSequence l then Reset Expired
                   else Replay (replay_from l sequence)))"

section \<open>Reading what was written\<close>

lemma join_split: "join [c] (split_on c s) = s"
proof (induction s)
  case (Cons x s)
  show ?case
  proof (cases "split_on c s")
    case (Cons p ps)
    then show ?thesis
      using Cons.IH by (cases ps) auto
  qed simp
qed simp

lemma split_on_no_sep: "p \<in> set (split_on c s) \<Longrightarrow> c \<notin> set p"
proof (induction s arbitrary: p)
  case (Cons x s)
  then show ?case
    by (cases "split_on c s") (auto split: if_splits)
qed simp

lemma split_on_subset: "p \<in> set (split_on c s) \<Longrightarrow> set p \<subseteq> set s"
proof (induction s arbitrary: p)
  case (Cons x s)
  then show ?case
    by (cases "split_on c s") (fastforce split: if_splits)+
qed simp

lemma split_on_lines:
  "lines \<noteq> [] \<Longrightarrow> \<forall>l \<in> set lines. c \<notin> set l \<Longrightarrow>
   split_on c (join [c] lines @ c # rest) = lines @ split_on c rest"
proof (induction lines)
  case (Cons l ls)
  show ?case
  proof (cases ls)
    case Nil
    then show ?thesis
      using Cons.prems by (simp add: split_on_append)
  next
    case (Cons m ms)
    then have "join [c] (l # ls) @ c # rest = l @ c # (join [c] ls @ c # rest)"
      by simp
    then show ?thesis
      using Cons.IH Cons.prems Cons by (simp only: split_on_append list.set_intros) (simp add: split_on_append)
  qed
qed simp

lemma normalise_no_CR: "CR \<notin> set (normalise s)"
  by (induction s rule: normalise.induct) (auto split: list.splits)

lemma normalise_append: "CR \<notin> set a \<Longrightarrow> normalise (a @ b) = a @ normalise b"
  by (induction a) auto

lemma normalise_id: "CR \<notin> set a \<Longrightarrow> normalise a = a"
  using normalise_append [of a "[]"] by simp

lemma read_lines_append:
  "read_lines (a @ b) r = (case read_lines a r of (x, r') \<Rightarrow> case read_lines b r' of (y, r'') \<Rightarrow> (x @ y, r''))"
  by (induction a arbitrary: r) (simp_all split: prod.splits)

text \<open>A block of lines and the blank line after it are read before the rest.\<close>

lemma read_stream_block:
  assumes "lines \<noteq> []" "\<forall>l \<in> set lines. LF \<notin> set l \<and> CR \<notin> set l"
  shows "read_stream (join [LF] lines @ [LF, LF] @ rest) r =
    (case read_lines (lines @ [[]]) r of (x, r') \<Rightarrow> case read_stream rest r' of (y, r'') \<Rightarrow> (x @ y, r''))"
proof -
  have "CR \<notin> set (join [LF] lines)"
    using assms(2)
  proof (induction "[LF]" lines rule: join.induct)
    case (3 p q ps)
    then show ?case by auto
  qed auto
  then have "normalise (join [LF] lines @ [LF, LF] @ rest) = join [LF] lines @ LF # LF # normalise rest"
    by (simp add: normalise_append)
  moreover have "split_on LF (join [LF] lines @ LF # LF # normalise rest) = (lines @ [[]]) @ split_on LF (normalise rest)"
    using split_on_lines [OF assms(1), of LF "LF # normalise rest"] assms(2) by simp
  moreover have "butlast ((lines @ [[]]) @ split_on LF (normalise rest)) = (lines @ [[]]) @ butlast (split_on LF (normalise rest))"
    by (simp only: butlast_append) simp
  ultimately show ?thesis
    by (simp only: read_stream_def read_lines_append [of "lines @ [[]]"])
qed

lemma field_line_colon: "CHR '':'' \<notin> set f \<Longrightarrow> field_line (f @ '': '' @ v) = (f, v)"
  using index_of_append [of "CHR '':''" f "CHR '' '' # v"] by (simp add: field_line_def strip_space_def)

lemma read_line_field:
  assumes "CHR '':'' \<notin> set f" "f \<noteq> []"
  shows "read_line (f @ '': '' @ v) r = ([], set_field f v r)"
  using assms field_line_colon [OF assms(1), of v] by (cases f) (auto simp: read_line_def)

lemma read_data_lines:
  "read_lines (map ((@) ''data: '') ls) r = ([], r\<lparr>rd_data := rd_data r @ concat (map (\<lambda>l. l @ [LF]) ls)\<rparr>)"
proof (induction ls arbitrary: r)
  case (Cons l ls)
  have "read_line (''data: '' @ l) r = ([], r\<lparr>rd_data := rd_data r @ l @ [LF]\<rparr>)"
    using read_line_field [of "''data''" l r] by (simp add: set_field_def)
  then show ?case
    using Cons by simp
qed simp

lemma concat_lines: "ls \<noteq> [] \<Longrightarrow> concat (map (\<lambda>l. l @ [c]) ls) = join [c] ls @ [c]"
  by (induction "[c]" ls rule: join.induct) auto

datatype chunk = FrameChunk sse_frame | CommentChunk string | RetryChunk int

definition encode_chunk :: "chunk \<Rightarrow> frame_error + string" where
  "encode_chunk ch =
     (case ch of FrameChunk f \<Rightarrow> encodeFrame f | CommentChunk remark \<Rightarrow> encodeComment remark | RetryChunk ms \<Rightarrow> encodeRetry ms)"

definition encodable :: "chunk \<Rightarrow> bool" where
  "encodable ch \<longleftrightarrow> (case encode_chunk ch of Inl err \<Rightarrow> False | Inr s \<Rightarrow> True)"

definition wire :: "chunk list \<Rightarrow> string" where
  "wire chunks = concat (map (\<lambda>ch. case encode_chunk ch of Inl err \<Rightarrow> [] | Inr s \<Rightarrow> s) chunks)"

text \<open>What the reader of a frame sees: the default type, its data, and the id last set.\<close>

definition observed :: "string \<Rightarrow> sse_frame \<Rightarrow> dispatched" where
  "observed lastId f =
     \<lparr>di_type = (case sf_event f of None \<Rightarrow> ''message'' | Some e \<Rightarrow> e), di_data = normalise (sf_data f),
      di_lastId = (case sf_id f of None \<Rightarrow> lastId | Some i \<Rightarrow> i)\<rparr>"

definition next_id :: "string \<Rightarrow> chunk \<Rightarrow> string" where
  "next_id lastId ch = (case ch of FrameChunk f \<Rightarrow> (case sf_id f of None \<Rightarrow> lastId | Some i \<Rightarrow> i) | _ \<Rightarrow> lastId)"

fun observe :: "string \<Rightarrow> chunk list \<Rightarrow> dispatched list" where
  "observe lastId [] = []"
| "observe lastId (ch # chunks) =
     (case ch of FrameChunk f \<Rightarrow> [observed lastId f] | _ \<Rightarrow> []) @ observe (next_id lastId ch) chunks"

definition clean_reader :: "string \<Rightarrow> reader" where
  "clean_reader lastId = \<lparr>rd_data = [], rd_type = [], rd_lastId = lastId\<rparr>"

lemma rejectFieldValue_None:
  "rejectFieldValue v = None \<Longrightarrow> LF \<notin> set v \<and> CR \<notin> set v \<and> NUL \<notin> set v"
  by (auto simp: rejectFieldValue_def has_terminator_def list_ex_iff split: if_splits)

lemma read_id_lines:
  assumes "id_lines field = Inr ls"
  shows "read_lines ls r = ([], r\<lparr>rd_lastId := (case field of None \<Rightarrow> rd_lastId r | Some v \<Rightarrow> v)\<rparr>)"
    and "\<forall>l \<in> set ls. LF \<notin> set l \<and> CR \<notin> set l"
proof -
  have "read_line (''id: '' @ v) r = ([], r\<lparr>rd_lastId := v\<rparr>)" if "NUL \<notin> set v" for v
    using read_line_field [of "''id''" v r] that by (simp add: set_field_def)
  then show "read_lines ls r = ([], r\<lparr>rd_lastId := (case field of None \<Rightarrow> rd_lastId r | Some v \<Rightarrow> v)\<rparr>)"
    using assms by (auto simp: id_lines_def dest!: rejectFieldValue_None split: option.splits)
  show "\<forall>l \<in> set ls. LF \<notin> set l \<and> CR \<notin> set l"
    using assms by (auto simp: id_lines_def dest!: rejectFieldValue_None split: option.splits)
qed

lemma read_event_lines:
  assumes "event_lines field = Inr ls"
  shows "read_lines ls r = ([], r\<lparr>rd_type := (case field of None \<Rightarrow> rd_type r | Some v \<Rightarrow> v)\<rparr>)"
    and "\<forall>l \<in> set ls. LF \<notin> set l \<and> CR \<notin> set l" and "field \<noteq> Some []"
proof -
  have "read_line (''event: '' @ v) r = ([], r\<lparr>rd_type := v\<rparr>)" for v
    using read_line_field [of "''event''" v r] by (simp add: set_field_def)
  then show "read_lines ls r = ([], r\<lparr>rd_type := (case field of None \<Rightarrow> rd_type r | Some v \<Rightarrow> v)\<rparr>)"
    using assms by (auto simp: event_lines_def split: option.splits if_splits)
  show "\<forall>l \<in> set ls. LF \<notin> set l \<and> CR \<notin> set l" "field \<noteq> Some []"
    using assms by (auto simp: event_lines_def dest!: rejectFieldValue_None split: option.splits if_splits)
qed

lemma read_frame:
  assumes "encodeFrame f = Inr s"
  shows "read_stream (s @ rest) (clean_reader lastId) =
    (case read_stream rest (clean_reader (next_id lastId (FrameChunk f))) of (y, r) \<Rightarrow> (observed lastId f # y, r))"
proof -
  define datas where "datas = split_on LF (normalise (sf_data f))"
  obtain ids events where ids: "id_lines (sf_id f) = Inr ids" and events: "event_lines (sf_event f) = Inr events"
    and s: "s = join [LF] (ids @ events @ map ((@) ''data: '') datas) @ [LF, LF]"
    using assms by (auto simp: encodeFrame_def datas_def split: sum.splits)
  let ?lines = "ids @ events @ map ((@) ''data: '') datas"
  have "datas \<noteq> []" and clean: "\<forall>l \<in> set datas. LF \<notin> set l \<and> CR \<notin> set l"
    using split_on_no_sep [of _ LF "normalise (sf_data f)"] split_on_subset [of _ LF "normalise (sf_data f)"]
      normalise_no_CR [of "sf_data f"] by (auto simp: datas_def)
  have "\<forall>l \<in> set ?lines. LF \<notin> set l \<and> CR \<notin> set l" "?lines \<noteq> []"
    using read_id_lines(2) [OF ids] read_event_lines(2) [OF events] clean \<open>datas \<noteq> []\<close> by auto
  then have block: "read_stream (s @ rest) (clean_reader lastId) =
      (case read_lines (?lines @ [[]]) (clean_reader lastId) of (x, r') \<Rightarrow> case read_stream rest r' of (y, r'') \<Rightarrow> (x @ y, r''))"
    using read_stream_block [of ?lines rest "clean_reader lastId"] unfolding s by simp
  have "concat (map (\<lambda>l. l @ [LF]) datas) = normalise (sf_data f) @ [LF]"
    using concat_lines [OF \<open>datas \<noteq> []\<close>, of LF] join_split [of LF] by (simp add: datas_def)
  then have "read_lines (?lines @ [[]]) (clean_reader lastId) =
      ([observed lastId f], clean_reader (next_id lastId (FrameChunk f)))"
    using read_event_lines(3) [OF events]
    by (simp add: read_lines_append read_id_lines(1) [OF ids] read_event_lines(1) [OF events] read_data_lines
        clean_reader_def read_line_def dispatch_def observed_def next_id_def) (auto split: option.splits)
  then show ?thesis
    using block by (simp split: prod.splits)
qed

lemma read_silent:
  assumes "encode_chunk ch = Inr s" "\<And>f. ch \<noteq> FrameChunk f"
  shows "read_stream (s @ rest) (clean_reader lastId) = read_stream rest (clean_reader lastId)"
proof -
  obtain line where s: "s = join [LF] [line] @ [LF, LF]" and line: "LF \<notin> set line" "CR \<notin> set line"
    and quiet: "read_line line (clean_reader lastId) = ([], clean_reader lastId)"
  proof (cases ch)
    case (CommentChunk remark)
    then show thesis
      using assms(1) that [of "'': '' @ remark"]
      by (auto simp: encode_chunk_def encodeComment_def has_terminator_def list_ex_iff read_line_def split: if_splits)
  next
    case (RetryChunk ms)
    have "read_line (''retry: '' @ show_nat (nat ms)) (clean_reader lastId) = ([], clean_reader lastId)"
      using read_line_field [of "''retry''" "show_nat (nat ms)" "clean_reader lastId"] by (simp add: set_field_def)
    moreover have "LF \<notin> set (show_nat (nat ms))" "CR \<notin> set (show_nat (nat ms))"
      using show_nat_digits [of "nat ms"] by (auto simp: is_digit_def code_def)
    ultimately show thesis
      using assms(1) RetryChunk that [of "''retry: '' @ show_nat (nat ms)"]
      by (auto simp: encode_chunk_def encodeRetry_def split: if_splits)
  qed (use assms(2) in blast)
  show ?thesis
    using read_stream_block [of "[line]" rest "clean_reader lastId"] line quiet
    by (simp add: s read_line_def [of "[]"] dispatch_def clean_reader_def split: prod.splits)
qed

lemma read_wire:
  "\<forall>ch \<in> set chunks. encodable ch \<Longrightarrow>
   read_stream (wire chunks) (clean_reader lastId) = (observe lastId chunks, clean_reader (fold (\<lambda>ch i. next_id i ch) chunks lastId))"
proof (induction chunks arbitrary: lastId)
  case Nil
  then show ?case
    by (simp add: wire_def read_stream_def)
next
  case (Cons ch chunks)
  obtain s where s: "encode_chunk ch = Inr s"
    using Cons.prems by (auto simp: encodable_def split: sum.splits)
  have w: "wire (ch # chunks) = s @ wire chunks"
    using s by (simp add: wire_def)
  show ?case
  proof (cases ch)
    case (FrameChunk f)
    then show ?thesis
      using s Cons w read_frame [of f s "wire chunks" lastId] by (simp add: encode_chunk_def)
  qed (use s Cons w read_silent [of ch s "wire chunks" lastId] in \<open>simp_all add: next_id_def\<close>)
qed

section \<open>The ring holds the tail of the history\<close>

definition log_ok :: "stream_message list \<Rightarrow> event_log \<Rightarrow> bool" where
  "log_ok ms l \<longleftrightarrow> lg_latestSequence l = length ms \<and> 0 < lg_capacity l \<and> length (lg_slots l) = lg_capacity l \<and>
     CHR '':'' \<notin> set (lg_streamId l) \<and>
     (\<forall>s. 1 \<le> s \<and> s \<le> length ms \<longrightarrow> sm_id (ms ! (s - 1)) = idFor l s) \<and>
     (\<forall>s. 1 \<le> s \<and> s \<le> length ms \<and> length ms < s + lg_capacity l \<longrightarrow>
        lg_slots l ! (s mod lg_capacity l) = Some (ms ! (s - 1)))"

lemma mod_differs:
  assumes "s < n" "n < s + c"
  shows "s mod c \<noteq> n mod (c :: nat)"
proof
  assume "s mod c = n mod c"
  then have "c dvd n - s"
    using assms(1) by (metis mod_eq_dvd_iff_nat less_imp_le)
  then show False
    using assms by (auto dest: dvd_imp_le)
qed

lemma log_ok_append:
  assumes "log_ok ms l" "log_append event data l = (l', m)"
  shows "log_ok (ms @ [m]) l'" "lg_capacity l' = lg_capacity l" "lg_streamId l' = lg_streamId l"
    "m = \<lparr>sm_id = idFor l (Suc (length ms)), sm_event = event, sm_data = data\<rparr>"
proof -
  let ?n = "Suc (length ms)"
  have l': "l' = l\<lparr>lg_latestSequence := ?n, lg_slots := (lg_slots l)[?n mod lg_capacity l := Some m]\<rparr>"
    and m: "m = \<lparr>sm_id = idFor l ?n, sm_event = event, sm_data = data\<rparr>"
    using assms by (auto simp: log_append_def log_ok_def Let_def)
  have ids: "idFor l' s = idFor l s" for s
    by (simp add: idFor_def l')
  have pos: "0 < lg_capacity l" "?n mod lg_capacity l < length (lg_slots l)"
    using assms(1) by (simp_all add: log_ok_def)
  have "lg_slots l' ! (s mod lg_capacity l') = Some ((ms @ [m]) ! (s - 1))"
    if s: "1 \<le> s" "s \<le> ?n" "?n < s + lg_capacity l" for s
  proof (cases "s = ?n")
    case True
    then show ?thesis
      using pos by (simp add: l' nth_append)
  next
    case False
    then have "s mod lg_capacity l \<noteq> ?n mod lg_capacity l" "s - 1 < length ms"
      using mod_differs [of s ?n "lg_capacity l"] s by auto
    then show ?thesis
      using assms(1) s False by (simp add: l' log_ok_def nth_append)
  qed
  moreover have "sm_id ((ms @ [m]) ! (s - 1)) = idFor l' s" if "1 \<le> s" "s \<le> ?n" for s
    using that assms(1) by (cases "s = ?n") (auto simp: nth_append ids m log_ok_def)
  ultimately show "log_ok (ms @ [m]) l'"
    using assms(1) by (auto simp: log_ok_def l')
  show "lg_capacity l' = lg_capacity l" "lg_streamId l' = lg_streamId l"
    "m = \<lparr>sm_id = idFor l ?n, sm_event = event, sm_data = data\<rparr>"
    by (simp_all add: l' m)
qed

lemma map_filter_Some: "(\<And>x. x \<in> set xs \<Longrightarrow> f x = Some (g x)) \<Longrightarrow> List.map_filter f xs = map g xs"
  by (induction xs) (auto simp: List.map_filter_simps)

lemma replay_is_tail:
  assumes "log_ok ms l" "length ms \<le> k + lg_capacity l"
  shows "replay_from l k = drop k ms"
proof -
  have "replay_from l k = map (\<lambda>s. ms ! (s - 1)) [k + 1 ..< length ms + 1]"
  proof -
    have latest: "lg_latestSequence l = length ms"
      using assms(1) by (simp add: log_ok_def)
    show ?thesis
      unfolding replay_from_def latest by (rule map_filter_Some) (use assms in \<open>auto simp: log_ok_def\<close>)
  qed
  also have "\<dots> = drop k ms"
    by (rule nth_equalityI) (auto simp del: upt_Suc)
  finally show ?thesis .
qed

lemma since_idFor:
  assumes "log_ok ms l" "1 \<le> k" "k \<le> MAX_SAFE_INTEGER"
  shows "since l (Some (idFor l k)) =
    (if length ms \<le> k then Live else if k + lg_capacity l < length ms then Reset Expired else Replay (drop k ms))"
proof -
  have colon: "index_of (CHR '':'') (idFor l k) = Some (length (lg_streamId l))"
    using assms(1) index_of_append [of "CHR '':''" "lg_streamId l"] by (simp add: idFor_def log_ok_def)
  have digits: "list_all is_digit (show_nat k)"
    using show_nat_digits [of k] by (simp add: list_all_iff)
  have latest: "lg_latestSequence l = length ms"
    using assms(1) by (simp add: log_ok_def)
  have "since l (Some (idFor l k)) =
      (if length ms \<le> k then Live else if int k + 1 < oldestSequence l then Reset Expired else Replay (replay_from l k))"
    using colon digits assms(2,3) latest by (simp add: since_def idFor_def)
  moreover have "int k + 1 < oldestSequence l \<longleftrightarrow> k + lg_capacity l < length ms"
    using assms(2) latest by (auto simp: oldestSequence_def)
  ultimately show ?thesis
    using replay_is_tail [OF assms(1)] by simp
qed

lemma createEventLog_ok: "createEventLog capacity streamId = Inr l \<Longrightarrow> log_ok [] l \<and> lg_capacity l = nat capacity \<and> lg_streamId l = streamId"
  by (auto simp: createEventLog_def log_ok_def split: if_splits)

text \<open>The messages a log assigns to the events appended to it, from sequence \<open>n + 1\<close> on.\<close>

fun numbered :: "string \<Rightarrow> nat \<Rightarrow> (string \<times> string) list \<Rightarrow> stream_message list" where
  "numbered streamId n [] = []"
| "numbered streamId n ((event, data) # rest) =
     \<lparr>sm_id = streamId @ '':'' @ show_nat (Suc n), sm_event = event, sm_data = data\<rparr> # numbered streamId (Suc n) rest"

definition append_all :: "(string \<times> string) list \<Rightarrow> event_log \<Rightarrow> event_log" where
  "append_all events l = fold (\<lambda>(event, data) l. fst (log_append event data l)) events l"

lemma append_all_ok:
  "log_ok ms l \<Longrightarrow> log_ok (ms @ numbered (lg_streamId l) (length ms) events) (append_all events l) \<and>
   lg_capacity (append_all events l) = lg_capacity l \<and> lg_streamId (append_all events l) = lg_streamId l"
proof (induction events arbitrary: ms l)
  case (Cons e events)
  obtain event data where e: "e = (event, data)"
    by fastforce
  obtain l' m where a: "log_append event data l = (l', m)"
    by fastforce
  note step = log_ok_append [OF Cons.prems a]
  show ?case
    using Cons.IH [OF step(1)] step a by (simp add: append_all_def e idFor_def)
qed (simp add: append_all_def)

section \<open>Connections and the hub\<close>

datatype close_reason = Client | SlowConsumer | ServerShutdown | TransportError

record connection =
  cn_closed :: "close_reason option"
  cn_chunks :: "chunk list"
  cn_listening :: bool

record hub =
  hb_log :: event_log
  hb_maxConnections :: nat
  hb_connections :: "nat list"
  hb_heap :: "nat \<Rightarrow> connection"
  hb_opened :: nat

text \<open>
  What becomes of a write: taken, taken but too much is buffered, or thrown. The socket decides
  per connection and write.
\<close>

datatype write_outcome = Written | Overflow | WriteThrows

type_synonym socket = "nat \<Rightarrow> nat \<Rightarrow> write_outcome"

definition createSseHub :: "int \<Rightarrow> int \<Rightarrow> string \<Rightarrow> log_error + hub" where
  "createSseHub replayBufferSize maxConnections streamId =
     (if maxConnections < 1 then Inl BadCapacity
      else case createEventLog replayBufferSize streamId of
          Inl err \<Rightarrow> Inl err
        | Inr l \<Rightarrow> Inr \<lparr>hb_log = l, hb_maxConnections = nat maxConnections, hb_connections = [],
                     hb_heap = (\<lambda>_. \<lparr>cn_closed = None, cn_chunks = [], cn_listening = False\<rparr>), hb_opened = 0\<rparr>)"

definition update_connection :: "nat \<Rightarrow> (connection \<Rightarrow> connection) \<Rightarrow> hub \<Rightarrow> hub" where
  "update_connection i f h = h\<lparr>hb_heap := (hb_heap h)(i := f (hb_heap h i))\<rparr>"

definition is_open :: "hub \<Rightarrow> nat \<Rightarrow> bool" where
  "is_open h i \<longleftrightarrow> cn_closed (hb_heap h i) = None"

text \<open>\<open>close\<close>, with the hub's listener: it takes the connection out of the set.\<close>

definition close_connection :: "nat \<Rightarrow> close_reason \<Rightarrow> hub \<Rightarrow> hub" where
  "close_connection i reason h =
     (if \<not> is_open h i then h
      else let h = update_connection i (\<lambda>c. c\<lparr>cn_closed := Some reason\<rparr>) h in
        if cn_listening (hb_heap h i) then h\<lparr>hb_connections := removeAll i (hb_connections h)\<rparr> else h)"

definition write_chunk :: "socket \<Rightarrow> nat \<Rightarrow> chunk \<Rightarrow> hub \<Rightarrow> hub \<times> frame_error option" where
  "write_chunk socket i ch h =
     (case encode_chunk ch of
        Inl err \<Rightarrow> (h, Some err)
      | Inr s \<Rightarrow>
          if \<not> is_open h i then (h, None)
          else (case socket i (length (cn_chunks (hb_heap h i))) of
              WriteThrows \<Rightarrow> (close_connection i TransportError h, None)
            | Written \<Rightarrow> (update_connection i (\<lambda>c. c\<lparr>cn_chunks := cn_chunks c @ [ch]\<rparr>) h, None)
            | Overflow \<Rightarrow>
                (close_connection i SlowConsumer (update_connection i (\<lambda>c. c\<lparr>cn_chunks := cn_chunks c @ [ch]\<rparr>) h), None)))"

definition message_chunk :: "stream_message \<Rightarrow> chunk" where
  "message_chunk m = FrameChunk \<lparr>sf_id = Some (sm_id m), sf_event = Some (sm_event m), sf_data = sm_data m\<rparr>"

definition send :: "socket \<Rightarrow> nat \<Rightarrow> stream_message \<Rightarrow> hub \<Rightarrow> hub \<times> frame_error option" where
  "send socket i m h = write_chunk socket i (message_chunk m) h"

definition control :: "socket \<Rightarrow> nat \<Rightarrow> string \<Rightarrow> string \<Rightarrow> hub \<Rightarrow> hub \<times> frame_error option" where
  "control socket i event json h =
     write_chunk socket i (FrameChunk \<lparr>sf_id = None, sf_event = Some event, sf_data = json\<rparr>) h"

definition heartbeat :: "socket \<Rightarrow> nat \<Rightarrow> string \<Rightarrow> hub \<Rightarrow> hub \<times> frame_error option" where
  "heartbeat socket i stamp h =
     (if is_open h i then write_chunk socket i (CommentChunk (''heartbeat '' @ stamp)) h else (h, None))"

record sse_options =
  so_heartbeatIntervalMs :: int
  so_retryMs :: int
  so_maxBufferedBytes :: int

text \<open>\<open>openSseConnection\<close>: a new connection, and the reconnection delay as its first bytes.\<close>

definition openSseConnection :: "socket \<Rightarrow> sse_options \<Rightarrow> hub \<Rightarrow> nat \<times> hub \<times> frame_error option" where
  "openSseConnection socket opts h =
     (if so_heartbeatIntervalMs opts < 1 \<or> so_maxBufferedBytes opts < 1 then (hb_opened h, h, Some BadOption)
      else let i = hb_opened h;
               h = h\<lparr>hb_opened := i + 1,
                     hb_heap := (hb_heap h)(i := \<lparr>cn_closed = None, cn_chunks = [], cn_listening = False\<rparr>)\<rparr>
           in (i, write_chunk socket i (RetryChunk (so_retryMs opts)) h))"

fun send_all :: "socket \<Rightarrow> nat list \<Rightarrow> stream_message \<Rightarrow> hub \<Rightarrow> hub \<times> frame_error option" where
  "send_all socket [] m h = (h, None)"
| "send_all socket (i # is) m h =
     (if i \<notin> set (hb_connections h) then send_all socket is m h
      else case send socket i m h of
          (h', Some err) \<Rightarrow> (h', Some err)
        | (h', None) \<Rightarrow> send_all socket is m h')"

definition publish :: "socket \<Rightarrow> string \<Rightarrow> string \<Rightarrow> hub \<Rightarrow> hub \<times> frame_error option" where
  "publish socket event json h =
     (case log_append event json (hb_log h) of
        (l, message) \<Rightarrow> send_all socket (hb_connections h) message (h\<lparr>hb_log := l\<rparr>))"

fun replay_all :: "socket \<Rightarrow> nat \<Rightarrow> stream_message list \<Rightarrow> hub \<Rightarrow> hub \<times> frame_error option" where
  "replay_all socket i [] h = (h, None)"
| "replay_all socket i (m # ms) h =
     (case send socket i m h of
        (h', Some err) \<Rightarrow> (h', Some err)
      | (h', None) \<Rightarrow> replay_all socket i ms h')"

definition STREAM_OPEN_EVENT :: string where "STREAM_OPEN_EVENT = ''stream.open''"

text \<open>\<open>open_json\<close> is the serialised \<open>StreamOpenPayload\<close> of an outcome.\<close>

definition attach ::
  "socket \<Rightarrow> (string \<Rightarrow> resume_outcome \<Rightarrow> string) \<Rightarrow> nat \<Rightarrow> string option \<Rightarrow> hub \<Rightarrow> hub \<times> frame_error option" where
  "attach socket open_json i lastEventId h =
     (let outcome = since (hb_log h) lastEventId;
          h = update_connection i (\<lambda>c. c\<lparr>cn_listening := True\<rparr>) h
      in case control socket i STREAM_OPEN_EVENT (open_json (lg_streamId (hb_log h)) outcome) h of
          (h', Some err) \<Rightarrow> (h', Some err)
        | (h', None) \<Rightarrow>
            (case replay_all socket i (case outcome of Replay ms \<Rightarrow> ms | _ \<Rightarrow> []) h' of
               (h'', Some err) \<Rightarrow> (h'', Some err)
             | (h'', None) \<Rightarrow>
                 (if is_open h'' i \<and> i \<notin> set (hb_connections h'')
                  then h''\<lparr>hb_connections := hb_connections h'' @ [i]\<rparr> else h'', None)))"

definition closeAll :: "close_reason \<Rightarrow> hub \<Rightarrow> hub" where
  "closeAll reason h = (fold (\<lambda>i. close_connection i reason) (hb_connections h) h)\<lparr>hb_connections := []\<rparr>"

definition hasCapacity :: "hub \<Rightarrow> bool" where
  "hasCapacity h \<longleftrightarrow> length (hb_connections h) < hb_maxConnections h"

definition usable :: "string \<Rightarrow> bool" where
  "usable val \<longleftrightarrow> 0 < length val \<and> length val \<le> MAX_FIELD_LENGTH \<and> NUL \<notin> set val \<and> \<not> has_terminator val"

definition readLastEventId :: "string option \<Rightarrow> string option \<Rightarrow> string option" where
  "readLastEventId header fromQuery =
     (case header of
        Some v \<Rightarrow> if usable v then Some v else (case fromQuery of Some q \<Rightarrow> if usable q then Some q else None | None \<Rightarrow> None)
      | None \<Rightarrow> (case fromQuery of Some q \<Rightarrow> if usable q then Some q else None | None \<Rightarrow> None))"

text \<open>The handler; \<open>Inl True\<close> is the 503 of a full hub, \<open>Inl False\<close> an error of the encoder.\<close>

definition streamDomainEvents ::
  "socket \<Rightarrow> (string \<Rightarrow> resume_outcome \<Rightarrow> string) \<Rightarrow> sse_options \<Rightarrow> string option \<Rightarrow> string option \<Rightarrow> hub \<Rightarrow> hub \<times> (bool + nat)" where
  "streamDomainEvents socket open_json opts header fromQuery h =
     (if \<not> hasCapacity h then (h, Inl True)
      else case openSseConnection socket opts h of
          (i, h', Some err) \<Rightarrow> (h', Inl False)
        | (i, h', None) \<Rightarrow>
            (case attach socket open_json i (readLastEventId header fromQuery) h' of
               (h'', Some err) \<Rightarrow> (h'', Inl False)
             | (h'', None) \<Rightarrow> (h'', Inr i)))"

section \<open>What a connection has been sent\<close>

definition hub_ok :: "hub \<Rightarrow> bool" where
  "hub_ok h \<longleftrightarrow> distinct (hb_connections h) \<and>
     (\<forall>j \<in> set (hb_connections h). j < hb_opened h \<and> is_open h j \<and> cn_listening (hb_heap h j)) \<and>
     (\<forall>j < hb_opened h. \<forall>ch \<in> set (cn_chunks (hb_heap h j)). encodable ch)"

definition is_frame :: "chunk \<Rightarrow> bool" where
  "is_frame ch \<longleftrightarrow> (case ch of FrameChunk f \<Rightarrow> True | _ \<Rightarrow> False)"

text \<open>
  \<open>h'\<close> is \<open>h\<close> after writes to connection \<open>i\<close>: it may have closed, and while it is open it has the
  chunks \<open>new\<close> more.
\<close>

definition wrote :: "nat \<Rightarrow> chunk list \<Rightarrow> hub \<Rightarrow> hub \<Rightarrow> bool" where
  "wrote i new h h' \<longleftrightarrow> hb_log h' = hb_log h \<and> hb_opened h' = hb_opened h \<and> hb_maxConnections h' = hb_maxConnections h \<and>
     set (hb_connections h') \<subseteq> set (hb_connections h) \<and>
     (\<forall>j. j \<noteq> i \<longrightarrow> hb_heap h' j = hb_heap h j \<and> (j \<in> set (hb_connections h') \<longleftrightarrow> j \<in> set (hb_connections h))) \<and>
     cn_listening (hb_heap h' i) = cn_listening (hb_heap h i) \<and>
     (is_open h' i \<longrightarrow> is_open h i \<and> cn_chunks (hb_heap h' i) = cn_chunks (hb_heap h i) @ new \<and>
        (i \<in> set (hb_connections h') \<longleftrightarrow> i \<in> set (hb_connections h)))"

lemma wrote_refl: "wrote i [] h h"
  by (simp add: wrote_def)

lemma wrote_closed: "\<not> is_open h i \<Longrightarrow> wrote i new h h"
  by (simp add: wrote_def)

lemma wrote_trans: "wrote i a h h' \<Longrightarrow> wrote i b h' h'' \<Longrightarrow> wrote i (a @ b) h h''"
  by (auto simp: wrote_def)

lemma hub_ok_close: "hub_ok h \<Longrightarrow> hub_ok (close_connection i reason h)"
  by (auto simp: hub_ok_def close_connection_def update_connection_def is_open_def distinct_removeAll Let_def)

lemma wrote_close: "wrote i new h (close_connection i reason h) \<or> \<not> is_open h i"
  by (auto simp: wrote_def close_connection_def update_connection_def is_open_def Let_def)

lemma write_chunk_effect:
  assumes "write_chunk socket i ch h = (h', None)" "hub_ok h" "i < hb_opened h"
  shows "hub_ok h' \<and> wrote i [ch] h h' \<and> encodable ch"
proof -
  have e: "encodable ch"
    using assms(1) by (auto simp: write_chunk_def encodable_def split: sum.splits)
  let ?u = "update_connection i (\<lambda>c. c\<lparr>cn_chunks := cn_chunks c @ [ch]\<rparr>) h"
  have u: "hub_ok ?u" "wrote i [ch] h ?u"
    using assms(2) e by (auto simp: hub_ok_def update_connection_def is_open_def wrote_def)
  have closed: "wrote i [ch] h (close_connection i SlowConsumer ?u)" if "is_open h i"
    using wrote_trans [OF u(2), of "[]" "close_connection i SlowConsumer ?u"] wrote_close [of i "[]" ?u SlowConsumer] that
    by (auto simp: is_open_def update_connection_def)
  show ?thesis
    using assms(1,2) e u closed hub_ok_close wrote_close [of i "[ch]" h TransportError]
    by (auto simp: write_chunk_def wrote_closed split: sum.splits if_splits write_outcome.splits)
qed

lemma replay_all_effect:
  "replay_all socket i ms h = (h', None) \<Longrightarrow> hub_ok h \<Longrightarrow> i < hb_opened h \<Longrightarrow>
   hub_ok h' \<and> wrote i (map message_chunk ms) h h'"
proof (induction ms arbitrary: h)
  case (Cons m ms)
  obtain h1 where h1: "write_chunk socket i (message_chunk m) h = (h1, None)" "replay_all socket i ms h1 = (h', None)"
    using Cons.prems(1) by (auto simp: send_def split: prod.splits option.splits)
  note first = write_chunk_effect [OF h1(1) Cons.prems(2,3)]
  then have "hub_ok h' \<and> wrote i (map message_chunk ms) h1 h'"
    using Cons.IH [OF h1(2)] Cons.prems(3) by (simp add: wrote_def)
  then show ?case
    using first wrote_trans [of i "[message_chunk m]" h h1 "map message_chunk ms" h'] by simp
qed (simp add: wrote_refl)

lemma send_all_effect:
  "send_all socket js m h = (h', None) \<Longrightarrow> hub_ok h \<Longrightarrow> distinct js \<Longrightarrow>
   hub_ok h' \<and> hb_log h' = hb_log h \<and> hb_opened h' = hb_opened h \<and> hb_maxConnections h' = hb_maxConnections h \<and>
   set (hb_connections h') \<subseteq> set (hb_connections h) \<and>
   (\<forall>j. j \<notin> set js \<longrightarrow> hb_heap h' j = hb_heap h j) \<and>
   (\<forall>j \<in> set js. j \<in> set (hb_connections h') \<longrightarrow> cn_chunks (hb_heap h' j) = cn_chunks (hb_heap h j) @ [message_chunk m])"
proof (induction js arbitrary: h)
  case (Cons j js)
  show ?case
  proof (cases "j \<in> set (hb_connections h)")
    case False
    then show ?thesis
      using Cons by auto
  next
    case True
    obtain h1 where h1: "write_chunk socket j (message_chunk m) h = (h1, None)" "send_all socket js m h1 = (h', None)"
      using Cons.prems(1) True by (auto simp: send_def split: prod.splits option.splits)
    have "j < hb_opened h"
      using Cons.prems(2) True by (simp add: hub_ok_def)
    note first = write_chunk_effect [OF h1(1) Cons.prems(2) this]
    have later: "hub_ok h' \<and> hb_log h' = hb_log h1 \<and> hb_opened h' = hb_opened h1 \<and> hb_maxConnections h' = hb_maxConnections h1 \<and>
        set (hb_connections h') \<subseteq> set (hb_connections h1) \<and> (\<forall>j. j \<notin> set js \<longrightarrow> hb_heap h' j = hb_heap h1 j) \<and>
        (\<forall>j \<in> set js. j \<in> set (hb_connections h') \<longrightarrow> cn_chunks (hb_heap h' j) = cn_chunks (hb_heap h1 j) @ [message_chunk m])"
      using Cons.IH [OF h1(2)] first Cons.prems(3) by simp
    have "cn_chunks (hb_heap h' j) = cn_chunks (hb_heap h j) @ [message_chunk m]" if "j \<in> set (hb_connections h')"
    proof -
      have "is_open h1 j" "hb_heap h' j = hb_heap h1 j"
        using that later first Cons.prems(3) by (auto simp: hub_ok_def)
      then show ?thesis
        using first by (simp add: wrote_def)
    qed
    moreover have "cn_chunks (hb_heap h' k) = cn_chunks (hb_heap h k) @ [message_chunk m]"
      if "k \<in> set js" "k \<in> set (hb_connections h')" for k
    proof -
      have "k \<noteq> j"
        using that(1) Cons.prems(3) by auto
      then show ?thesis
        using later first that by (simp add: wrote_def)
    qed
    moreover have "hb_heap h' k = hb_heap h k" if "k \<notin> set (j # js)" for k
      using later first that by (simp add: wrote_def)
    moreover have "hb_log h' = hb_log h" "hb_opened h' = hb_opened h" "hb_maxConnections h' = hb_maxConnections h"
      "set (hb_connections h') \<subseteq> set (hb_connections h)"
      using later first by (auto simp: wrote_def)
    ultimately show ?thesis
      using later by auto
  qed
qed simp

definition open_chunk :: "(string \<Rightarrow> resume_outcome \<Rightarrow> string) \<Rightarrow> event_log \<Rightarrow> string option \<Rightarrow> chunk" where
  "open_chunk open_json l cursor =
     FrameChunk \<lparr>sf_id = None, sf_event = Some STREAM_OPEN_EVENT, sf_data = open_json (lg_streamId l) (since l cursor)\<rparr>"

definition replayed :: "resume_outcome \<Rightarrow> stream_message list" where
  "replayed outcome = (case outcome of Replay ms \<Rightarrow> ms | _ \<Rightarrow> [])"

text \<open>The hub outside one connection.\<close>

definition others_same :: "nat \<Rightarrow> hub \<Rightarrow> hub \<Rightarrow> bool" where
  "others_same i h h' \<longleftrightarrow> hb_log h' = hb_log h \<and> hb_maxConnections h' = hb_maxConnections h \<and>
     (\<forall>j. j \<noteq> i \<longrightarrow> hb_heap h' j = hb_heap h j \<and> (j \<in> set (hb_connections h') \<longleftrightarrow> j \<in> set (hb_connections h)))"

lemma attach_effect:
  assumes "attach socket open_json i cursor h = (h', None)" "hub_ok h" "i < hb_opened h" "i \<notin> set (hb_connections h)"
  shows "hub_ok h' \<and> others_same i h h' \<and> hb_opened h' = hb_opened h \<and>
    (i \<in> set (hb_connections h') \<longrightarrow> is_open h i \<and> cn_chunks (hb_heap h' i) =
       cn_chunks (hb_heap h i) @ open_chunk open_json (hb_log h) cursor # map message_chunk (replayed (since (hb_log h) cursor)))"
proof -
  let ?h0 = "update_connection i (\<lambda>c. c\<lparr>cn_listening := True\<rparr>) h"
  let ?ms = "replayed (since (hb_log h) cursor)"
  let ?open = "open_chunk open_json (hb_log h) cursor"
  have log0: "hb_log ?h0 = hb_log h"
    by (simp add: update_connection_def)
  obtain h1 h2 where h1: "write_chunk socket i ?open ?h0 = (h1, None)" and h2: "replay_all socket i ?ms h1 = (h2, None)"
    and h': "h' = (if is_open h2 i \<and> i \<notin> set (hb_connections h2) then h2\<lparr>hb_connections := hb_connections h2 @ [i]\<rparr> else h2)"
    using assms(1) by (auto simp: attach_def control_def open_chunk_def replayed_def log0 Let_def split: prod.splits option.splits)
  have ok0: "hub_ok ?h0" "i < hb_opened ?h0"
    using assms(2-4) by (auto simp: hub_ok_def update_connection_def is_open_def)
  note w1 = write_chunk_effect [OF h1 ok0]
  have "i < hb_opened h1"
    using w1 ok0(2) by (simp add: wrote_def)
  note w2 = replay_all_effect [OF h2 _ this]
  have ok2: "hub_ok h2" and w: "wrote i (?open # map message_chunk ?ms) ?h0 h2"
    using w1 w2 wrote_trans [of i "[?open]" ?h0 h1 "map message_chunk ?ms" h2] by simp_all
  have i: "cn_listening (hb_heap h2 i)" "i < hb_opened h2" "i \<notin> set (hb_connections h2)"
    using w assms(3,4) by (auto simp: wrote_def update_connection_def)
  then have "hub_ok h'"
    using ok2 by (auto simp: h' hub_ok_def is_open_def)
  moreover have "others_same i h h'" "hb_opened h' = hb_opened h"
    using w by (auto simp: h' others_same_def wrote_def update_connection_def)
  moreover have "is_open h i \<and> cn_chunks (hb_heap h' i) = cn_chunks (hb_heap h i) @ ?open # map message_chunk ?ms"
    if "i \<in> set (hb_connections h')"
  proof -
    have "is_open h2 i"
      using that i(3) by (auto simp: h' split: if_splits)
    then show ?thesis
      using w i(3) by (simp add: h' wrote_def update_connection_def is_open_def)
  qed
  ultimately show ?thesis
    by blast
qed

lemma stream_effect:
  assumes "streamDomainEvents socket open_json opts header fromQuery h = (h', Inr i)" "hub_ok h"
  shows "hub_ok h' \<and> others_same i h h' \<and> i = hb_opened h \<and> hb_opened h' = Suc (hb_opened h) \<and>
    length (hb_connections h) < hb_maxConnections h \<and>
    (i \<in> set (hb_connections h') \<longrightarrow> cn_chunks (hb_heap h' i) =
       RetryChunk (so_retryMs opts) # open_chunk open_json (hb_log h) (readLastEventId header fromQuery) #
       map message_chunk (replayed (since (hb_log h) (readLastEventId header fromQuery))))"
proof -
  let ?cursor = "readLastEventId header fromQuery"
  let ?h0 = "h\<lparr>hb_opened := hb_opened h + 1,
      hb_heap := (hb_heap h)(hb_opened h := \<lparr>cn_closed = None, cn_chunks = [], cn_listening = False\<rparr>)\<rparr>"
  obtain h1 where h1: "write_chunk socket (hb_opened h) (RetryChunk (so_retryMs opts)) ?h0 = (h1, None)"
    and a: "attach socket open_json (hb_opened h) ?cursor h1 = (h', None)" and i: "i = hb_opened h" and room: "hasCapacity h"
    using assms(1) by (auto simp: streamDomainEvents_def openSseConnection_def Let_def split: if_splits prod.splits option.splits)
  have ok0: "hub_ok ?h0" "hb_opened h < hb_opened ?h0" "hb_opened h \<notin> set (hb_connections h)"
    using assms(2) by (auto simp: hub_ok_def is_open_def less_Suc_eq)
  note w = write_chunk_effect [OF h1 ok0(1,2)]
  have one: "hub_ok h1" "hb_opened h < hb_opened h1" "hb_opened h \<notin> set (hb_connections h1)" "hb_log h1 = hb_log h"
    using w ok0(3) by (auto simp: wrote_def)
  note at = attach_effect [OF a one(1-3)]
  have same: "others_same i h h'" "hb_opened h' = Suc (hb_opened h)"
    using w at by (auto simp: others_same_def wrote_def i)
  have "cn_chunks (hb_heap h1 i) = [RetryChunk (so_retryMs opts)]" if "i \<in> set (hb_connections h')"
  proof -
    have "is_open h1 i"
      using at that by (simp add: i)
    then show ?thesis
      using w by (simp add: wrote_def i)
  qed
  then show ?thesis
    using at same room by (simp add: i one(4) hasCapacity_def)
qed

section \<open>The hub over time\<close>

datatype hub_event =
    Stream "string option" "string option"
  | Publish string string
  | Heartbeat nat string
  | PeerClosed nat
  | PeerErrored nat
  | CloseAll close_reason

text \<open>One event; \<open>None\<close> when the encoder throws.\<close>

primrec hub_do ::
  "socket \<Rightarrow> (string \<Rightarrow> resume_outcome \<Rightarrow> string) \<Rightarrow> sse_options \<Rightarrow> hub_event \<Rightarrow> hub \<Rightarrow> hub option" where
  "hub_do socket open_json opts (Stream header fromQuery) h =
     (case streamDomainEvents socket open_json opts header fromQuery h of
        (h', Inl full) \<Rightarrow> if full then Some h' else None
      | (h', Inr i) \<Rightarrow> Some h')"
| "hub_do socket open_json opts (Publish event json) h =
     (case publish socket event json h of (h', Some err) \<Rightarrow> None | (h', None) \<Rightarrow> Some h')"
| "hub_do socket open_json opts (Heartbeat i stamp) h =
     (if i < hb_opened h then (case heartbeat socket i stamp h of (h', Some err) \<Rightarrow> None | (h', None) \<Rightarrow> Some h') else Some h)"
| "hub_do socket open_json opts (PeerClosed i) h = Some (if i < hb_opened h then close_connection i Client h else h)"
| "hub_do socket open_json opts (PeerErrored i) h = Some (if i < hb_opened h then close_connection i TransportError h else h)"
| "hub_do socket open_json opts (CloseAll reason) h = Some (closeAll reason h)"

fun hub_run ::
  "socket \<Rightarrow> (string \<Rightarrow> resume_outcome \<Rightarrow> string) \<Rightarrow> sse_options \<Rightarrow> hub_event list \<Rightarrow> hub \<Rightarrow> hub option" where
  "hub_run socket open_json opts [] h = Some h"
| "hub_run socket open_json opts (e # es) h =
     (case hub_do socket open_json opts e h of None \<Rightarrow> None | Some h' \<Rightarrow> hub_run socket open_json opts es h')"

primrec published :: "hub_event \<Rightarrow> (string \<times> string) list" where
  "published (Stream header fromQuery) = []"
| "published (Publish event json) = [(event, json)]"
| "published (Heartbeat i stamp) = []"
| "published (PeerClosed i) = []"
| "published (PeerErrored i) = []"
| "published (CloseAll reason) = []"

text \<open>
  The hub has logged \<open>ms\<close>, and if connection \<open>i\<close> is still in the live set the frames it has been
  sent are \<open>first\<close> and then exactly the messages after the first \<open>k\<close>.
\<close>

definition delivered :: "nat \<Rightarrow> chunk \<Rightarrow> nat \<Rightarrow> stream_message list \<Rightarrow> hub \<Rightarrow> bool" where
  "delivered i first k ms h \<longleftrightarrow> hub_ok h \<and> log_ok ms (hb_log h) \<and> k \<le> length ms \<and> i < hb_opened h \<and>
     (i \<in> set (hb_connections h) \<longrightarrow> filter is_frame (cn_chunks (hb_heap h i)) = first # map message_chunk (drop k ms))"

lemma is_frame_simps [simp]:
  "is_frame (message_chunk m)" "is_frame (open_chunk open_json l cursor)" "\<not> is_frame (RetryChunk ms)"
  by (simp_all add: is_frame_def message_chunk_def open_chunk_def)

lemma filter_messages [simp]: "filter is_frame (map message_chunk ms) = map message_chunk ms"
  by (simp add: filter_map comp_def)

lemma close_others: "others_same i h (close_connection i reason h)" "hb_opened (close_connection i reason h) = hb_opened h"
  by (auto simp: others_same_def close_connection_def update_connection_def Let_def)

lemma close_chunks: "cn_chunks (hb_heap (close_connection i reason h) j) = cn_chunks (hb_heap h j)"
  "set (hb_connections (close_connection i reason h)) \<subseteq> set (hb_connections h)"
  by (auto simp: close_connection_def update_connection_def Let_def)

lemma delivered_close: "delivered i first k ms h \<Longrightarrow> delivered i first k ms (close_connection j reason h)"
  using close_chunks [of j reason h] close_others [where i = j and h = h and reason = reason] hub_ok_close [of h j reason]
  by (auto simp: delivered_def others_same_def)

lemma delivered_closeAll: 
  assumes "delivered i first k ms h"
  shows "delivered i first k ms (closeAll reason h)"
proof -
  have "delivered i first k ms (fold (\<lambda>i. close_connection i reason) js h)" for js
    using assms by (induction js arbitrary: h) (simp_all add: delivered_close)
  then have "delivered i first k ms (fold (\<lambda>i. close_connection i reason) (hb_connections h) h)" .
  then show ?thesis
    by (auto simp: closeAll_def delivered_def hub_ok_def is_open_def)
qed

lemma delivered_publish:
  assumes "delivered i first k ms h" "publish socket event json h = (h', None)"
  shows "delivered i first k (ms @ numbered (lg_streamId (hb_log h)) (length ms) [(event, json)]) h' \<and>
    lg_streamId (hb_log h') = lg_streamId (hb_log h) \<and> lg_capacity (hb_log h') = lg_capacity (hb_log h)"
proof -
  obtain l m where a: "log_append event json (hb_log h) = (l, m)"
    by fastforce
  have sent: "send_all socket (hb_connections h) m (h\<lparr>hb_log := l\<rparr>) = (h', None)"
    using assms(2) a by (simp add: publish_def)
  have ok: "hub_ok (h\<lparr>hb_log := l\<rparr>)" "distinct (hb_connections h)"
    using assms(1) by (auto simp: delivered_def hub_ok_def is_open_def)
  note s = send_all_effect [OF sent ok]
  have "log_ok ms (hb_log h)"
    using assms(1) by (simp add: delivered_def)
  note log = log_ok_append [OF this a]
  have m: "numbered (lg_streamId (hb_log h)) (length ms) [(event, json)] = [m]"
    using log(4) by (simp add: idFor_def)
  show ?thesis
    using s log(1-3) assms(1) unfolding m delivered_def by auto
qed

lemma delivered_others:
  assumes "delivered i first k ms h" "others_same j h h'" "j \<noteq> i" "hub_ok h'" "hb_opened h \<le> hb_opened h'"
  shows "delivered i first k ms h'"
  using assms by (simp add: delivered_def others_same_def)

lemma delivered_heartbeat:
  assumes "delivered i first k ms h" "heartbeat socket j stamp h = (h', None)" "j < hb_opened h"
  shows "delivered i first k ms h'"
proof (cases "is_open h j")
  case True
  then have w: "write_chunk socket j (CommentChunk (''heartbeat '' @ stamp)) h = (h', None)"
    using assms(2) by (simp add: heartbeat_def)
  have "hub_ok h"
    using assms(1) by (simp add: delivered_def)
  note e = write_chunk_effect [OF w this assms(3)]
  have "is_open h' i" if "i \<in> set (hb_connections h')"
    using e that by (simp add: hub_ok_def)
  then show ?thesis
    using assms(1) e by (cases "i = j") (auto simp: delivered_def wrote_def is_frame_def)
next
  case False
  then show ?thesis
    using assms by (simp add: heartbeat_def)
qed

lemma close_log [simp]: "hb_log (close_connection i reason h) = hb_log h"
  using close_others(1) [where i = i and h = h and reason = reason] by (simp add: others_same_def)

lemma closeAll_log [simp]: "hb_log (closeAll reason h) = hb_log h"
proof -
  have "hb_log (fold (\<lambda>i. close_connection i reason) js h) = hb_log h" for js
    by (induction js arbitrary: h) simp_all
  then show ?thesis
    by (simp add: closeAll_def)
qed

lemma write_chunk_log [simp]: "hb_log (fst (write_chunk socket i ch h)) = hb_log h"
  by (simp add: write_chunk_def update_connection_def split: sum.splits write_outcome.splits)

lemma heartbeat_log: "heartbeat socket i stamp h = (h', err) \<Longrightarrow> hb_log h' = hb_log h"
  using write_chunk_log [of socket i "CommentChunk (''heartbeat '' @ stamp)" h]
  by (auto simp: heartbeat_def simp del: write_chunk_log split: if_splits)

lemma delivered_stream:
  assumes "delivered i first k ms h" "hub_do socket open_json opts (Stream header fromQuery) h = Some h'"
  shows "delivered i first k ms h' \<and> hb_log h' = hb_log h"
proof -
  obtain h1 r where s: "streamDomainEvents socket open_json opts header fromQuery h = (h1, r)"
    by fastforce
  have ok: "hub_ok h" "i < hb_opened h"
    using assms(1) by (simp_all add: delivered_def)
  show ?thesis
  proof (cases r)
    case (Inl full)
    then have "full" "h' = h1"
      using assms(2) s by (auto split: if_splits)
    moreover have "h1 = h" if "full"
      using s Inl that by (auto simp: streamDomainEvents_def split: if_splits prod.splits option.splits)
    ultimately show ?thesis
      using assms(1) by simp
  next
    case (Inr j)
    then have "h' = h1"
      using assms(2) s by simp
    have "streamDomainEvents socket open_json opts header fromQuery h = (h1, Inr j)"
      using s Inr by simp
    then have e: "hub_ok h1" "others_same j h h1" "j = hb_opened h" "hb_opened h1 = Suc (hb_opened h)"
      using stream_effect [OF _ ok(1)] by blast+
    have "delivered i first k ms h1"
      using delivered_others [OF assms(1) e(2)] e(1,3,4) ok(2) by simp
    then show ?thesis
      using e(2) \<open>h' = h1\<close> by (simp add: others_same_def)
  qed
qed

lemma delivered_do:
  assumes "delivered i first k ms h" "hub_do socket open_json opts e h = Some h'"
  shows "delivered i first k (ms @ numbered (lg_streamId (hb_log h)) (length ms) (published e)) h' \<and>
    lg_streamId (hb_log h') = lg_streamId (hb_log h)"
proof (cases e)
  case (Stream header fromQuery)
  then show ?thesis
    using delivered_stream [OF assms(1), of socket open_json opts header fromQuery h'] assms(2) by simp
next
  case (Publish event json)
  obtain h1 err where p: "publish socket event json h = (h1, err)"
    by fastforce
  then have "err = None" "h' = h1"
    using assms(2) Publish by (auto split: option.splits)
  then show ?thesis
    using delivered_publish [OF assms(1), of socket event json h1] p Publish by simp
next
  case (Heartbeat j stamp)
  obtain h1 err where p: "heartbeat socket j stamp h = (h1, err)"
    by fastforce
  have "j < hb_opened h \<and> err = None \<and> h' = h1 \<or> h' = h"
    using assms(2) Heartbeat p by (auto split: option.splits if_splits)
  then show ?thesis
    using delivered_heartbeat [OF assms(1), of socket j stamp h1] p Heartbeat assms(1) heartbeat_log [OF p] by auto
next
  case (PeerClosed j)
  then show ?thesis
    using assms delivered_close [OF assms(1), of j Client] by (auto split: if_splits)
next
  case (PeerErrored j)
  then show ?thesis
    using assms delivered_close [OF assms(1), of j TransportError] by (auto split: if_splits)
next
  case (CloseAll reason)
  then show ?thesis
    using assms delivered_closeAll [OF assms(1), of reason] by auto
qed

lemma numbered_append: "numbered sid n (a @ b) = numbered sid n a @ numbered sid (n + length a) b"
  by (induction a arbitrary: n) auto

lemma length_numbered [simp]: "length (numbered sid n a) = length a"
  by (induction a arbitrary: n) auto

lemma delivered_run:
  "delivered i first k ms h \<Longrightarrow> hub_run socket open_json opts es h = Some h' \<Longrightarrow>
   delivered i first k (ms @ numbered (lg_streamId (hb_log h)) (length ms) (concat (map published es))) h'"
proof (induction es arbitrary: ms h)
  case (Cons e es)
  obtain h1 where h1: "hub_do socket open_json opts e h = Some h1" "hub_run socket open_json opts es h1 = Some h'"
    using Cons.prems(2) by (auto split: option.splits)
  note step = delivered_do [OF Cons.prems(1) h1(1)]
  show ?case
    using Cons.IH [OF conjunct1 [OF step] h1(2)] step by (simp add: numbered_append)
qed simp

lemma observe_frames: "observe lastId chunks = observe lastId (filter is_frame chunks)"
  by (induction chunks arbitrary: lastId) (auto simp: is_frame_def next_id_def split: chunk.splits)

definition seen :: "stream_message \<Rightarrow> dispatched" where
  "seen m = \<lparr>di_type = sm_event m, di_data = normalise (sm_data m), di_lastId = sm_id m\<rparr>"

lemma observe_messages: "observe lastId (map message_chunk ms) = map seen ms"
  by (induction ms arbitrary: lastId) (simp_all add: message_chunk_def observed_def seen_def next_id_def)

lemma createSseHub_ok:
  assumes "createSseHub replayBufferSize maxConnections streamId = Inr h"
  shows "hub_ok h" "log_ok [] (hb_log h)" "lg_streamId (hb_log h) = streamId" "lg_capacity (hb_log h) = nat replayBufferSize"
  using assms createEventLog_ok [of replayBufferSize streamId]
  by (auto simp: createSseHub_def hub_ok_def split: if_splits sum.splits)

text \<open>Every hub that has run holds the history of what was published.\<close>

definition hub_inv :: "stream_message list \<Rightarrow> event_log \<Rightarrow> hub \<Rightarrow> bool" where
  "hub_inv ms l0 h \<longleftrightarrow> hub_ok h \<and> log_ok ms (hb_log h) \<and> lg_streamId (hb_log h) = lg_streamId l0 \<and>
     lg_capacity (hb_log h) = lg_capacity l0"

lemma hub_ok_closeAll: "hub_ok h \<Longrightarrow> hub_ok (closeAll reason h)"
proof -
  assume "hub_ok h"
  then have "hub_ok (fold (\<lambda>i. close_connection i reason) js h)" for js
    by (induction js arbitrary: h) (simp_all add: hub_ok_close)
  then have "hub_ok (fold (\<lambda>i. close_connection i reason) (hb_connections h) h)" .
  then show ?thesis
    by (auto simp: closeAll_def hub_ok_def is_open_def)
qed

lemma hub_inv_publish:
  assumes "hub_inv ms l0 h" "publish socket event json h = (h', None)"
  shows "hub_inv (ms @ numbered (lg_streamId l0) (length ms) [(event, json)]) l0 h'"
proof -
  obtain l m where a: "log_append event json (hb_log h) = (l, m)"
    by fastforce
  have sent: "send_all socket (hb_connections h) m (h\<lparr>hb_log := l\<rparr>) = (h', None)"
    using assms(2) a by (simp add: publish_def)
  have ok: "hub_ok (h\<lparr>hb_log := l\<rparr>)" "distinct (hb_connections h)" "log_ok ms (hb_log h)"
    using assms(1) by (auto simp: hub_inv_def hub_ok_def is_open_def)
  note s = send_all_effect [OF sent ok(1,2)]
  note log = log_ok_append [OF ok(3) a]
  have "hb_log h' = l" "hub_ok h'"
    using s by simp_all
  moreover have "numbered (lg_streamId l0) (length ms) [(event, json)] = [m]"
    using log(4) assms(1) by (simp add: idFor_def hub_inv_def)
  ultimately show ?thesis
    using log(1-3) assms(1) by (simp add: hub_inv_def)
qed

lemma hub_inv_do:
  assumes "hub_inv ms l0 h" "hub_do socket open_json opts e h = Some h'"
  shows "hub_inv (ms @ numbered (lg_streamId l0) (length ms) (published e)) l0 h'"
proof -
  have ok: "hub_ok h"
    using assms(1) by (simp add: hub_inv_def)
  have same: "hub_inv ms l0 h1" if "hub_ok h1" "hb_log h1 = hb_log h" for h1
    using assms(1) that by (simp add: hub_inv_def)
  show ?thesis
  proof (cases e)
    case (Stream header fromQuery)
    obtain h1 r where s: "streamDomainEvents socket open_json opts header fromQuery h = (h1, r)"
      by fastforce
    have "hub_ok h1 \<and> hb_log h1 = hb_log h" if "r = Inr j" for j
      using stream_effect [OF s [unfolded that] ok] by (simp add: others_same_def)
    moreover have "h1 = h" if "r = Inl True"
      using s that by (auto simp: streamDomainEvents_def split: if_splits prod.splits option.splits)
    ultimately have "hub_ok h' \<and> hb_log h' = hb_log h"
      using assms(2) s Stream ok by (auto split: sum.splits if_splits)
    then show ?thesis
      using same Stream by simp
  next
    case (Publish event json)
    obtain h1 err where p: "publish socket event json h = (h1, err)"
      by fastforce
    then have "err = None" "h' = h1"
      using assms(2) Publish by (auto split: option.splits)
    then show ?thesis
      using hub_inv_publish [OF assms(1), of socket event json h1] p Publish by simp
  next
    case (Heartbeat j stamp)
    obtain h1 err where p: "heartbeat socket j stamp h = (h1, err)"
      by fastforce
    have "j < hb_opened h \<and> err = None \<and> h' = h1 \<or> h' = h"
      using assms(2) Heartbeat p by (auto split: option.splits if_splits)
    moreover have "hub_ok h1" if "j < hb_opened h" "err = None"
      using write_chunk_effect [of socket j _ h h1, OF _ ok that(1)] p that(2) ok by (auto simp: heartbeat_def split: if_splits)
    ultimately show ?thesis
      using same Heartbeat heartbeat_log [OF p] ok by auto
  qed (use assms(2) same ok in \<open>auto simp: hub_ok_close hub_ok_closeAll split: if_splits\<close>)
qed

lemma hub_inv_run:
  "hub_inv ms l0 h \<Longrightarrow> hub_run socket open_json opts es h = Some h' \<Longrightarrow>
   hub_inv (ms @ numbered (lg_streamId l0) (length ms) (concat (map published es))) l0 h'"
proof (induction es arbitrary: ms h)
  case (Cons e es)
  obtain h1 where h1: "hub_do socket open_json opts e h = Some h1" "hub_run socket open_json opts es h1 = Some h'"
    using Cons.prems(2) by (auto split: option.splits)
  show ?case
    using Cons.IH [OF hub_inv_do [OF Cons.prems(1) h1(1)] h1(2)] by (simp add: numbered_append)
qed simp

section \<open>Properties\<close>

text \<open>
  C28: What is written is what is read. The bytes of any sequence of frames, comments and retry
  hints the encoder accepts, read by the algorithm of the standard, dispatch exactly one event
  per frame with its type, its data (line breaks normalised) and the id last set, and leave the
  reader clean with that id: no field value can end its field and forge an event.
\<close>

theorem stream_round_trip:
  assumes "\<forall>ch \<in> set chunks. encodable ch"
  shows "read_stream (wire chunks) (clean_reader lastId) =
    (observe lastId chunks, clean_reader (fold (\<lambda>ch i. next_id i ch) chunks lastId))"
  by (rule read_wire [OF assms])

theorem stream_round_trip_witness:
  "fst (read_stream (wire [RetryChunk 5, FrameChunk \<lparr>sf_id = Some ''s:1'', sf_event = Some ''e'', sf_data = ''a'' @ [CR, LF] @ ''b''\<rparr>])
     (clean_reader [])) = [\<lparr>di_type = ''e'', di_data = ''a'' @ [LF] @ ''b'', di_lastId = ''s:1''\<rparr>]"
proof -
  let ?chunks = "[RetryChunk 5, FrameChunk \<lparr>sf_id = Some ''s:1'', sf_event = Some ''e'', sf_data = ''a'' @ [CR, LF] @ ''b''\<rparr>]"
  have "\<forall>ch \<in> set ?chunks. encodable ch"
    by (simp add: encodable_def encode_chunk_def encodeRetry_def encodeFrame_def id_lines_def event_lines_def
        rejectFieldValue_def has_terminator_def MAX_FIELD_LENGTH_def)
  from stream_round_trip [OF this, of "[]"] show ?thesis
    by (simp add: observed_def next_id_def)
qed

text \<open>
  The ring answers a cursor as the whole history would. For the id of any past event the
  client gets exactly the events after it, in order, if none of them has been evicted, is told
  that the cursor expired if one has, and goes live if it is up to date.
\<close>

lemma log_resumes_exactly:
  assumes "createEventLog capacity streamId = Inr l" and "1 \<le> k" and "k \<le> MAX_SAFE_INTEGER"
  shows "since (append_all events l) (Some (streamId @ '':'' @ show_nat k)) =
    (if length events \<le> k then Live
     else if k + nat capacity < length events then Reset Expired
     else Replay (drop k (numbered streamId 0 events)))"
  using append_all_ok [of "[]" l events] createEventLog_ok [OF assms(1)]
    since_idFor [OF _ assms(2,3), of "numbered streamId 0 events" "append_all events l"]
  by (simp add: idFor_def)

text \<open>
  C4: A resumed stream has no gap and no repetition. A client that comes back with the id of the
  last event it saw, while the events after it are still retained, and whose connection is still
  open after anything else has happened to the hub, reads from its socket the opening event and
  then every event published after the one it saw, each once and in order, whether it was
  published before it came back or after.
\<close>

theorem resumed_stream_has_no_gap:
  assumes "createSseHub replayBufferSize maxConnections streamId = Inr h0"
    and "hub_run socket open_json opts before h0 = Some h"
    and "past = concat (map published before)" and "1 \<le> k" "k \<le> length past" "length past \<le> k + nat replayBufferSize"
    and "cursor = streamId @ '':'' @ show_nat k" and "usable cursor" and "k \<le> MAX_SAFE_INTEGER"
    and "streamDomainEvents socket open_json opts (Some cursor) fromQuery h = (h1, Inr i)"
    and "hub_run socket open_json opts after h1 = Some h2" and "i \<in> set (hb_connections h2)"
  shows "\<exists>opening. di_type opening = STREAM_OPEN_EVENT \<and>
    fst (read_stream (wire (cn_chunks (hb_heap h2 i))) (clean_reader cursor)) =
      opening # map seen (drop k (numbered streamId 0 (past @ concat (map published after))))"
proof -
  let ?ms = "numbered streamId 0 past"
  let ?first = "open_chunk open_json (hb_log h) (Some cursor)"
  have start: "hub_inv [] (hb_log h0) h0"
    using createSseHub_ok [OF assms(1)] by (simp add: hub_inv_def)
  have inv: "hub_inv ?ms (hb_log h0) h"
    using hub_inv_run [OF start assms(2)] createSseHub_ok [OF assms(1)] by (simp add: assms(3))
  then have h: "hub_ok h" "log_ok ?ms (hb_log h)" "lg_streamId (hb_log h) = streamId" "lg_capacity (hb_log h) = nat replayBufferSize"
    using createSseHub_ok [OF assms(1)] by (simp_all add: hub_inv_def)
  have read: "readLastEventId (Some cursor) fromQuery = Some cursor"
    using assms(8) by (simp add: readLastEventId_def)
  have "replayed (since (hb_log h) (Some cursor)) = drop k ?ms"
    using since_idFor [OF h(2) assms(4,9)] assms(5,6,7) h(3,4) by (simp add: idFor_def replayed_def)
  note s = stream_effect [OF assms(10) h(1), unfolded read this]
  have log1: "hb_log h1 = hb_log h" and opened: "i < hb_opened h1"
    using s by (auto simp: others_same_def)
  have "filter is_frame (cn_chunks (hb_heap h1 i)) = ?first # map message_chunk (drop k ?ms)" if "i \<in> set (hb_connections h1)"
  proof -
    have "cn_chunks (hb_heap h1 i) = RetryChunk (so_retryMs opts) # ?first # map message_chunk (drop k ?ms)"
      using s that by blast
    then show ?thesis
      by simp
  qed
  moreover have "hub_ok h1"
    using s by blast
  ultimately have "delivered i ?first k ?ms h1"
    unfolding delivered_def using opened h(2) assms(5) by (simp add: log1)
  note d = delivered_run [OF this assms(11), unfolded log1 h(3)]
  have all: "?ms @ numbered streamId (length ?ms) (concat (map published after)) =
      numbered streamId 0 (past @ concat (map published after))"
    by (simp add: numbered_append)
  have "filter is_frame (cn_chunks (hb_heap h2 i)) =
      ?first # map message_chunk (drop k (numbered streamId 0 (past @ concat (map published after))))"
    using d assms(12) unfolding all delivered_def by blast
  then have seen: "observe cursor (cn_chunks (hb_heap h2 i)) = observed cursor
      \<lparr>sf_id = None, sf_event = Some STREAM_OPEN_EVENT, sf_data = open_json streamId (since (hb_log h) (Some cursor))\<rparr> #
      map seen (drop k (numbered streamId 0 (past @ concat (map published after))))"
    unfolding observe_frames [of cursor "cn_chunks (hb_heap h2 i)"]
    by (simp add: open_chunk_def observe_messages h(3))
  have "\<forall>ch \<in> set (cn_chunks (hb_heap h2 i)). encodable ch"
    using d unfolding delivered_def hub_ok_def by blast
  from read_wire [OF this, of cursor] seen show ?thesis
    by (auto simp: observed_def)
qed

definition quiet_socket :: socket where
  "quiet_socket i n = Written"

definition example_options :: sse_options where
  "example_options = \<lparr>so_heartbeatIntervalMs = 1000, so_retryMs = 5, so_maxBufferedBytes = 4096\<rparr>"

theorem resumed_stream_has_no_gap_witness:
  "\<exists>h0 h h1 h2 opening. createSseHub 2 1 ''s'' = Inr h0 \<and>
     hub_run quiet_socket (\<lambda>sid out. ''{}'') example_options [Publish ''a'' ''1'', Publish ''b'' ''2''] h0 = Some h \<and>
     streamDomainEvents quiet_socket (\<lambda>sid out. ''{}'') example_options (Some (''s'' @ '':'' @ show_nat 1)) None h = (h1, Inr 0) \<and>
     hub_run quiet_socket (\<lambda>sid out. ''{}'') example_options [Publish ''c'' ''3''] h1 = Some h2 \<and>
     fst (read_stream (wire (cn_chunks (hb_heap h2 0))) (clean_reader (''s'' @ '':'' @ show_nat 1))) =
       opening # map seen (drop 1 (numbered ''s'' 0 [(''a'', ''1''), (''b'', ''2''), (''c'', ''3'')]))"
proof -
  define oj :: "string \<Rightarrow> resume_outcome \<Rightarrow> string" where "oj = (\<lambda>sid out. ''{}'')"
  define h0 where "h0 = (case createSseHub 2 1 ''s'' of Inr h \<Rightarrow> h)"
  define h where "h = the (hub_run quiet_socket oj example_options [Publish ''a'' ''1'', Publish ''b'' ''2''] h0)"
  define h1 where "h1 = fst (streamDomainEvents quiet_socket oj example_options (Some (''s'' @ '':'' @ show_nat 1)) None h)"
  define h2 where "h2 = the (hub_run quiet_socket oj example_options [Publish ''c'' ''3''] h1)"
  have h0: "createSseHub 2 1 ''s'' = Inr h0"
    by (simp add: h0_def createSseHub_def createEventLog_def)
  have "case hub_run quiet_socket oj example_options [Publish ''a'' ''1'', Publish ''b'' ''2''] h0 of None \<Rightarrow> False | Some _ \<Rightarrow> True"
    unfolding h0_def oj_def by code_simp
  then have h: "hub_run quiet_socket oj example_options [Publish ''a'' ''1'', Publish ''b'' ''2''] h0 = Some h"
    unfolding h_def by (simp del: hub_run.simps split: option.splits)
  have "snd (streamDomainEvents quiet_socket oj example_options (Some (''s'' @ '':'' @ show_nat 1)) None h) = Inr 0"
    unfolding h_def h0_def oj_def by code_simp
  then have h1: "streamDomainEvents quiet_socket oj example_options (Some (''s'' @ '':'' @ show_nat 1)) None h = (h1, Inr 0)"
    unfolding h1_def by (simp add: prod_eq_iff)
  have "case hub_run quiet_socket oj example_options [Publish ''c'' ''3''] h1 of None \<Rightarrow> False | Some h \<Rightarrow> 0 \<in> set (hb_connections h)"
    unfolding h1_def h_def h0_def oj_def by code_simp
  then have h2: "hub_run quiet_socket oj example_options [Publish ''c'' ''3''] h1 = Some h2" "0 \<in> set (hb_connections h2)"
    unfolding h2_def by (simp_all del: hub_run.simps split: option.splits)
  have u: "usable (''s'' @ '':'' @ show_nat 1)"
    by code_simp
  have pub: "concat (map published [Publish ''a'' ''1'', Publish ''b'' ''2'']) @ concat (map published [Publish ''c'' ''3'']) =
      [(''a'', ''1''), (''b'', ''2''), (''c'', ''3'')]"
    by simp
  have "\<exists>opening. di_type opening = STREAM_OPEN_EVENT \<and>
      fst (read_stream (wire (cn_chunks (hb_heap h2 0))) (clean_reader (''s'' @ '':'' @ show_nat 1))) =
        opening # map seen (drop 1 (numbered ''s'' 0 (concat (map published [Publish ''a'' ''1'', Publish ''b'' ''2'']) @
          concat (map published [Publish ''c'' ''3'']))))"
    by (rule resumed_stream_has_no_gap [OF h0 h refl _ _ _ refl u _ h1 h2]) (simp_all add: MAX_SAFE_INTEGER_def)
  then show ?thesis
    using h0 h h1 h2(1) unfolding pub oj_def by blast
qed

end
