(* ===== verification/Stream_Memory.thy ===== *)
theory Stream_Memory
  imports Js_String "HOL-Library.Product_Lexorder"
begin

text \<open>
  Streams with consumer groups: the port the stream worker uses (\<open>src/redis/stream.types.ts\<close>) and
  its implementation in memory (\<open>src/redis/stream.memory.ts\<close>), together with the envelope written
  to a stream (\<open>src/redis/stream.envelope.ts\<close>). Every operation takes the clock reading it makes.
  The wait of an empty read changes nothing in the store and is left out.
\<close>

section \<open>Data\<close>

record stream_entry =
  se_id :: string
  se_fields :: "(string, string) js_map"

record pending_record =
  pr_consumer :: string
  pr_deliveredAt :: nat
  pr_deliveryCount :: nat

record pending_entry =
  pe_id :: string
  pe_consumer :: string
  pe_idleMs :: int
  pe_deliveryCount :: nat

text \<open>The cursor is the empty string until something has been handed out. A \<open>Set\<close> of consumers is a list without repetitions.\<close>

record group =
  gr_cursor :: string
  gr_pending :: "(string, pending_record) js_map"
  gr_consumers :: "string list"

record memory_streams =
  ms_streams :: "(string, stream_entry list) js_map"
  ms_groups :: "(string, (string, group) js_map) js_map"
  ms_sequence :: nat

datatype group_start = FromEnd | FromStart

datatype group_created = Created | Exists

text \<open>
  \<open>NoGroup\<close> is an error whose message starts with NOGROUP; \<open>Unreachable\<close> is any other failure of a
  command, which the store in memory never reports.
\<close>

datatype stream_error = NoGroup | Unreachable

definition empty_streams :: memory_streams where
  "empty_streams = \<lparr>ms_streams = [], ms_groups = [], ms_sequence = 0\<rparr>"

section \<open>Entry ids\<close>

text \<open>An id is \<open>${now}-${sequence}\<close>, so both halves are runs of digits.\<close>

definition entry_id :: "nat \<Rightarrow> nat \<Rightarrow> string" where
  "entry_id now sq = show_nat now @ CHR ''-'' # show_nat sq"

definition id_parts :: "string \<Rightarrow> int \<times> int" where
  "id_parts a =
     (case split_on (CHR ''-'') a of
        ms # sq # _ \<Rightarrow> (int (of_digits ms), int (of_digits sq))
      | ms # [] \<Rightarrow> (int (of_digits ms), 0)
      | [] \<Rightarrow> (0, 0))"

definition compareEntryIds :: "string \<Rightarrow> string \<Rightarrow> int" where
  "compareEntryIds a b =
     (case (id_parts a, id_parts b) of
        ((aMs, aSeq), (bMs, bSeq)) \<Rightarrow> if aMs - bMs \<noteq> 0 then aMs - bMs else aSeq - bSeq)"

text \<open>The operator \<open><\<close> on strings compares code units from the left.\<close>

fun js_string_less :: "string \<Rightarrow> string \<Rightarrow> bool" where
  "js_string_less _ [] = False"
| "js_string_less [] (_ # _) = True"
| "js_string_less (x # xs) (y # ys) = (code x < code y \<or> x = y \<and> js_string_less xs ys)"

section \<open>Operations\<close>

definition stream_of :: "memory_streams \<Rightarrow> string \<Rightarrow> stream_entry list" where
  "stream_of s key = (case js_get (ms_streams s) key of None \<Rightarrow> [] | Some es \<Rightarrow> es)"

definition groups_of :: "memory_streams \<Rightarrow> string \<Rightarrow> (string, group) js_map" where
  "groups_of s key = (case js_get (ms_groups s) key of None \<Rightarrow> [] | Some byGroup \<Rightarrow> byGroup)"

definition group_of :: "memory_streams \<Rightarrow> string \<Rightarrow> string \<Rightarrow> group option" where
  "group_of s key grp = js_get (groups_of s key) grp"

text \<open>A group is an object that is mutated in place.\<close>

definition put_group :: "string \<Rightarrow> string \<Rightarrow> group \<Rightarrow> memory_streams \<Rightarrow> memory_streams" where
  "put_group key grp g s = s\<lparr>ms_groups := js_set key (js_set grp g (groups_of s key)) (ms_groups s)\<rparr>"

definition pending :: "string \<Rightarrow> string \<Rightarrow> nat \<Rightarrow> memory_streams \<Rightarrow> pending_entry list" where
  "pending key grp now s =
     (case group_of s key grp of
        None \<Rightarrow> []
      | Some g \<Rightarrow>
          map (\<lambda>(i, r). \<lparr>pe_id = i, pe_consumer = pr_consumer r, pe_idleMs = int now - int (pr_deliveredAt r),
                          pe_deliveryCount = pr_deliveryCount r\<rparr>) (gr_pending g))"

definition consumers :: "string \<Rightarrow> string \<Rightarrow> memory_streams \<Rightarrow> string list" where
  "consumers key grp s = (case group_of s key grp of None \<Rightarrow> [] | Some g \<Rightarrow> gr_consumers g)"

definition createGroup ::
  "string \<Rightarrow> string \<Rightarrow> group_start \<Rightarrow> bool \<Rightarrow> memory_streams \<Rightarrow> (stream_error + group_created) \<times> memory_streams" where
  "createGroup key grp from mkstream s =
     (if js_get (ms_streams s) key = None \<and> \<not> mkstream then (Inl NoGroup, s)
      else
        let s1 = (if js_get (ms_streams s) key = None then s\<lparr>ms_streams := js_set key [] (ms_streams s)\<rparr> else s);
            s2 = s1\<lparr>ms_groups := js_set key (groups_of s1 key) (ms_groups s1)\<rparr>
        in if js_has (groups_of s2 key) grp then (Inr Exists, s2)
           else
             let existing = stream_of s2 key;
                 start = (case from of FromEnd \<Rightarrow> if existing = [] then [] else se_id (last existing) | FromStart \<Rightarrow> [])
             in (Inr Created, put_group key grp \<lparr>gr_cursor = start, gr_pending = [], gr_consumers = []\<rparr> s2))"

definition append_entry ::
  "string \<Rightarrow> (string, string) js_map \<Rightarrow> nat option \<Rightarrow> nat \<Rightarrow> memory_streams \<Rightarrow> string \<times> memory_streams" where
  "append_entry key flds maxLen now s =
     (let sq = ms_sequence s + 1;
          i = entry_id now sq;
          pushed = stream_of s key @ [\<lparr>se_id = i, se_fields = flds\<rparr>];
          kept = (case maxLen of
                    None \<Rightarrow> pushed
                  | Some m \<Rightarrow> if m < length pushed then drop (length pushed - m) pushed else pushed)
      in (i, s\<lparr>ms_streams := js_set key kept (ms_streams s), ms_sequence := sq\<rparr>))"

definition add_consumer :: "string \<Rightarrow> group \<Rightarrow> group" where
  "add_consumer consumer g =
     (if consumer \<in> set (gr_consumers g) then g else g\<lparr>gr_consumers := gr_consumers g @ [consumer]\<rparr>)"

text \<open>The loop of \<open>readGroupSync\<close>.\<close>

fun read_loop :: "nat \<Rightarrow> string \<Rightarrow> nat \<Rightarrow> stream_entry list \<Rightarrow> stream_entry list \<Rightarrow> group \<Rightarrow> stream_entry list \<times> group" where
  "read_loop now consumer count delivered [] g = (delivered, g)"
| "read_loop now consumer count delivered (e # es) g =
     (if count \<le> length delivered then (delivered, g)
      else if gr_cursor g \<noteq> [] \<and> compareEntryIds (se_id e) (gr_cursor g) \<le> 0
      then read_loop now consumer count delivered es g
      else read_loop now consumer count (delivered @ [e]) es
             (g\<lparr>gr_cursor := se_id e,
                gr_pending := js_set (se_id e) \<lparr>pr_consumer = consumer, pr_deliveredAt = now, pr_deliveryCount = 1\<rparr>
                                (gr_pending g)\<rparr>))"

definition readGroup ::
  "string \<Rightarrow> string \<Rightarrow> string \<Rightarrow> nat \<Rightarrow> nat \<Rightarrow> memory_streams \<Rightarrow> (stream_error + stream_entry list) \<times> memory_streams" where
  "readGroup key grp consumer count now s =
     (case group_of s key grp of
        None \<Rightarrow> (Inl NoGroup, s)
      | Some g \<Rightarrow>
          (case read_loop now consumer count [] (stream_of s key) (add_consumer consumer g) of
             (delivered, g') \<Rightarrow> (Inr delivered, put_group key grp g' s)))"

fun ack_loop :: "string list \<Rightarrow> nat \<Rightarrow> (string, pending_record) js_map \<Rightarrow> nat \<times> (string, pending_record) js_map" where
  "ack_loop [] removed p = (removed, p)"
| "ack_loop (i # is) removed p = ack_loop is (if js_has p i then removed + 1 else removed) (js_delete i p)"

definition ack :: "string \<Rightarrow> string \<Rightarrow> string list \<Rightarrow> memory_streams \<Rightarrow> (stream_error + nat) \<times> memory_streams" where
  "ack key grp is s =
     (case group_of s key grp of
        None \<Rightarrow> (Inl NoGroup, s)
      | Some g \<Rightarrow>
          (case ack_loop is 0 (gr_pending g) of
             (removed, p) \<Rightarrow> (Inr removed, put_group key grp (g\<lparr>gr_pending := p\<rparr>) s)))"

definition pendingEntries ::
  "string \<Rightarrow> string \<Rightarrow> int \<Rightarrow> nat \<Rightarrow> string option \<Rightarrow> nat \<Rightarrow> memory_streams \<Rightarrow> stream_error + pending_entry list" where
  "pendingEntries key grp minIdleMs count startExclusiveOf now s =
     (case group_of s key grp of
        None \<Rightarrow> Inl NoGroup
      | Some g \<Rightarrow>
          Inr (map (\<lambda>(i, r). \<lparr>pe_id = i, pe_consumer = pr_consumer r,
                              pe_idleMs = int now - int (pr_deliveredAt r), pe_deliveryCount = pr_deliveryCount r\<rparr>)
                 (take count
                    (sort_key (\<lambda>(i, r). id_parts i)
                       (filter (\<lambda>(i, r). \<not> int now - int (pr_deliveredAt r) < minIdleMs \<and>
                                         (case startExclusiveOf of None \<Rightarrow> True | Some x \<Rightarrow> js_string_less x i))
                          (gr_pending g))))))"

fun claim_loop ::
  "nat \<Rightarrow> string \<Rightarrow> int \<Rightarrow> stream_entry list \<Rightarrow> string list \<Rightarrow> stream_entry list \<Rightarrow> (string, pending_record) js_map
     \<Rightarrow> stream_entry list \<times> (string, pending_record) js_map" where
  "claim_loop now consumer minIdleMs entries [] claimed p = (claimed, p)"
| "claim_loop now consumer minIdleMs entries (i # is) claimed p =
     (case js_get p i of
        None \<Rightarrow> claim_loop now consumer minIdleMs entries is claimed p
      | Some held \<Rightarrow>
          if int now - int (pr_deliveredAt held) < minIdleMs
          then claim_loop now consumer minIdleMs entries is claimed p
          else case List.find (\<lambda>e. se_id e = i) entries of
                 None \<Rightarrow> claim_loop now consumer minIdleMs entries is claimed (js_delete i p)
               | Some e \<Rightarrow>
                   claim_loop now consumer minIdleMs entries is (claimed @ [e])
                     (js_set i \<lparr>pr_consumer = consumer, pr_deliveredAt = now,
                                pr_deliveryCount = pr_deliveryCount held + 1\<rparr> p))"

definition claim ::
  "string \<Rightarrow> string \<Rightarrow> string \<Rightarrow> int \<Rightarrow> string list \<Rightarrow> nat \<Rightarrow> memory_streams
     \<Rightarrow> (stream_error + stream_entry list) \<times> memory_streams" where
  "claim key grp consumer minIdleMs is now s =
     (case group_of s key grp of
        None \<Rightarrow> (Inl NoGroup, s)
      | Some g \<Rightarrow>
          (case claim_loop now consumer minIdleMs (stream_of s key) is [] (gr_pending g) of
             (claimed, p) \<Rightarrow> (Inr claimed, put_group key grp ((add_consumer consumer g)\<lparr>gr_pending := p\<rparr>) s)))"

definition consumerPendingCount :: "string \<Rightarrow> string \<Rightarrow> string \<Rightarrow> memory_streams \<Rightarrow> nat" where
  "consumerPendingCount key grp consumer s =
     (case group_of s key grp of
        None \<Rightarrow> 0
      | Some g \<Rightarrow> length (filter (\<lambda>(i, r). pr_consumer r = consumer) (gr_pending g)))"

definition deleteConsumer :: "string \<Rightarrow> string \<Rightarrow> string \<Rightarrow> memory_streams \<Rightarrow> nat \<times> memory_streams" where
  "deleteConsumer key grp consumer s =
     (case group_of s key grp of
        None \<Rightarrow> (0, s)
      | Some g \<Rightarrow>
          (length (filter (\<lambda>(i, r). pr_consumer r = consumer) (gr_pending g)),
           put_group key grp
             (g\<lparr>gr_pending := js_sweep (\<lambda>r. pr_consumer r = consumer) (gr_pending g),
                gr_consumers := remove1 consumer (gr_consumers g)\<rparr>) s))"

section \<open>The envelope\<close>

text \<open>
  Dates are read and written by the platform and payloads by \<open>JSON\<close>: \<open>datetime\<close> is the check of the
  schema followed by \<open>new Date\<close>, \<open>iso8601\<close> is \<open>toISOString\<close>. A thrown
  \<open>MalformedStreamEntryError\<close> is \<open>None\<close>. A payload is not \<open>undefined\<close>, which the encoder
  replaces by \<open>null\<close>.
\<close>

record ('d, 'j) envelope =
  ev_id :: string
  ev_name :: string
  ev_occurredAt :: 'd
  ev_correlationId :: "string option"
  ev_payload :: 'j

definition encodeEnvelope :: "('d \<Rightarrow> string) \<Rightarrow> ('j \<Rightarrow> string) \<Rightarrow> ('d, 'j) envelope \<Rightarrow> (string, string) js_map" where
  "encodeEnvelope iso8601 stringify env =
     (let flds = [(''id'', ev_id env), (''name'', ev_name env), (''occurredAt'', iso8601 (ev_occurredAt env)),
                  (''data'', stringify (ev_payload env))]
      in case ev_correlationId env of None \<Rightarrow> flds | Some c \<Rightarrow> js_set ''correlationId'' c flds)"

definition decodeEnvelope ::
  "(string \<Rightarrow> 'd option) \<Rightarrow> (string \<Rightarrow> 'j option) \<Rightarrow> stream_entry \<Rightarrow> ('d, 'j) envelope option" where
  "decodeEnvelope datetime parse entry =
     (let f = js_get (se_fields entry)
      in case (f ''id'', f ''name'', f ''occurredAt'', f ''data'') of
           (Some i, Some n, Some t, Some d) \<Rightarrow>
             if i = [] \<or> n = [] \<or> f ''correlationId'' = Some [] then None
             else (case (datetime t, parse d) of
                     (Some at, Some payload) \<Rightarrow>
                       Some \<lparr>ev_id = i, ev_name = n, ev_occurredAt = at, ev_correlationId = f ''correlationId'',
                             ev_payload = payload\<rparr>
                   | _ \<Rightarrow> None)
         | _ \<Rightarrow> None)"

lemma envelope_round_trip:
  assumes "\<And>d. datetime (iso8601 d) = Some d" and "\<And>p. parse (stringify p) = Some p"
    and "ev_id env \<noteq> []" and "ev_name env \<noteq> []" and "ev_correlationId env \<noteq> Some []"
  shows "decodeEnvelope datetime parse \<lparr>se_id = i, se_fields = encodeEnvelope iso8601 stringify env\<rparr> = Some env"
  using assms by (cases env) (auto simp: decodeEnvelope_def encodeEnvelope_def Let_def split: option.splits)

section \<open>Order of ids\<close>

lemma id_parts_entry_id [simp]: "id_parts (entry_id t q) = (int t, int q)"
proof -
  have no: "CHR ''-'' \<notin> set (show_nat n)" for n
    using show_nat_digits [of n] by (auto simp: is_digit_def code_def)
  show ?thesis
    by (simp add: id_parts_def entry_id_def split_on_append [OF no] split_on_single [OF no])
qed

lemma entry_id_inject: "entry_id t q = entry_id t' q' \<longleftrightarrow> t = t' \<and> q = q'"
  by (metis id_parts_entry_id of_nat_eq_iff prod.inject)

lemma entry_id_not_Nil [simp]: "entry_id t q \<noteq> []"
  by (simp add: entry_id_def)

lemma compare_iff: "compareEntryIds a b \<le> 0 \<longleftrightarrow> id_parts a \<le> id_parts b"
  by (cases "id_parts a"; cases "id_parts b") (auto simp: compareEntryIds_def less_eq_prod_def)

lemma compare_pos: "0 < compareEntryIds a b \<longleftrightarrow> id_parts b < id_parts a"
  using compare_iff [of a b] by auto

section \<open>What a group holds\<close>

definition stream_ids :: "string \<Rightarrow> memory_streams \<Rightarrow> string set" where
  "stream_ids key s = se_id ` set (stream_of s key)"

definition undelivered :: "group \<Rightarrow> string \<Rightarrow> bool" where
  "undelivered g i \<longleftrightarrow> gr_cursor g = [] \<or> 0 < compareEntryIds i (gr_cursor g)"

definition fresh_ids :: "string \<Rightarrow> string \<Rightarrow> memory_streams \<Rightarrow> string set" where
  "fresh_ids key grp s =
     (case group_of s key grp of None \<Rightarrow> {} | Some g \<Rightarrow> {i \<in> stream_ids key s. undelivered g i})"

definition pending_of :: "string \<Rightarrow> string \<Rightarrow> memory_streams \<Rightarrow> string \<Rightarrow> pending_record option" where
  "pending_of key grp s = (case group_of s key grp of None \<Rightarrow> Map.empty | Some g \<Rightarrow> js_get (gr_pending g))"

text \<open>The ids assigned so far, at a clock reading.\<close>

definition assigned :: "nat \<Rightarrow> memory_streams \<Rightarrow> string set" where
  "assigned now s = {entry_id t q | t q. t \<le> now \<and> q \<le> ms_sequence s}"

text \<open>
  The ids of a stream ascend, and everything a group refers to has been assigned; what is pending has
  been passed by the cursor.
\<close>

definition group_wf :: "nat \<Rightarrow> memory_streams \<Rightarrow> group \<Rightarrow> bool" where
  "group_wf now s g \<longleftrightarrow>
     js_ok (gr_pending g) \<and>
     (gr_cursor g = [] \<longrightarrow> gr_pending g = []) \<and>
     (gr_cursor g \<noteq> [] \<longrightarrow> gr_cursor g \<in> assigned now s) \<and>
     (\<forall>i \<in> fst ` set (gr_pending g). i \<in> assigned now s \<and> \<not> undelivered g i)"

definition streams_ok :: "string \<Rightarrow> string \<Rightarrow> nat \<Rightarrow> memory_streams \<Rightarrow> bool" where
  "streams_ok key grp now s \<longleftrightarrow>
     js_get (ms_streams s) key \<noteq> None \<and>
     sorted_wrt (\<lambda>a b. id_parts (se_id a) < id_parts (se_id b)) (stream_of s key) \<and>
     stream_ids key s \<subseteq> assigned now s \<and>
     (\<exists>g. group_of s key grp = Some g \<and> group_wf now s g)"

lemma put_group_simps [simp, store_simps]:
  "group_of (put_group key grp g s) key grp = Some g"
  "stream_of (put_group key grp g s) key' = stream_of s key'"
  "ms_streams (put_group key grp g s) = ms_streams s"
  "ms_sequence (put_group key grp g s) = ms_sequence s"
  "stream_ids key' (put_group key grp g s) = stream_ids key' s"
  "assigned now (put_group key grp g s) = assigned now s"
  by (auto simp: put_group_def group_of_def groups_of_def stream_of_def stream_ids_def assigned_def)

lemma group_wf_put [simp]: "group_wf now (put_group key grp g s) g' = group_wf now s g'"
  by (simp add: group_wf_def)

lemma streams_ok_put:
  "streams_ok key grp now s \<Longrightarrow> group_wf now s g \<Longrightarrow> streams_ok key grp now (put_group key grp g s)"
  by (simp add: streams_ok_def)

lemma undelivered_add_consumer [simp]: "undelivered (add_consumer c g) = undelivered g"
  by (auto simp: fun_eq_iff undelivered_def add_consumer_def)

lemma add_consumer_simps [simp]:
  "gr_cursor (add_consumer c g) = gr_cursor g" "gr_pending (add_consumer c g) = gr_pending g"
  by (auto simp: add_consumer_def)

lemma group_wf_cong:
  "gr_cursor g' = gr_cursor g \<Longrightarrow> gr_pending g' = gr_pending g \<Longrightarrow> group_wf now s g' = group_wf now s g"
  by (simp add: group_wf_def undelivered_def)

lemma undelivered_iff: "undelivered g i \<longleftrightarrow> gr_cursor g = [] \<or> id_parts (gr_cursor g) < id_parts i"
  by (simp add: undelivered_def compare_pos)

text \<open>A read hands out the first undelivered entries and moves the cursor to the last of them.\<close>

definition deliver :: "nat \<Rightarrow> string \<Rightarrow> stream_entry list \<Rightarrow> group \<Rightarrow> group" where
  "deliver now consumer ds g =
     g\<lparr>gr_cursor := if ds = [] then gr_cursor g else se_id (last ds),
       gr_pending := fold (\<lambda>e. js_set (se_id e) \<lparr>pr_consumer = consumer, pr_deliveredAt = now, pr_deliveryCount = 1\<rparr>)
                       ds (gr_pending g)\<rparr>"

lemma filter_undelivered_all:
  assumes "sorted_wrt (\<lambda>a b. id_parts (se_id a) < id_parts (se_id b)) (e # es)" "undelivered g (se_id e)"
  shows "filter (\<lambda>x. undelivered g (se_id x)) es = es"
  using assms by (auto simp: undelivered_iff intro!: filter_True)

lemma read_loop_eq:
  assumes "sorted_wrt (\<lambda>a b. id_parts (se_id a) < id_parts (se_id b)) es" and "\<forall>e \<in> set es. se_id e \<noteq> []"
  shows "read_loop now c n d es g =
    (let ds = take (n - length d) (filter (\<lambda>e. undelivered g (se_id e)) es) in (d @ ds, deliver now c ds g))"
  using assms
proof (induction es arbitrary: d g)
  case Nil
  then show ?case by (simp add: deliver_def)
next
  case (Cons e es)
  show ?case
  proof (cases "n \<le> length d")
    case True
    then show ?thesis by (simp add: deliver_def)
  next
    case less: False
    show ?thesis
    proof (cases "undelivered g (se_id e)")
      case False
      then have "gr_cursor g \<noteq> [] \<and> compareEntryIds (se_id e) (gr_cursor g) \<le> 0"
        by (auto simp: undelivered_def)
      with False less show ?thesis
        using Cons by simp
    next
      case True
      then have skip: "\<not> (gr_cursor g \<noteq> [] \<and> compareEntryIds (se_id e) (gr_cursor g) \<le> 0)"
        by (auto simp: undelivered_def)
      let ?g = "g\<lparr>gr_cursor := se_id e,
        gr_pending := js_set (se_id e) \<lparr>pr_consumer = c, pr_deliveredAt = now, pr_deliveryCount = 1\<rparr> (gr_pending g)\<rparr>"
      have old: "filter (\<lambda>x. undelivered g (se_id x)) es = es"
        using Cons.prems True by (intro filter_undelivered_all)
      have new: "filter (\<lambda>x. undelivered ?g (se_id x)) es = es"
        using Cons.prems by (auto simp: undelivered_iff intro!: filter_True)
      obtain k where k: "n - length d = Suc k"
        using less by (metis Suc_diff_Suc not_le_imp_less)
      have ih: "read_loop now c n (d @ [e]) es ?g =
          (let ds = take (n - length (d @ [e])) (filter (\<lambda>x. undelivered ?g (se_id x)) es)
           in ((d @ [e]) @ ds, deliver now c ds ?g))"
        by (rule Cons.IH) (use Cons.prems in auto)
      have "n - length (d @ [e]) = k"
        using k by simp
      then have "read_loop now c n d (e # es) g = (let ds = take k es in (d @ [e] @ ds, deliver now c ds ?g))"
        unfolding read_loop.simps if_not_P [OF less] if_not_P [OF skip] ih new by simp
      also have "\<dots> = (let ds = take (Suc k) (e # es) in (d @ ds, deliver now c ds g))"
        by (simp add: Let_def deliver_def)
      finally show ?thesis
        using True old k by simp
    qed
  qed
qed

lemma get_fold_set:
  "js_get (fold (\<lambda>e. js_set (f e) v) ds p) i = (if i \<in> f ` set ds then Some v else js_get p i)"
  by (induction ds arbitrary: p) auto

lemma js_ok_fold_set: "js_ok p \<Longrightarrow> js_ok (fold (\<lambda>e. js_set (f e) v) ds p)"
  by (induction ds arbitrary: p) auto

section \<open>The port\<close>

record 's stream_commands =
  sc_createGroup :: "string \<Rightarrow> string \<Rightarrow> group_start \<Rightarrow> bool \<Rightarrow> 's \<Rightarrow> (stream_error + group_created) \<times> 's"
  sc_append :: "string \<Rightarrow> (string, string) js_map \<Rightarrow> nat option \<Rightarrow> nat \<Rightarrow> 's \<Rightarrow> string \<times> 's"
  sc_readGroup :: "string \<Rightarrow> string \<Rightarrow> string \<Rightarrow> nat \<Rightarrow> nat \<Rightarrow> 's \<Rightarrow> (stream_error + stream_entry list) \<times> 's"
  sc_ack :: "string \<Rightarrow> string \<Rightarrow> string list \<Rightarrow> 's \<Rightarrow> (stream_error + nat) \<times> 's"
  sc_pendingEntries ::
    "string \<Rightarrow> string \<Rightarrow> int \<Rightarrow> nat \<Rightarrow> string option \<Rightarrow> nat \<Rightarrow> 's \<Rightarrow> stream_error + pending_entry list"
  sc_claim ::
    "string \<Rightarrow> string \<Rightarrow> string \<Rightarrow> int \<Rightarrow> string list \<Rightarrow> nat \<Rightarrow> 's \<Rightarrow> (stream_error + stream_entry list) \<times> 's"
  sc_consumerPendingCount :: "string \<Rightarrow> string \<Rightarrow> string \<Rightarrow> 's \<Rightarrow> nat"
  sc_deleteConsumer :: "string \<Rightarrow> string \<Rightarrow> string \<Rightarrow> 's \<Rightarrow> nat \<times> 's"

definition memory_commands :: "memory_streams stream_commands" where
  "memory_commands =
     \<lparr>sc_createGroup = createGroup, sc_append = append_entry, sc_readGroup = readGroup, sc_ack = ack,
      sc_pendingEntries = pendingEntries, sc_claim = claim, sc_consumerPendingCount = consumerPendingCount,
      sc_deleteConsumer = deleteConsumer\<rparr>"

lemma memory_commands_simps [simp]:
  "sc_createGroup memory_commands = createGroup" "sc_append memory_commands = append_entry"
  "sc_readGroup memory_commands = readGroup" "sc_ack memory_commands = ack"
  "sc_pendingEntries memory_commands = pendingEntries" "sc_claim memory_commands = claim"
  "sc_consumerPendingCount memory_commands = consumerPendingCount" "sc_deleteConsumer memory_commands = deleteConsumer"
  by (simp_all add: memory_commands_def)

text \<open>What one group sees: the ids on the stream, those not handed out yet, and the pending list.\<close>

record group_view =
  gv_ids :: "string set"
  gv_fresh :: "string set"
  gv_pend :: "string \<Rightarrow> pending_record option"

definition group_abs :: "string \<Rightarrow> string \<Rightarrow> memory_streams \<Rightarrow> group_view" where
  "group_abs key grp s = \<lparr>gv_ids = stream_ids key s, gv_fresh = fresh_ids key grp s, gv_pend = pending_of key grp s\<rparr>"

text \<open>
  The contract of the port for one group of one stream: \<open>ok\<close> is the provider's invariant at a clock
  reading, \<open>used\<close> the ids assigned so far.
\<close>

locale stream_port =
  fixes ops :: "'s stream_commands" and key grp :: string
    and ok :: "nat \<Rightarrow> 's \<Rightarrow> bool" and abs :: "'s \<Rightarrow> group_view" and used :: "nat \<Rightarrow> 's \<Rightarrow> string set"
  assumes later: "ok t s \<Longrightarrow> t \<le> t' \<Longrightarrow> ok t' s \<and> used t s \<subseteq> used t' s"
    and seen_used: "ok t s \<Longrightarrow> gv_ids (abs s) \<union> dom (gv_pend (abs s)) \<subseteq> used t s \<and>
      gv_fresh (abs s) \<subseteq> gv_ids (abs s) \<and> gv_fresh (abs s) \<inter> dom (gv_pend (abs s)) = {}"
    and create_law: "ok t s \<Longrightarrow> sc_createGroup ops key grp from mk s = (rc, s') \<Longrightarrow>
      rc = Inr Exists \<and> ok t s' \<and> used t s' = used t s \<and> abs s' = abs s"
    and append_law: "ok t s \<Longrightarrow> sc_append ops key flds cap t s = (i, s') \<Longrightarrow>
      ok t s' \<and> i \<notin> used t s \<and> insert i (used t s) \<subseteq> used t s' \<and>
      gv_ids (abs s') \<subseteq> insert i (gv_ids (abs s)) \<and>
      gv_fresh (abs s') = insert i (gv_fresh (abs s)) \<inter> gv_ids (abs s') \<and> gv_pend (abs s') = gv_pend (abs s)"
    and append_other: "ok t s \<Longrightarrow> k \<noteq> key \<Longrightarrow> sc_append ops k flds cap t s = (i, s') \<Longrightarrow>
      ok t s' \<and> used t s \<subseteq> used t s' \<and> abs s' = abs s"
    and read_law: "ok t s \<Longrightarrow> sc_readGroup ops key grp c n t s = (r, s') \<Longrightarrow>
      ok t s' \<and> used t s' = used t s \<and>
      (\<exists>es. r = Inr es \<and> length es \<le> n \<and> distinct (map se_id es) \<and> se_id ` set es \<subseteq> gv_fresh (abs s) \<and>
        abs s' = (abs s)\<lparr>gv_fresh := gv_fresh (abs s) - se_id ` set es,
          gv_pend := \<lambda>i. if i \<in> se_id ` set es
            then Some \<lparr>pr_consumer = c, pr_deliveredAt = t, pr_deliveryCount = 1\<rparr> else gv_pend (abs s) i\<rparr>)"
    and ack_law: "ok t s \<Longrightarrow> sc_ack ops key grp is s = (ra, s') \<Longrightarrow>
      ok t s' \<and> used t s' = used t s \<and> (\<exists>n. ra = Inr n) \<and>
      abs s' = (abs s)\<lparr>gv_pend := gv_pend (abs s) |` (- set is)\<rparr>"
    and list_law: "ok t s \<Longrightarrow> \<exists>ps. sc_pendingEntries ops key grp m n None t s = Inr ps \<and>
      length ps \<le> n \<and> distinct (map pe_id ps) \<and>
      (\<forall>p \<in> set ps. \<exists>h. gv_pend (abs s) (pe_id p) = Some h \<and> pe_deliveryCount p = pr_deliveryCount h \<and>
         m \<le> int t - int (pr_deliveredAt h))"
    and claim_law: "ok t s \<Longrightarrow> distinct is \<Longrightarrow> sc_claim ops key grp c m is t s = (r, s') \<Longrightarrow>
      ok t s' \<and> used t s' = used t s \<and> gv_ids (abs s') = gv_ids (abs s) \<and> gv_fresh (abs s') = gv_fresh (abs s) \<and>
      (\<exists>es. r = Inr es \<and> distinct (map se_id es) \<and> se_id ` set es \<subseteq> set is \<inter> gv_ids (abs s) \<and>
        (\<forall>e \<in> set es. \<exists>h. gv_pend (abs s) (se_id e) = Some h \<and> m \<le> int t - int (pr_deliveredAt h) \<and>
           gv_pend (abs s') (se_id e) =
             Some \<lparr>pr_consumer = c, pr_deliveredAt = t, pr_deliveryCount = pr_deliveryCount h + 1\<rparr>) \<and>
        (\<forall>i. i \<notin> se_id ` set es \<longrightarrow> gv_pend (abs s') i = gv_pend (abs s) i \<or>
           gv_pend (abs s') i = None \<and> i \<notin> gv_ids (abs s)))"
    and count_law: "ok t s \<Longrightarrow> sc_consumerPendingCount ops key grp c s = 0 \<Longrightarrow> gv_pend (abs s) i = Some h \<Longrightarrow>
      pr_consumer h \<noteq> c"
    and delete_law: "ok t s \<Longrightarrow> sc_deleteConsumer ops key grp c s = (destroyed, s') \<Longrightarrow>
      ok t s' \<and> used t s' = used t s \<and>
      abs s' = (abs s)\<lparr>gv_pend := \<lambda>i. case gv_pend (abs s) i of
        None \<Rightarrow> None | Some h \<Rightarrow> if pr_consumer h = c then None else Some h\<rparr>"

section \<open>The store keeps the contract\<close>

lemma assigned_later: "t \<le> t' \<Longrightarrow> assigned t s \<subseteq> assigned t' s"
  unfolding assigned_def by (blast intro: le_trans)

lemma assigned_not_Nil: "i \<in> assigned t s \<Longrightarrow> i \<noteq> []"
  by (auto simp: assigned_def)

lemma streams_okE:
  assumes "streams_ok key grp t s"
  obtains g where "group_of s key grp = Some g" "group_wf t s g"
    "js_get (ms_streams s) key \<noteq> None"
    "sorted_wrt (\<lambda>a b. id_parts (se_id a) < id_parts (se_id b)) (stream_of s key)"
    "stream_ids key s \<subseteq> assigned t s"
  using assms unfolding streams_ok_def by blast

lemma group_wf_later: "group_wf t s g \<Longrightarrow> t \<le> t' \<Longrightarrow> group_wf t' s g"
  using assigned_later [of t t' s] by (auto simp: group_wf_def)

lemma group_abs_put:
  "group_abs key grp (put_group key grp g s) =
     \<lparr>gv_ids = stream_ids key s, gv_fresh = {i \<in> stream_ids key s. undelivered g i}, gv_pend = js_get (gr_pending g)\<rparr>"
  by (simp add: group_abs_def fresh_ids_def pending_of_def)

lemma group_abs_eq:
  "group_of s key grp = Some g \<Longrightarrow> group_abs key grp s =
     \<lparr>gv_ids = stream_ids key s, gv_fresh = {i \<in> stream_ids key s. undelivered g i}, gv_pend = js_get (gr_pending g)\<rparr>"
  by (simp add: group_abs_def fresh_ids_def pending_of_def)

lemma memory_later: "streams_ok key grp t s \<Longrightarrow> t \<le> t' \<Longrightarrow> streams_ok key grp t' s \<and> assigned t s \<subseteq> assigned t' s"
  using assigned_later [of t t' s] group_wf_later [of t s _ t'] unfolding streams_ok_def by blast

lemma memory_seen_used:
  assumes "streams_ok key grp t s"
  shows "gv_ids (group_abs key grp s) \<union> dom (gv_pend (group_abs key grp s)) \<subseteq> assigned t s \<and>
    gv_fresh (group_abs key grp s) \<subseteq> gv_ids (group_abs key grp s) \<and>
    gv_fresh (group_abs key grp s) \<inter> dom (gv_pend (group_abs key grp s)) = {}"
proof -
  obtain g where g: "group_of s key grp = Some g" "group_wf t s g" "stream_ids key s \<subseteq> assigned t s"
    using assms by (rule streams_okE)
  have "dom (js_get (gr_pending g)) \<subseteq> assigned t s" "\<forall>i \<in> dom (js_get (gr_pending g)). \<not> undelivered g i"
    using g(2) unfolding group_wf_def dom_map_of_conv_image_fst by blast+
  then show ?thesis
    using g(3) by (auto simp: group_abs_eq [OF g(1)])
qed

lemma memory_create:
  assumes "streams_ok key grp t s" and "createGroup key grp from mk s = (r, s')"
  shows "r = Inr Exists \<and> streams_ok key grp t s' \<and> assigned t s' = assigned t s \<and> group_abs key grp s' = group_abs key grp s"
proof -
  obtain g where g: "group_of s key grp = Some g" "js_get (ms_streams s) key \<noteq> None"
    using assms(1) by (rule streams_okE)
  then have r: "r = Inr Exists" "s' = s\<lparr>ms_groups := js_set key (groups_of s key) (ms_groups s)\<rparr>"
    using assms(2) by (auto simp: createGroup_def group_of_def groups_of_def Let_def split: if_splits)
  have same: "stream_of s' key = stream_of s key" "group_of s' key grp = group_of s key grp" "assigned t s' = assigned t s"
    "ms_streams s' = ms_streams s"
    by (simp_all add: r stream_of_def group_of_def groups_of_def assigned_def)
  have "stream_ids key s' = stream_ids key s"
    by (simp add: stream_ids_def same)
  then show ?thesis
    using assms(1) r(1) same
    by (simp add: streams_ok_def group_wf_def group_abs_def fresh_ids_def pending_of_def cong: option.case_cong)
qed

lemma ascending_distinct:
  "sorted_wrt (\<lambda>a b. id_parts (se_id a) < id_parts (se_id b)) es \<Longrightarrow> distinct (map se_id es)"
  by (induction es) auto

lemma ascending_last:
  assumes "sorted_wrt (\<lambda>a b. id_parts (se_id a) < id_parts (se_id b)) es" "e \<in> set es"
  shows "id_parts (se_id e) \<le> id_parts (se_id (last es))"
  using assms by (induction es) (auto simp: less_imp_le)

lemma undelivered_deliver:
  assumes sorted: "sorted_wrt (\<lambda>a b. id_parts (se_id a) < id_parts (se_id b)) es"
    and named: "\<forall>e \<in> set es. se_id e \<noteq> []" and i: "i \<in> se_id ` set es"
    and ds: "ds = take n (filter (\<lambda>e. undelivered g (se_id e)) es)"
  shows "undelivered (deliver t c ds g) i \<longleftrightarrow> undelivered g i \<and> i \<notin> se_id ` set ds"
proof (cases "ds = []")
  case True
  then show ?thesis by (simp add: deliver_def undelivered_def)
next
  case False
  let ?und = "filter (\<lambda>e. undelivered g (se_id e)) es"
  have split: "sorted_wrt (\<lambda>a b. id_parts (se_id a) < id_parts (se_id b)) (ds @ drop n ?und)"
    using sorted_wrt_filter [OF sorted, of "\<lambda>e. undelivered g (se_id e)"] by (simp add: ds)
  then have sorted_ds: "sorted_wrt (\<lambda>a b. id_parts (se_id a) < id_parts (se_id b)) ds"
    by (simp add: sorted_wrt_append)
  have "last ds \<in> set ?und"
    using last_in_set [OF False] in_set_takeD [of _ n ?und] unfolding ds by blast
  then have last: "undelivered g (se_id (last ds))" "se_id (last ds) \<noteq> []"
    using named by auto
  then have cur: "undelivered (deliver t c ds g) i \<longleftrightarrow> id_parts (se_id (last ds)) < id_parts i"
    using False by (simp add: deliver_def undelivered_iff)
  have up: "id_parts i \<le> id_parts (se_id (last ds))" if "i \<in> se_id ` set ds"
    using that ascending_last [OF sorted_ds] by auto
  have low: "undelivered g i" if "id_parts (se_id (last ds)) < id_parts i"
    using that last by (auto simp: undelivered_iff)
  have high: "id_parts (se_id (last ds)) < id_parts i" if und: "undelivered g i" and no: "i \<notin> se_id ` set ds"
  proof -
    obtain e where e: "e \<in> set ?und" "i = se_id e"
      using i und by auto
    have "set ?und = set ds \<union> set (drop n ?und)"
      unfolding ds by (metis append_take_drop_id set_append)
    with e no have "e \<in> set (drop n ?und)" by auto
    with split False e(2) show ?thesis
      by (auto simp: sorted_wrt_append)
  qed
  show ?thesis
    unfolding cur using up low high by (metis not_less)
qed

lemma get_deliver:
  "js_get (gr_pending (deliver t c ds g)) = (\<lambda>i. if i \<in> se_id ` set ds
     then Some \<lparr>pr_consumer = c, pr_deliveredAt = t, pr_deliveryCount = 1\<rparr> else js_get (gr_pending g) i)"
  by (auto simp: deliver_def get_fold_set)

lemma group_wf_deliver:
  assumes wf: "group_wf t s g" and known: "stream_ids key s \<subseteq> assigned t s"
    and sorted: "sorted_wrt (\<lambda>a b. id_parts (se_id a) < id_parts (se_id b)) (stream_of s key)"
    and ds: "ds = take n (filter (\<lambda>e. undelivered g (se_id e)) (stream_of s key))"
  shows "group_wf t s (deliver t c ds g)"
proof (cases "ds = []")
  case True
  then show ?thesis
    using wf by (simp add: group_wf_def deliver_def undelivered_def)
next
  case False
  let ?g = "deliver t c ds g"
  have named: "\<forall>e \<in> set (stream_of s key). se_id e \<noteq> []"
    using known assigned_not_Nil by (auto simp: stream_ids_def)
  have sub: "set ds \<subseteq> {e \<in> set (stream_of s key). undelivered g (se_id e)}"
    by (auto simp: ds dest: in_set_takeD)
  then have "last ds \<in> {e \<in> set (stream_of s key). undelivered g (se_id e)}"
    using False last_in_set by blast
  then have last: "se_id (last ds) \<in> assigned t s" "se_id (last ds) \<noteq> []" "undelivered g (se_id (last ds))"
    using known named by (auto simp: stream_ids_def)
  have keys: "fst ` set (gr_pending ?g) = se_id ` set ds \<union> fst ` set (gr_pending g)"
    unfolding dom_map_of_conv_image_fst [symmetric] get_deliver by (auto split: if_splits)
  have old: "\<not> undelivered ?g i" if "i \<in> fst ` set (gr_pending g)" for i
  proof -
    have "gr_cursor g \<noteq> []" "\<not> undelivered g i"
      using that wf by (auto simp: group_wf_def)
    then show ?thesis
      using last False by (auto simp: undelivered_iff deliver_def)
  qed
  have pend: "i \<in> assigned t s \<and> \<not> undelivered ?g i" if "i \<in> se_id ` set ds \<union> fst ` set (gr_pending g)" for i
  proof (cases "i \<in> se_id ` set ds")
    case True
    then have "i \<in> se_id ` set (stream_of s key)"
      using sub by auto
    with True show ?thesis
      using undelivered_deliver [OF sorted named _ ds] known by (auto simp: stream_ids_def)
  next
    case False
    with that show ?thesis
      using old [of i] wf by (auto simp: group_wf_def)
  qed
  have "js_ok (gr_pending ?g)"
    using wf by (simp add: group_wf_def deliver_def js_ok_fold_set)
  moreover have "gr_cursor ?g \<in> assigned t s" "gr_cursor ?g \<noteq> []"
    using last False by (simp_all add: deliver_def)
  ultimately show ?thesis
    unfolding group_wf_def keys using pend by blast
qed

lemma memory_read:
  assumes ok: "streams_ok key grp t s" and read: "readGroup key grp c n t s = (r, s')"
  shows "streams_ok key grp t s' \<and> assigned t s' = assigned t s \<and>
    (\<exists>es. r = Inr es \<and> length es \<le> n \<and> distinct (map se_id es) \<and>
      se_id ` set es \<subseteq> gv_fresh (group_abs key grp s) \<and>
      group_abs key grp s' = (group_abs key grp s)\<lparr>gv_fresh := gv_fresh (group_abs key grp s) - se_id ` set es,
        gv_pend := \<lambda>i. if i \<in> se_id ` set es
          then Some \<lparr>pr_consumer = c, pr_deliveredAt = t, pr_deliveryCount = 1\<rparr> else gv_pend (group_abs key grp s) i\<rparr>)"
proof -
  obtain g where g: "group_of s key grp = Some g" "group_wf t s g"
    and sorted: "sorted_wrt (\<lambda>a b. id_parts (se_id a) < id_parts (se_id b)) (stream_of s key)"
    and known: "stream_ids key s \<subseteq> assigned t s"
    using ok by (rule streams_okE)
  let ?h = "add_consumer c g"
  define ds where ds: "ds = take n (filter (\<lambda>e. undelivered ?h (se_id e)) (stream_of s key))"
  have named: "\<forall>e \<in> set (stream_of s key). se_id e \<noteq> []"
    using known assigned_not_Nil by (auto simp: stream_ids_def)
  have eq: "r = Inr ds" "s' = put_group key grp (deliver t c ds ?h) s"
    using read read_loop_eq [OF sorted named, of t c n "[]" ?h] by (simp_all add: readGroup_def g(1) ds Let_def)
  have sub: "set ds \<subseteq> {e \<in> set (stream_of s key). undelivered g (se_id e)}"
    by (auto simp: ds dest: in_set_takeD)
  have "sorted_wrt (\<lambda>a b. id_parts (se_id a) < id_parts (se_id b)) ds"
    unfolding ds by (intro sorted_wrt_take sorted_wrt_filter sorted)
  then have distinct: "distinct (map se_id ds)"
    by (rule ascending_distinct)
  have "group_wf t s ?h"
    using g(2) group_wf_cong [of ?h g] by simp
  from streams_ok_put [OF ok group_wf_deliver [OF this known sorted ds]]
  have "streams_ok key grp t s'" "assigned t s' = assigned t s"
    by (simp_all add: eq(2))
  moreover have "group_abs key grp s' = (group_abs key grp s)\<lparr>gv_fresh := gv_fresh (group_abs key grp s) - se_id ` set ds,
      gv_pend := \<lambda>i. if i \<in> se_id ` set ds
        then Some \<lparr>pr_consumer = c, pr_deliveredAt = t, pr_deliveryCount = 1\<rparr> else gv_pend (group_abs key grp s) i\<rparr>"
    using undelivered_deliver [OF sorted named _ ds]
    by (auto simp: eq(2) group_abs_put group_abs_eq [OF g(1)] get_deliver stream_ids_def)
  moreover have "se_id ` set ds \<subseteq> gv_fresh (group_abs key grp s)"
    using sub by (auto simp: group_abs_eq [OF g(1)] stream_ids_def)
  ultimately show ?thesis
    using distinct eq(1) by (auto simp: ds)
qed

text \<open>The other commands of the group only shrink the pending list or rewrite records of it.\<close>

lemma group_wf_fewer:
  assumes "group_wf t s g" and "js_ok p" and "fst ` set p \<subseteq> fst ` set (gr_pending g)"
    and "gr_cursor g' = gr_cursor g" and "gr_pending g' = p"
  shows "group_wf t s g'"
proof -
  have same: "undelivered g' = undelivered g"
    by (simp add: fun_eq_iff undelivered_def assms(4))
  have "gr_pending g = [] \<Longrightarrow> p = []"
    using assms(3) by simp
  with assms(1-3) show ?thesis
    unfolding group_wf_def same assms(4,5) by blast
qed

lemma ack_loop_get: "js_get (snd (ack_loop is n p)) = js_get p |` (- set is)"
  by (induction "is" arbitrary: n p) (auto simp: fun_eq_iff restrict_map_def)

lemma ack_loop_ok: "js_ok p \<Longrightarrow> js_ok (snd (ack_loop is n p))"
  by (induction "is" arbitrary: n p) auto

lemma memory_ack:
  assumes ok: "streams_ok key grp t s" and ack: "ack key grp is s = (r, s')"
  shows "streams_ok key grp t s' \<and> assigned t s' = assigned t s \<and> (\<exists>n. r = Inr n) \<and>
    group_abs key grp s' = (group_abs key grp s)\<lparr>gv_pend := gv_pend (group_abs key grp s) |` (- set is)\<rparr>"
proof -
  obtain g where g: "group_of s key grp = Some g" "group_wf t s g"
    using ok by (rule streams_okE)
  obtain n p where p: "ack_loop is 0 (gr_pending g) = (n, p)"
    by fastforce
  then have eq: "r = Inr n" "s' = put_group key grp (g\<lparr>gr_pending := p\<rparr>) s"
    using ack by (simp_all add: ack_def g(1))
  have get: "js_get p = js_get (gr_pending g) |` (- set is)" "js_ok p"
    using ack_loop_get [of "is" 0 "gr_pending g"] ack_loop_ok [of "gr_pending g" "is" 0] g(2) p
    by (simp_all add: group_wf_def)
  have "fst ` set p \<subseteq> fst ` set (gr_pending g)"
    unfolding dom_map_of_conv_image_fst [symmetric] get by auto
  then have wf: "group_wf t s (g\<lparr>gr_pending := p\<rparr>)"
    by (rule group_wf_fewer [OF g(2) get(2)]) simp_all
  show ?thesis
    using streams_ok_put [OF ok wf] by (simp add: eq group_abs_put group_abs_eq [OF g(1)] get(1) undelivered_def)
qed

lemma memory_list:
  assumes "streams_ok key grp t s"
  shows "\<exists>ps. pendingEntries key grp m n None t s = Inr ps \<and> length ps \<le> n \<and> distinct (map pe_id ps) \<and>
    (\<forall>p \<in> set ps. \<exists>h. gv_pend (group_abs key grp s) (pe_id p) = Some h \<and> pe_deliveryCount p = pr_deliveryCount h \<and>
       m \<le> int t - int (pr_deliveredAt h))"
proof -
  obtain g where g: "group_of s key grp = Some g" "group_wf t s g"
    using assms by (rule streams_okE)
  let ?f = "\<lambda>(i, r). \<lparr>pe_id = i, pe_consumer = pr_consumer r, pe_idleMs = int t - int (pr_deliveredAt r),
    pe_deliveryCount = pr_deliveryCount r\<rparr>"
  define idle where "idle = take n (sort_key (\<lambda>(i, r). id_parts i)
    (filter (\<lambda>(i, r). \<not> int t - int (pr_deliveredAt r) < m) (gr_pending g)))"
  have eq: "pendingEntries key grp m n None t s = Inr (map ?f idle)"
    by (simp add: pendingEntries_def g(1) idle_def)
  have ok: "distinct (map fst (gr_pending g))"
    using g(2) by (simp add: group_wf_def js_ok_def)
  have "distinct (map fst (sort_key (\<lambda>(i, r). id_parts i)
      (filter (\<lambda>(i, r). \<not> int t - int (pr_deliveredAt r) < m) (gr_pending g))))"
    using distinct_map_filter [OF ok] by (simp only: distinct_map distinct_sort set_sort)
  then have "distinct (map fst idle)"
    by (simp add: idle_def take_map [symmetric])
  moreover have "map pe_id (map ?f idle) = map fst idle"
    by (auto simp: case_prod_beta)
  moreover have "\<exists>h. gv_pend (group_abs key grp s) (pe_id p) = Some h \<and> pe_deliveryCount p = pr_deliveryCount h \<and>
      m \<le> int t - int (pr_deliveredAt h)" if p: "p \<in> set (map ?f idle)" for p
  proof -
    obtain i r where x: "(i, r) \<in> set idle" "p = ?f (i, r)"
      using p by auto
    then have "(i, r) \<in> set (gr_pending g)" "\<not> int t - int (pr_deliveredAt r) < m"
      by (auto simp: idle_def dest!: in_set_takeD)
    with x(2) show ?thesis
      using ok by (auto simp: group_abs_eq [OF g(1)])
  qed
  moreover have "length (map ?f idle) \<le> n"
    by (simp add: idle_def)
  ultimately show ?thesis
    unfolding eq by (intro exI [of _ "map ?f idle"]) (simp only: simp_thms ball_simps, blast)
qed

lemma memory_count:
  assumes "streams_ok key grp t s" and "consumerPendingCount key grp c s = 0"
    and "gv_pend (group_abs key grp s) i = Some h"
  shows "pr_consumer h \<noteq> c"
proof -
  obtain g where g: "group_of s key grp = Some g"
    using assms(1) by (rule streams_okE)
  have "(i, h) \<in> set (gr_pending g)"
    using assms(3) by (simp add: group_abs_eq [OF g] map_of_SomeD)
  then show ?thesis
    using assms(2) by (auto simp: consumerPendingCount_def g filter_empty_conv)
qed

lemma memory_delete:
  assumes ok: "streams_ok key grp t s" and del: "deleteConsumer key grp c s = (n, s')"
  shows "streams_ok key grp t s' \<and> assigned t s' = assigned t s \<and>
    group_abs key grp s' = (group_abs key grp s)\<lparr>gv_pend := \<lambda>i. case gv_pend (group_abs key grp s) i of
      None \<Rightarrow> None | Some h \<Rightarrow> if pr_consumer h = c then None else Some h\<rparr>"
proof -
  obtain g where g: "group_of s key grp = Some g" "group_wf t s g"
    using ok by (rule streams_okE)
  let ?p = "js_sweep (\<lambda>r. pr_consumer r = c) (gr_pending g)"
  let ?g = "g\<lparr>gr_pending := ?p, gr_consumers := remove1 c (gr_consumers g)\<rparr>"
  have s': "s' = put_group key grp ?g s"
    using del by (simp add: deleteConsumer_def g(1))
  have "js_ok ?p"
    using g(2) by (simp add: group_wf_def)
  moreover have "fst ` set ?p \<subseteq> fst ` set (gr_pending g)"
    by (auto simp: js_sweep_def)
  ultimately have wf: "group_wf t s ?g"
    by (rule group_wf_fewer [OF g(2)]) simp_all
  show ?thesis
    using streams_ok_put [OF ok wf] g(2)
    by (simp add: s' group_abs_put group_abs_eq [OF g(1)] undelivered_def js_get_sweep group_wf_def fun_eq_iff)
qed

text \<open>What a claim of distinct ids does to one of them.\<close>

definition claimable :: "nat \<Rightarrow> int \<Rightarrow> stream_entry list \<Rightarrow> (string \<Rightarrow> pending_record option) \<Rightarrow> string \<Rightarrow> stream_entry option" where
  "claimable now m entries P i =
     (case P i of
        None \<Rightarrow> None
      | Some h \<Rightarrow> if int now - int (pr_deliveredAt h) < m then None else List.find (\<lambda>e. se_id e = i) entries)"

definition after_claim ::
  "nat \<Rightarrow> string \<Rightarrow> int \<Rightarrow> stream_entry list \<Rightarrow> (string \<Rightarrow> pending_record option) \<Rightarrow> string \<Rightarrow> pending_record option" where
  "after_claim now c m entries P i =
     (case P i of
        None \<Rightarrow> None
      | Some h \<Rightarrow>
          if int now - int (pr_deliveredAt h) < m then Some h
          else if List.find (\<lambda>e. se_id e = i) entries = None then None
          else Some \<lparr>pr_consumer = c, pr_deliveredAt = now, pr_deliveryCount = pr_deliveryCount h + 1\<rparr>)"

lemma claimable_cong: "P i = Q i \<Longrightarrow> claimable now m entries P i = claimable now m entries Q i"
  by (simp add: claimable_def)

lemma after_claim_cong: "P i = Q i \<Longrightarrow> after_claim now c m entries P i = after_claim now c m entries Q i"
  by (simp add: after_claim_def)

lemma map_filter_cong': "(\<And>x. x \<in> set xs \<Longrightarrow> f x = g x) \<Longrightarrow> List.map_filter f xs = List.map_filter g xs"
  by (induction xs) (auto simp: List.map_filter_def)

lemma claim_loop_eq:
  assumes "distinct is" and "js_ok p"
  shows "fst (claim_loop now c m entries is cl p) = cl @ List.map_filter (claimable now m entries (js_get p)) is \<and>
    js_ok (snd (claim_loop now c m entries is cl p)) \<and>
    js_get (snd (claim_loop now c m entries is cl p)) =
      (\<lambda>i. if i \<in> set is then after_claim now c m entries (js_get p) i else js_get p i)"
  using assms
proof (induction "is" arbitrary: cl p)
  case Nil
  then show ?case by (simp add: List.map_filter_simps)
next
  case (Cons i "is")
  have step: "\<exists>p'. claim_loop now c m entries (i # is) cl p =
        claim_loop now c m entries is (cl @ (case claimable now m entries (js_get p) i of None \<Rightarrow> [] | Some e \<Rightarrow> [e])) p' \<and>
      js_ok p' \<and> js_get p' = (js_get p)(i := after_claim now c m entries (js_get p) i)"
    using Cons.prems(2)
    by (cases "js_get p i"; cases "List.find (\<lambda>e. se_id e = i) entries")
      (auto simp: claimable_def after_claim_def fun_eq_iff)
  then obtain p' where p': "claim_loop now c m entries (i # is) cl p =
        claim_loop now c m entries is (cl @ (case claimable now m entries (js_get p) i of None \<Rightarrow> [] | Some e \<Rightarrow> [e])) p'"
      "js_ok p'" "js_get p' = (js_get p)(i := after_claim now c m entries (js_get p) i)"
    by blast
  have same: "js_get p' j = js_get p j" if "j \<in> set is" for j
    using that Cons.prems(1) by (auto simp: p'(3))
  then have "List.map_filter (claimable now m entries (js_get p')) is = List.map_filter (claimable now m entries (js_get p)) is"
    by (intro map_filter_cong' claimable_cong) auto
  moreover have "(\<lambda>j. if j \<in> set is then after_claim now c m entries (js_get p') j else js_get p' j) =
      (\<lambda>j. if j \<in> set (i # is) then after_claim now c m entries (js_get p) j else js_get p j)"
  proof
    fix j
    show "(if j \<in> set is then after_claim now c m entries (js_get p') j else js_get p' j) =
        (if j \<in> set (i # is) then after_claim now c m entries (js_get p) j else js_get p j)"
    proof (cases "j \<in> set is")
      case True
      then show ?thesis
        using after_claim_cong [of "js_get p'" j "js_get p", OF same [OF True]] by simp
    qed (simp add: p'(3))
  qed
  ultimately show ?case
    using Cons.IH [of p' "cl @ (case claimable now m entries (js_get p) i of None \<Rightarrow> [] | Some e \<Rightarrow> [e])"] Cons.prems(1) p'(2)
    unfolding p'(1) by (simp add: List.map_filter_simps split: option.splits)
qed

lemma find_id_Some: "List.find (\<lambda>e. se_id e = i) entries = Some e \<Longrightarrow> se_id e = i \<and> e \<in> set entries"
  by (auto simp: find_Some_iff)

lemma claimable_Some:
  assumes "claimable now m entries P i = Some e"
  shows "se_id e = i \<and> i \<in> se_id ` set entries \<and>
    (\<exists>h. P i = Some h \<and> m \<le> int now - int (pr_deliveredAt h) \<and>
       after_claim now c m entries P i =
         Some \<lparr>pr_consumer = c, pr_deliveredAt = now, pr_deliveryCount = pr_deliveryCount h + 1\<rparr>)"
proof -
  obtain h where h: "P i = Some h" "\<not> int now - int (pr_deliveredAt h) < m"
    and e: "List.find (\<lambda>e. se_id e = i) entries = Some e"
    using assms by (auto simp: claimable_def split: option.splits if_splits)
  then show ?thesis
    using find_id_Some [OF e] by (auto simp: after_claim_def)
qed

lemma claimable_None:
  "claimable now m entries P i = None \<Longrightarrow>
    after_claim now c m entries P i = P i \<or> after_claim now c m entries P i = None \<and> i \<notin> se_id ` set entries"
  by (auto simp: claimable_def after_claim_def find_None_iff split: option.splits if_splits)

lemma map_filter_claimable:
  assumes "distinct is"
  shows "distinct (map se_id (List.map_filter (claimable now m entries P) is)) \<and>
    set (map se_id (List.map_filter (claimable now m entries P) is)) = {i \<in> set is. claimable now m entries P i \<noteq> None}"
  using assms
  by (induction "is") (auto simp: List.map_filter_simps dest: claimable_Some split: option.splits)

lemma memory_claim:
  assumes ok: "streams_ok key grp t s" and d: "distinct is" and claim: "claim key grp c m is t s = (r, s')"
  shows "streams_ok key grp t s' \<and> assigned t s' = assigned t s \<and>
    gv_ids (group_abs key grp s') = gv_ids (group_abs key grp s) \<and>
    gv_fresh (group_abs key grp s') = gv_fresh (group_abs key grp s) \<and>
    (\<exists>es. r = Inr es \<and> distinct (map se_id es) \<and> se_id ` set es \<subseteq> set is \<inter> gv_ids (group_abs key grp s) \<and>
      (\<forall>e \<in> set es. \<exists>h. gv_pend (group_abs key grp s) (se_id e) = Some h \<and> m \<le> int t - int (pr_deliveredAt h) \<and>
         gv_pend (group_abs key grp s') (se_id e) =
           Some \<lparr>pr_consumer = c, pr_deliveredAt = t, pr_deliveryCount = pr_deliveryCount h + 1\<rparr>) \<and>
      (\<forall>i. i \<notin> se_id ` set es \<longrightarrow> gv_pend (group_abs key grp s') i = gv_pend (group_abs key grp s) i \<or>
         gv_pend (group_abs key grp s') i = None \<and> i \<notin> gv_ids (group_abs key grp s)))"
proof -
  obtain g where g: "group_of s key grp = Some g" "group_wf t s g"
    using ok by (rule streams_okE)
  let ?P = "js_get (gr_pending g)" and ?entries = "stream_of s key"
  obtain es p where p: "claim_loop t c m ?entries is [] (gr_pending g) = (es, p)"
    by fastforce
  let ?g = "(add_consumer c g)\<lparr>gr_pending := p\<rparr>"
  have eq: "r = Inr es" "s' = put_group key grp ?g s"
    using claim p by (simp_all add: claim_def g(1))
  have es: "es = List.map_filter (claimable t m ?entries ?P) is" and okp: "js_ok p"
    and get: "js_get p = (\<lambda>i. if i \<in> set is then after_claim t c m ?entries ?P i else ?P i)"
    using claim_loop_eq [OF d, of "gr_pending g" t c m ?entries "[]"] g(2) p by (simp_all add: group_wf_def)
  have "dom (js_get p) \<subseteq> dom ?P"
    by (auto simp: get after_claim_def split: if_splits option.splits)
  then have "fst ` set p \<subseteq> fst ` set (gr_pending g)"
    by (simp add: dom_map_of_conv_image_fst)
  then have wf: "group_wf t s ?g"
    by (rule group_wf_fewer [OF g(2) okp]) simp_all
  have abs: "gv_ids (group_abs key grp s') = stream_ids key s" "gv_ids (group_abs key grp s) = stream_ids key s"
    "gv_fresh (group_abs key grp s') = gv_fresh (group_abs key grp s)"
    "gv_pend (group_abs key grp s') = js_get p" "gv_pend (group_abs key grp s) = ?P"
    by (simp_all add: eq(2) group_abs_put group_abs_eq [OF g(1)] undelivered_def)
  have named: "set (map se_id es) = {i \<in> set is. claimable t m ?entries ?P i \<noteq> None}" "distinct (map se_id es)"
    using map_filter_claimable [OF d, of t m ?entries ?P] by (simp_all add: es)
  have taken: "i \<in> set is \<inter> stream_ids key s \<and> (\<exists>h. ?P i = Some h \<and> m \<le> int t - int (pr_deliveredAt h) \<and>
      js_get p i = Some \<lparr>pr_consumer = c, pr_deliveredAt = t, pr_deliveryCount = pr_deliveryCount h + 1\<rparr>)"
    if "i \<in> se_id ` set es" for i
  proof -
    have i: "i \<in> set is" "claimable t m ?entries ?P i \<noteq> None"
      using that named(1) by auto
    then obtain e where "claimable t m ?entries ?P i = Some e" by blast
    then show ?thesis
      using claimable_Some [of t m ?entries ?P i e c] i(1) by (simp add: get stream_ids_def)
  qed
  have left: "js_get p i = ?P i \<or> js_get p i = None \<and> i \<notin> stream_ids key s" if "i \<notin> se_id ` set es" for i
  proof (cases "i \<in> set is")
    case True
    then have "claimable t m ?entries ?P i = None"
      using that named(1) by auto
    then show ?thesis
      using claimable_None [of t m ?entries ?P i c] True by (simp add: get stream_ids_def)
  qed (simp add: get)
  have "streams_ok key grp t s'" "assigned t s' = assigned t s"
    using streams_ok_put [OF ok wf] by (simp_all add: eq(2))
  then show ?thesis
    unfolding abs eq(1) using taken left named(2) by (intro conjI exI [of _ es]) auto
qed

lemma assigned_below: "i \<in> assigned t s \<Longrightarrow> id_parts i < id_parts (entry_id t (ms_sequence s + 1))"
  by (auto simp: assigned_def less_prod_def)

lemma assigned_grows:
  "ms_sequence s \<le> ms_sequence s' \<Longrightarrow> assigned t s \<subseteq> assigned t s'"
  unfolding assigned_def by (blast intro: le_trans)

lemma group_wf_grows: "group_wf t s g \<Longrightarrow> assigned t s \<subseteq> assigned t s' \<Longrightarrow> group_wf t s' g"
  unfolding group_wf_def by blast

lemma append_entry_simps:
  assumes "append_entry key flds cap t s = (i, s')"
  shows "i = entry_id t (ms_sequence s + 1)" "ms_sequence s' = ms_sequence s + 1" "ms_groups s' = ms_groups s"
    and "k \<noteq> key \<Longrightarrow> js_get (ms_streams s') k = js_get (ms_streams s) k"
    and "\<exists>n. js_get (ms_streams s') key = Some (drop n (stream_of s key @ [\<lparr>se_id = i, se_fields = flds\<rparr>]))"
proof -
  let ?pushed = "stream_of s key @ [\<lparr>se_id = i, se_fields = flds\<rparr>]"
  have "js_get (ms_streams s') key = Some (drop (case cap of None \<Rightarrow> 0 | Some m \<Rightarrow> length ?pushed - m) ?pushed)"
    using assms by (auto simp: append_entry_def Let_def split: option.splits)
  then show "\<exists>n. js_get (ms_streams s') key = Some (drop n ?pushed)" ..
qed (use assms in \<open>auto simp: append_entry_def Let_def\<close>)

lemma memory_append:
  assumes ok: "streams_ok key grp t s" and app: "append_entry key flds cap t s = (i, s')"
  shows "streams_ok key grp t s' \<and> i \<notin> assigned t s \<and> insert i (assigned t s) \<subseteq> assigned t s' \<and>
    gv_ids (group_abs key grp s') \<subseteq> insert i (gv_ids (group_abs key grp s)) \<and>
    gv_fresh (group_abs key grp s') = insert i (gv_fresh (group_abs key grp s)) \<inter> gv_ids (group_abs key grp s') \<and>
    gv_pend (group_abs key grp s') = gv_pend (group_abs key grp s)"
proof -
  obtain g where g: "group_of s key grp = Some g" "group_wf t s g"
    and sorted: "sorted_wrt (\<lambda>a b. id_parts (se_id a) < id_parts (se_id b)) (stream_of s key)"
    and known: "stream_ids key s \<subseteq> assigned t s"
    using ok by (rule streams_okE)
  note eqs = append_entry_simps [OF app]
  obtain n where n: "js_get (ms_streams s') key = Some (drop n (stream_of s key @ [\<lparr>se_id = i, se_fields = flds\<rparr>]))"
    using eqs(5) by blast
  have g': "group_of s' key grp = Some g"
    using g(1) by (simp add: group_of_def groups_of_def eqs(3))
  have new: "i \<notin> assigned t s"
    using assigned_below [of i t s] eqs(1) by auto
  have grow: "assigned t s \<subseteq> assigned t s'" "i \<in> assigned t s'"
    using assigned_grows [of s s' t] by (auto simp: eqs(1,2) assigned_def)
  have stream: "stream_of s' key = drop n (stream_of s key @ [\<lparr>se_id = i, se_fields = flds\<rparr>])"
    by (simp add: stream_of_def n)
  have "sorted_wrt (\<lambda>a b. id_parts (se_id a) < id_parts (se_id b)) (stream_of s key @ [\<lparr>se_id = i, se_fields = flds\<rparr>])"
    using sorted known assigned_below [of _ t s] by (auto simp: sorted_wrt_append stream_ids_def eqs(1))
  then have sorted': "sorted_wrt (\<lambda>a b. id_parts (se_id a) < id_parts (se_id b)) (stream_of s' key)"
    unfolding stream by (rule sorted_wrt_drop)
  have ids: "stream_ids key s' \<subseteq> insert i (stream_ids key s)"
    using set_drop_subset [of n "stream_of s key @ [\<lparr>se_id = i, se_fields = flds\<rparr>]"] by (auto simp: stream_ids_def stream)
  have "undelivered g i"
    using g(2) assigned_below [of "gr_cursor g" t s] by (auto simp: undelivered_iff group_wf_def eqs(1))
  then have fresh: "gv_fresh (group_abs key grp s') = insert i (gv_fresh (group_abs key grp s)) \<inter> gv_ids (group_abs key grp s')"
    using ids by (auto simp: group_abs_eq [OF g'] group_abs_eq [OF g(1)])
  have "streams_ok key grp t s'"
    unfolding streams_ok_def using n sorted' ids known grow g' group_wf_grows [OF g(2) grow(1)] by auto
  then show ?thesis
    using new grow fresh ids by (simp add: group_abs_eq [OF g'] group_abs_eq [OF g(1)])
qed

lemma memory_append_other:
  assumes ok: "streams_ok key grp t s" and "k \<noteq> key" and app: "append_entry k flds cap t s = (i, s')"
  shows "streams_ok key grp t s' \<and> assigned t s \<subseteq> assigned t s' \<and> group_abs key grp s' = group_abs key grp s"
proof -
  note eqs = append_entry_simps [OF app]
  have get: "js_get (ms_streams s') key = js_get (ms_streams s) key"
    using eqs(4) assms(2) by metis
  have same: "stream_of s' key = stream_of s key" "group_of s' key grp = group_of s key grp" "stream_ids key s' = stream_ids key s"
    by (simp_all add: stream_of_def group_of_def groups_of_def stream_ids_def get eqs(3))
  have grow: "assigned t s \<subseteq> assigned t s'"
    using eqs(2) by (intro assigned_grows) simp
  have "streams_ok key grp t s'"
    using ok grow unfolding streams_ok_def same get by (blast intro: group_wf_grows)
  then show ?thesis
    using grow same by (simp add: group_abs_def fresh_ids_def pending_of_def cong: option.case_cong)
qed

interpretation memory_port: stream_port memory_commands key grp "streams_ok key grp" "group_abs key grp" assigned for key grp
  apply unfold_locales
  unfolding memory_commands_simps
            apply (rule memory_later; assumption)
           apply (rule memory_seen_used; assumption)
          apply (rule memory_create; assumption)
         apply (rule memory_append; assumption)
        apply (rule memory_append_other; assumption)
       apply (rule memory_read; assumption)
      apply (rule memory_ack; assumption)
     apply (rule memory_list; assumption)
    apply (rule memory_claim; assumption)
   apply (rule memory_count; assumption)
  apply (rule memory_delete; assumption)
  done

end
