(* ===== verification/Stream_Worker.thy ===== *)
theory Stream_Worker
  imports Stream_Memory Backoff
begin

text \<open>
  The consumer-group worker (\<open>src/redis/stream.worker.ts\<close>) with its parking lot
  (\<open>src/redis/parking-lot.ts\<close>) and the publisher (\<open>src/redis/stream.publisher.ts\<close>), over any
  implementation of the stream commands. An asynchronous function is the tree of what it awaits: a
  command, the handler or the park hook, and how it goes on from each reply. The workers of a group
  and the publisher interleave at these points. A command can fail before it reaches the server or
  lose its reply, a handler can resolve, reject or exceed its time, and a process can die anywhere.
\<close>

section \<open>Options\<close>

datatype park_handler = DefaultPark | ParkingLot nat | CustomPark

record worker_options =
  wo_key :: string
  wo_group :: string
  wo_consumer :: string
  wo_onPark :: park_handler
  wo_batchSize :: int
  wo_blockMs :: int
  wo_handlerTimeoutMs :: int
  wo_minIdleMs :: int
  wo_maxDeliveries :: int
  wo_claimBatchSize :: int
  wo_reclaimIntervalMs :: int
  wo_errorBackoffMs :: int
  wo_maxErrorBackoffMs :: int

text \<open>The options as the caller gives them, \<open>None\<close> where one is absent.\<close>

record given_options =
  go_key :: string
  go_group :: string
  go_consumer :: string
  go_onPark :: "park_handler option"
  go_batchSize :: "int option"
  go_blockMs :: "int option"
  go_handlerTimeoutMs :: "int option"
  go_minIdleMs :: "int option"
  go_maxDeliveries :: "int option"
  go_claimBatchSize :: "int option"
  go_reclaimIntervalMs :: "int option"
  go_errorBackoffMs :: "int option"
  go_maxErrorBackoffMs :: "int option"

definition or_default :: "'a option \<Rightarrow> 'a \<Rightarrow> 'a" where
  "or_default x d = (case x of None \<Rightarrow> d | Some v \<Rightarrow> v)"

definition DEFAULT_BATCH_SIZE :: int where "DEFAULT_BATCH_SIZE = 16"
definition DEFAULT_BLOCK_MS :: int where "DEFAULT_BLOCK_MS = 2000"
definition DEFAULT_HANDLER_TIMEOUT_MS :: int where "DEFAULT_HANDLER_TIMEOUT_MS = 10000"
definition DEFAULT_MIN_IDLE_MS :: int where "DEFAULT_MIN_IDLE_MS = 30000"
definition DEFAULT_MAX_DELIVERIES :: int where "DEFAULT_MAX_DELIVERIES = 5"
definition DEFAULT_CLAIM_BATCH_SIZE :: int where "DEFAULT_CLAIM_BATCH_SIZE = 16"
definition DEFAULT_RECLAIM_INTERVAL_MS :: int where "DEFAULT_RECLAIM_INTERVAL_MS = 5000"
definition DEFAULT_ERROR_BACKOFF_MS :: int where "DEFAULT_ERROR_BACKOFF_MS = 500"
definition DEFAULT_MAX_ERROR_BACKOFF_MS :: int where "DEFAULT_MAX_ERROR_BACKOFF_MS = 30000"

definition apply_defaults :: "given_options \<Rightarrow> worker_options" where
  "apply_defaults o' =
     \<lparr>wo_key = go_key o', wo_group = go_group o', wo_consumer = go_consumer o',
      wo_onPark = or_default (go_onPark o') DefaultPark,
      wo_batchSize = or_default (go_batchSize o') DEFAULT_BATCH_SIZE,
      wo_blockMs = or_default (go_blockMs o') DEFAULT_BLOCK_MS,
      wo_handlerTimeoutMs = or_default (go_handlerTimeoutMs o') DEFAULT_HANDLER_TIMEOUT_MS,
      wo_minIdleMs = or_default (go_minIdleMs o') DEFAULT_MIN_IDLE_MS,
      wo_maxDeliveries = or_default (go_maxDeliveries o') DEFAULT_MAX_DELIVERIES,
      wo_claimBatchSize = or_default (go_claimBatchSize o') DEFAULT_CLAIM_BATCH_SIZE,
      wo_reclaimIntervalMs = or_default (go_reclaimIntervalMs o') DEFAULT_RECLAIM_INTERVAL_MS,
      wo_errorBackoffMs = or_default (go_errorBackoffMs o') DEFAULT_ERROR_BACKOFF_MS,
      wo_maxErrorBackoffMs = or_default (go_maxErrorBackoffMs o') DEFAULT_MAX_ERROR_BACKOFF_MS\<rparr>"

text \<open>A thrown \<open>RangeError\<close> is \<open>None\<close>.\<close>

definition resolveOptions :: "given_options \<Rightarrow> worker_options option" where
  "resolveOptions given =
     (let o' = apply_defaults given
      in if wo_key o' = [] \<or> wo_group o' = [] \<or> wo_consumer o' = [] then None
         else if \<exists>v \<in> {wo_batchSize o', wo_blockMs o', wo_handlerTimeoutMs o', wo_minIdleMs o', wo_maxDeliveries o',
                       wo_claimBatchSize o', wo_reclaimIntervalMs o', wo_errorBackoffMs o', wo_maxErrorBackoffMs o'}.
                   v \<le> 0 then None
         else if wo_minIdleMs o' \<le> wo_handlerTimeoutMs o' then None
         else Some o')"

section \<open>What a tick awaits\<close>

datatype park_reason = DeliveryCeiling | Undecodable

record parked_entry =
  pk_entry :: stream_entry
  pk_reason :: park_reason
  pk_lastError :: string
  pk_deliveryCount :: nat

record entry_context =
  cx_entryId :: string
  cx_deliveryCount :: nat
  cx_reclaimed :: bool

record tick_outcome =
  to_read :: nat
  to_reclaimed :: nat
  to_handled :: nat
  to_failed :: nat
  to_parked :: nat

definition EMPTY_OUTCOME :: tick_outcome where
  "EMPTY_OUTCOME = \<lparr>to_read = 0, to_reclaimed = 0, to_handled = 0, to_failed = 0, to_parked = 0\<rparr>"

definition addOutcome :: "tick_outcome \<Rightarrow> tick_outcome \<Rightarrow> tick_outcome" where
  "addOutcome a b =
     \<lparr>to_read = to_read a + to_read b, to_reclaimed = to_reclaimed a + to_reclaimed b,
      to_handled = to_handled a + to_handled b, to_failed = to_failed a + to_failed b,
      to_parked = to_parked a + to_parked b\<rparr>"

text \<open>A failure is carried in the one-line form of \<open>describeFailure\<close>.\<close>

datatype worker_error = CommandError stream_error | ParkError string

datatype handler_result = Resolved | Rejected string

datatype ('e, 'r) activity =
    Finished 'r
  | Throw worker_error
  | XPending int nat "stream_error + pending_entry list \<Rightarrow> ('e, 'r) activity"
  | XClaim string int "string list" "stream_error + stream_entry list \<Rightarrow> ('e, 'r) activity"
  | XReadGroup string nat "stream_error + stream_entry list \<Rightarrow> ('e, 'r) activity"
  | XAck "string list" "stream_error + nat \<Rightarrow> ('e, 'r) activity"
  | Handle 'e entry_context "handler_result \<Rightarrow> ('e, 'r) activity"
  | OnPark parked_entry "string option \<Rightarrow> ('e, 'r) activity"

text \<open>\<open>await\<close>: go on with the value of a fulfilled promise; a rejection passes through.\<close>

primrec await :: "('e, 'a) activity \<Rightarrow> ('a \<Rightarrow> ('e, 'b) activity) \<Rightarrow> ('e, 'b) activity" where
  "await (Finished x) f = f x"
| "await (Throw e) f = Throw e"
| "await (XPending m n k) f = XPending m n (\<lambda>r. await (k r) f)"
| "await (XClaim c m is k) f = XClaim c m is (\<lambda>r. await (k r) f)"
| "await (XReadGroup c n k) f = XReadGroup c n (\<lambda>r. await (k r) f)"
| "await (XAck is k) f = XAck is (\<lambda>r. await (k r) f)"
| "await (Handle e cx k) f = Handle e cx (\<lambda>r. await (k r) f)"
| "await (OnPark p k) f = OnPark p (\<lambda>r. await (k r) f)"

definition replied :: "('a \<Rightarrow> ('e, 'r) activity) \<Rightarrow> stream_error + 'a \<Rightarrow> ('e, 'r) activity" where
  "replied f r = (case r of Inl e \<Rightarrow> Throw (CommandError e) | Inr x \<Rightarrow> f x)"

text \<open>Park first, acknowledge second.\<close>

definition park :: "parked_entry \<Rightarrow> ('e, 'r) activity \<Rightarrow> ('e, 'r) activity" where
  "park p next = OnPark p (\<lambda>failure.
     case failure of
       Some e \<Rightarrow> Throw (ParkError e)
     | None \<Rightarrow> XAck [se_id (pk_entry p)] (replied (\<lambda>_. next)))"

text \<open>
  The loop of \<open>processEntries\<close>; \<open>decode\<close> is \<open>decodeEnvelope\<close>, \<open>None\<close> where it throws
  \<open>MalformedStreamEntryError\<close>, whose text is \<open>malformed\<close>.
\<close>

fun process_loop ::
  "(stream_entry \<Rightarrow> 'e option) \<Rightarrow> (stream_entry \<Rightarrow> string) \<Rightarrow> worker_options \<Rightarrow> (string, nat) js_map \<Rightarrow> bool \<Rightarrow>
     stream_entry list \<Rightarrow> tick_outcome \<Rightarrow> ('e, tick_outcome) activity" where
  "process_loop decode malformed opts counts reclaimed [] out = Finished out"
| "process_loop decode malformed opts counts reclaimed (entry # rest) out =
     (let deliveryCount = (case js_get counts (se_id entry) of None \<Rightarrow> 1 | Some n \<Rightarrow> n);
          parking = (\<lambda>reason lastError.
            park \<lparr>pk_entry = entry, pk_reason = reason, pk_lastError = lastError, pk_deliveryCount = deliveryCount\<rparr>
              (process_loop decode malformed opts counts reclaimed rest (out\<lparr>to_parked := to_parked out + 1\<rparr>)))
      in case decode entry of
           None \<Rightarrow> parking Undecodable (malformed entry)
         | Some envelope \<Rightarrow>
             Handle envelope
               \<lparr>cx_entryId = se_id entry, cx_deliveryCount = deliveryCount, cx_reclaimed = reclaimed\<rparr>
               (\<lambda>result. case result of
                  Rejected e \<Rightarrow>
                    if wo_maxDeliveries opts \<le> int deliveryCount then parking DeliveryCeiling e
                    else process_loop decode malformed opts counts reclaimed rest (out\<lparr>to_failed := to_failed out + 1\<rparr>)
                | Resolved \<Rightarrow>
                    XAck [se_id entry] (replied (\<lambda>_.
                      process_loop decode malformed opts counts reclaimed rest (out\<lparr>to_handled := to_handled out + 1\<rparr>)))))"

definition processEntries ::
  "(stream_entry \<Rightarrow> 'e option) \<Rightarrow> (stream_entry \<Rightarrow> string) \<Rightarrow> worker_options \<Rightarrow> (string, nat) js_map \<Rightarrow> bool \<Rightarrow>
     stream_entry list \<Rightarrow> ('e, tick_outcome) activity" where
  "processEntries decode malformed opts counts reclaimed entries =
     process_loop decode malformed opts counts reclaimed entries
       (EMPTY_OUTCOME\<lparr>to_read := if reclaimed then 0 else length entries,
                      to_reclaimed := if reclaimed then length entries else 0\<rparr>)"

definition reclaimStalled ::
  "(stream_entry \<Rightarrow> 'e option) \<Rightarrow> (stream_entry \<Rightarrow> string) \<Rightarrow> worker_options \<Rightarrow> ('e, tick_outcome) activity" where
  "reclaimStalled decode malformed opts =
     XPending (wo_minIdleMs opts) (nat (wo_claimBatchSize opts)) (replied (\<lambda>ps.
       if ps = [] then Finished EMPTY_OUTCOME
       else
         XClaim (wo_consumer opts) (wo_minIdleMs opts) (map pe_id ps) (replied (\<lambda>claimed.
           processEntries decode malformed opts
             (fold (\<lambda>p. js_set (pe_id p) (pe_deliveryCount p + 1)) ps []) True claimed))))"

definition runStreamTick ::
  "(stream_entry \<Rightarrow> 'e option) \<Rightarrow> (stream_entry \<Rightarrow> string) \<Rightarrow> worker_options \<Rightarrow> bool \<Rightarrow> ('e, tick_outcome) activity" where
  "runStreamTick decode malformed opts shouldReclaim =
     await (if shouldReclaim then reclaimStalled decode malformed opts else Finished EMPTY_OUTCOME) (\<lambda>reclaimOutcome.
       XReadGroup (wo_consumer opts) (nat (wo_batchSize opts)) (replied (\<lambda>entries.
         await (processEntries decode malformed opts [] False entries) (\<lambda>readOutcome.
           Finished (addOutcome reclaimOutcome readOutcome)))))"

section \<open>Performing what is awaited\<close>

text \<open>
  What the environment does next. \<open>NotSent\<close> and \<open>ReplyLost\<close> both look like a failed command to the
  worker; in the second case the server has executed it. \<open>Awake\<close> lets a worker that awaits nothing
  outside go on, or ends a pause.
\<close>

datatype input =
    Delivered | NotSent | ReplyLost
  | HandlerResolves | HandlerRejects string | HandlerTimesOut
  | Awake

text \<open>What has happened to the entries of the stream, in order.\<close>

datatype stream_note =
    Published string string
  | Delivery string
  | Started string nat
  | Handled string
  | Parked parked_entry

definition perform :: "input \<Rightarrow> (stream_error + 'a) \<times> 's \<Rightarrow> 's \<Rightarrow> ((stream_error + 'a) \<times> 's) option" where
  "perform inp result s =
     (case inp of
        Delivered \<Rightarrow> Some result
      | NotSent \<Rightarrow> Some (Inl Unreachable, s)
      | ReplyLost \<Rightarrow> Some (Inl Unreachable, snd result)
      | _ \<Rightarrow> None)"

definition deliveries :: "input \<Rightarrow> (stream_error + stream_entry list) \<times> 's \<Rightarrow> stream_note list" where
  "deliveries inp result =
     (if inp = NotSent then [] else case fst result of Inl _ \<Rightarrow> [] | Inr es \<Rightarrow> map (\<lambda>e. Delivery (se_id e)) es)"

definition parkedStreamKey :: "string \<Rightarrow> string" where
  "parkedStreamKey key = key @ '':parked''"

definition park_reason_text :: "park_reason \<Rightarrow> string" where
  "park_reason_text r = (case r of DeliveryCeiling \<Rightarrow> ''delivery-ceiling'' | Undecodable \<Rightarrow> ''undecodable'')"

text \<open>The fields of a parked entry; \<open>parkedAt\<close> is the text of the date.\<close>

definition parked_fields :: "string \<Rightarrow> string \<Rightarrow> parked_entry \<Rightarrow> (string, string) js_map" where
  "parked_fields key parkedAt p =
     fold (\<lambda>(k, v). js_set k v)
       [(''park.reason'', park_reason_text (pk_reason p)), (''park.lastError'', pk_lastError p),
        (''park.deliveryCount'', show_nat (pk_deliveryCount p)), (''park.sourceStream'', key),
        (''park.sourceEntryId'', se_id (pk_entry p)), (''park.parkedAt'', parkedAt)]
       (se_fields (pk_entry p))"

text \<open>The hook: the default one logs, the parking lot appends to the companion stream.\<close>

definition call_onPark ::
  "'s stream_commands \<Rightarrow> (nat \<Rightarrow> string) \<Rightarrow> worker_options \<Rightarrow> nat \<Rightarrow> input \<Rightarrow> parked_entry \<Rightarrow> 's \<Rightarrow> (string option \<times> 's) option" where
  "call_onPark ops iso8601 opts now inp p s =
     (case wo_onPark opts of
        DefaultPark \<Rightarrow> if inp = Delivered then Some (None, s) else None
      | CustomPark \<Rightarrow>
          if inp = Delivered then Some (None, s)
          else if inp = NotSent \<or> inp = ReplyLost then Some (Some ''park hook failed'', s)
          else None
      | ParkingLot maxLen \<Rightarrow>
          let s' = snd (sc_append ops (parkedStreamKey (wo_key opts)) (parked_fields (wo_key opts) (iso8601 now) p)
                          (Some maxLen) now s)
          in if inp = Delivered then Some (None, s')
             else if inp = NotSent then Some (Some ''append failed'', s)
             else if inp = ReplyLost then Some (Some ''append failed'', s')
             else None)"

definition timeout_text :: "string \<Rightarrow> int \<Rightarrow> string" where
  "timeout_text i ms =
     ''StreamHandlerTimeoutError: Handler for stream entry '' @ i @ '' exceeded '' @ show_nat (nat ms) @ ''ms''"

definition handler_outcome :: "input \<Rightarrow> string \<Rightarrow> int \<Rightarrow> handler_result option" where
  "handler_outcome inp i ms =
     (case inp of
        HandlerResolves \<Rightarrow> Some Resolved
      | HandlerRejects e \<Rightarrow> Some (Rejected e)
      | HandlerTimesOut \<Rightarrow> Some (Rejected (timeout_text i ms))
      | _ \<Rightarrow> None)"

text \<open>One step of an activity: \<open>None\<close> where it does not await this input.\<close>

fun advance ::
  "'s stream_commands \<Rightarrow> (nat \<Rightarrow> string) \<Rightarrow> worker_options \<Rightarrow> nat \<Rightarrow> input \<Rightarrow> ('e, 'r) activity \<Rightarrow> 's
     \<Rightarrow> (('e, 'r) activity \<times> 's \<times> stream_note list) option" where
  "advance ops iso8601 opts now inp (Finished x) s = None"
| "advance ops iso8601 opts now inp (Throw e) s = None"
| "advance ops iso8601 opts now inp (XPending m n k) s =
     map_option (\<lambda>(r, s'). (k r, s', []))
       (perform inp (sc_pendingEntries ops (wo_key opts) (wo_group opts) m n None now s, s) s)"
| "advance ops iso8601 opts now inp (XClaim c m is k) s =
     (let result = sc_claim ops (wo_key opts) (wo_group opts) c m is now s
      in map_option (\<lambda>(r, s'). (k r, s', deliveries inp result)) (perform inp result s))"
| "advance ops iso8601 opts now inp (XReadGroup c n k) s =
     (let result = sc_readGroup ops (wo_key opts) (wo_group opts) c n now s
      in map_option (\<lambda>(r, s'). (k r, s', deliveries inp result)) (perform inp result s))"
| "advance ops iso8601 opts now inp (XAck is k) s =
     map_option (\<lambda>(r, s'). (k r, s', [])) (perform inp (sc_ack ops (wo_key opts) (wo_group opts) is s) s)"
| "advance ops iso8601 opts now inp (Handle e cx k) s =
     map_option (\<lambda>r. (k r, s, if r = Resolved then [Handled (cx_entryId cx)] else []))
       (handler_outcome inp (cx_entryId cx) (wo_handlerTimeoutMs opts))"
| "advance ops iso8601 opts now inp (OnPark p k) s =
     map_option (\<lambda>(failure, s'). (k failure, s', if failure = None then [Parked p] else []))
       (call_onPark ops iso8601 opts now inp p s)"

text \<open>A handler starts when the activity comes to it.\<close>

definition started :: "('e, 'r) activity \<Rightarrow> stream_note list" where
  "started a = (case a of Handle e cx k \<Rightarrow> [Started (cx_entryId cx) (cx_deliveryCount cx)] | _ \<Rightarrow> [])"

section \<open>The worker\<close>

text \<open>
  \<open>Head\<close> is the condition of the loop. \<open>LoopFailed\<close> is a loop whose promise rejected, which is what
  a failed \<open>ensureGroup\<close> inside the error handling of a tick does; \<open>NeverStarted\<close> is a \<open>start\<close> whose
  \<open>ensureGroup\<close> failed. \<open>start\<close> and \<open>stop\<close> are taken to be awaited before the other is called.
\<close>

datatype 'e phase =
    Stopped | Ensuring | NeverStarted
  | Head | Ticking "('e, tick_outcome) activity" | Recreating | Sleeping int | LoopFailed
  | Counting | Retiring

record 'e worker =
  wk_options :: worker_options
  wk_running :: bool
  wk_stopping :: bool
  wk_phase :: "'e phase"
  wk_lastReclaimAt :: "nat option"
  wk_failures :: nat

definition createStreamWorker :: "given_options \<Rightarrow> 'e worker option" where
  "createStreamWorker given =
     map_option (\<lambda>opts. \<lparr>wk_options = opts, wk_running = False, wk_stopping = False, wk_phase = Stopped,
                          wk_lastReclaimAt = None, wk_failures = 0\<rparr>) (resolveOptions given)"

definition start :: "'e worker \<Rightarrow> 'e worker" where
  "start w = (if wk_running w then w else w\<lparr>wk_running := True, wk_stopping := False, wk_phase := Ensuring\<rparr>)"

definition stop :: "'e worker \<Rightarrow> 'e worker" where
  "stop w =
     (if \<not> wk_running w then w
      else w\<lparr>wk_stopping := True,
             wk_phase := (case wk_phase w of Sleeping _ \<Rightarrow> Head | NeverStarted \<Rightarrow> Counting | p \<Rightarrow> p),
             wk_running := (case wk_phase w of NeverStarted \<Rightarrow> False | _ \<Rightarrow> True)\<rparr>)"

text \<open>The pause after a failed tick, and the end of a tick.\<close>

definition after_failure :: "rat \<Rightarrow> 'e worker \<Rightarrow> 'e worker" where
  "after_failure random w =
     (let n = wk_failures w + 1;
          delayMs = fullJitterDelay n \<lparr>bo_baseMs = wo_errorBackoffMs (wk_options w), bo_maxMs = wo_maxErrorBackoffMs (wk_options w)\<rparr> random
      in w\<lparr>wk_failures := n, wk_phase := if wk_stopping w then Head else Sleeping delayMs\<rparr>)"

definition settle_tick :: "rat \<Rightarrow> 'e worker \<Rightarrow> 'e worker" where
  "settle_tick random w =
     (case wk_phase w of
        Ticking (Finished out) \<Rightarrow> w\<lparr>wk_failures := 0, wk_phase := Head\<rparr>
      | Ticking (Throw (CommandError NoGroup)) \<Rightarrow> w\<lparr>wk_phase := Recreating\<rparr>
      | Ticking (Throw e) \<Rightarrow> after_failure random w
      | _ \<Rightarrow> w)"

text \<open>\<open>now - lastReclaimAt >= reclaimIntervalMs\<close>, where the last reclaim starts at minus infinity.\<close>

definition should_reclaim :: "nat \<Rightarrow> 'e worker \<Rightarrow> bool" where
  "should_reclaim now w =
     (case wk_lastReclaimAt w of
        None \<Rightarrow> True
      | Some t \<Rightarrow> wo_reclaimIntervalMs (wk_options w) \<le> int now - int t)"

definition begin_tick :: "(stream_entry \<Rightarrow> 'e option) \<Rightarrow> (stream_entry \<Rightarrow> string) \<Rightarrow> nat \<Rightarrow> 'e worker \<Rightarrow> 'e worker" where
  "begin_tick decode malformed now w =
     w\<lparr>wk_lastReclaimAt := if should_reclaim now w then Some now else wk_lastReclaimAt w,
       wk_phase := Ticking (runStreamTick decode malformed (wk_options w) (should_reclaim now w))\<rparr>"

text \<open>What surrounds the commands: \<open>decodeEnvelope\<close>, the text of its error, \<open>toISOString\<close>.\<close>

record 'e surroundings =
  su_decode :: "stream_entry \<Rightarrow> 'e option"
  su_malformed :: "stream_entry \<Rightarrow> string"
  su_iso8601 :: "nat \<Rightarrow> string"

definition ensureGroup ::
  "'s stream_commands \<Rightarrow> worker_options \<Rightarrow> input \<Rightarrow> 's \<Rightarrow> ((stream_error + group_created) \<times> 's) option" where
  "ensureGroup ops opts inp s = perform inp (sc_createGroup ops (wo_key opts) (wo_group opts) FromEnd True s) s"

definition worker_step ::
  "'s stream_commands \<Rightarrow> 'e surroundings \<Rightarrow> nat \<Rightarrow> rat \<Rightarrow> input \<Rightarrow> 'e worker \<Rightarrow> 's \<Rightarrow> 'e worker \<times> 's \<times> stream_note list" where
  "worker_step ops env now random inp w s =
     (let opts = wk_options w
      in case wk_phase w of
           Ensuring \<Rightarrow>
             (case ensureGroup ops opts inp s of
                None \<Rightarrow> (w, s, [])
              | Some (Inl _, s') \<Rightarrow> (w\<lparr>wk_phase := NeverStarted\<rparr>, s', [])
              | Some (Inr _, s') \<Rightarrow> (w\<lparr>wk_phase := Head, wk_failures := 0\<rparr>, s', []))
         | Head \<Rightarrow>
             if wk_stopping w then (w\<lparr>wk_running := False, wk_phase := Counting\<rparr>, s, [])
             else (begin_tick (su_decode env) (su_malformed env) now w, s, [])
         | Ticking a \<Rightarrow>
             (case advance ops (su_iso8601 env) opts now inp a s of
                None \<Rightarrow> (w, s, [])
              | Some (a', s', notes) \<Rightarrow> (settle_tick random (w\<lparr>wk_phase := Ticking a'\<rparr>), s', notes @ started a'))
         | Recreating \<Rightarrow>
             (case ensureGroup ops opts inp s of
                None \<Rightarrow> (w, s, [])
              | Some (Inl _, s') \<Rightarrow> (w\<lparr>wk_phase := LoopFailed\<rparr>, s', [])
              | Some (Inr _, s') \<Rightarrow> (after_failure random w, s', []))
         | Sleeping _ \<Rightarrow> if inp = Awake then (w\<lparr>wk_phase := Head\<rparr>, s, []) else (w, s, [])
         | Counting \<Rightarrow>
             if inp = Delivered then
               (w\<lparr>wk_phase := if sc_consumerPendingCount ops (wo_key opts) (wo_group opts) (wo_consumer opts) s = 0
                             then Retiring else Stopped\<rparr>, s, [])
             else if inp = NotSent \<or> inp = ReplyLost then (w\<lparr>wk_phase := Stopped\<rparr>, s, [])
             else (w, s, [])
         | Retiring \<Rightarrow>
             if inp = NotSent then (w\<lparr>wk_phase := Stopped\<rparr>, s, [])
             else if inp = Delivered \<or> inp = ReplyLost then
               (w\<lparr>wk_phase := Stopped\<rparr>, snd (sc_deleteConsumer ops (wo_key opts) (wo_group opts) (wo_consumer opts) s), [])
             else (w, s, [])
         | _ \<Rightarrow> (w, s, []))"

text \<open>A process that dies loses everything but its configuration.\<close>

definition crash :: "'e worker \<Rightarrow> 'e worker" where
  "crash w = w\<lparr>wk_running := False, wk_stopping := False, wk_phase := Stopped, wk_lastReclaimAt := None, wk_failures := 0\<rparr>"

section \<open>A group of workers\<close>

record ('s, 'e) stream_system =
  sy_store :: 's
  sy_clock :: nat
  sy_workers :: "'e worker list"
  sy_notes :: "stream_note list"

text \<open>\<open>Publish\<close> is \<open>publish\<close> of the publisher of a stream, with the fields of the encoded envelope.\<close>

datatype stream_event =
    Publish string "(string, string) js_map" nat
  | Advance nat
  | Start nat
  | Step nat rat input
  | Stop nat
  | Crash nat

definition on_worker :: "nat \<Rightarrow> ('e worker \<Rightarrow> 'e worker) \<Rightarrow> ('s, 'e) stream_system \<Rightarrow> ('s, 'e) stream_system" where
  "on_worker i f st = (if i < length (sy_workers st) then st\<lparr>sy_workers := (sy_workers st)[i := f (sy_workers st ! i)]\<rparr> else st)"

fun stream_do :: "'s stream_commands \<Rightarrow> 'e surroundings \<Rightarrow> stream_event \<Rightarrow> ('s, 'e) stream_system \<Rightarrow> ('s, 'e) stream_system" where
  "stream_do ops env (Publish key flds maxLen) st =
     (case sc_append ops key flds (Some maxLen) (sy_clock st) (sy_store st) of
        (i, s') \<Rightarrow> st\<lparr>sy_store := s', sy_notes := sy_notes st @ [Published key i]\<rparr>)"
| "stream_do ops env (Advance d) st = st\<lparr>sy_clock := sy_clock st + d\<rparr>"
| "stream_do ops env (Start i) st = on_worker i start st"
| "stream_do ops env (Stop i) st = on_worker i stop st"
| "stream_do ops env (Crash i) st = on_worker i crash st"
| "stream_do ops env (Step i random inp) st =
     (if i < length (sy_workers st) then
        case worker_step ops env (sy_clock st) random inp (sy_workers st ! i) (sy_store st) of
          (w, s', notes) \<Rightarrow>
            st\<lparr>sy_store := s', sy_workers := (sy_workers st)[i := w], sy_notes := sy_notes st @ notes\<rparr>
      else st)"

section \<open>Nothing is acknowledged before it is settled\<close>

definition settled :: "stream_note list \<Rightarrow> string set" where
  "settled notes = {i. Handled i \<in> set notes} \<union> {se_id (pk_entry p) | p. Parked p \<in> set notes}"

lemma settled_simps [simp]:
  "settled [] = {}"
  "settled (ns @ ms) = settled ns \<union> settled ms"
  "settled (Handled i # ns) = insert i (settled ns)"
  "settled (Parked p # ns) = insert (se_id (pk_entry p)) (settled ns)"
  "settled (Started i n # ns) = settled ns"
  "settled (Delivery i # ns) = settled ns"
  "settled (Published k i # ns) = settled ns"
  by (auto simp: settled_def)

lemma settled_started [simp]: "settled (started a) = {}"
  by (cases a) (auto simp: started_def)

lemma settled_deliveries [simp]: "settled (deliveries inp r) = {}"
  by (auto simp: deliveries_def settled_def split: sum.splits)

text \<open>
  An activity of the consumer \<open>c\<close> is guarded by the settled ids \<open>S\<close> when it acknowledges only those
  and the ones it has settled by then. A listing names an entry once, so a claim of it does.
\<close>

primrec guarded :: "string \<Rightarrow> ('e, 'r) activity \<Rightarrow> string set \<Rightarrow> bool" where
  "guarded c (Finished x) S = True"
| "guarded c (Throw e) S = True"
| "guarded c (XPending m n k) S =
     ((\<forall>e. guarded c (k (Inl e)) S) \<and> (\<forall>ps. distinct (map pe_id ps) \<longrightarrow> guarded c (k (Inr ps)) S))"
| "guarded c (XClaim c' m is k) S = (c' = c \<and> distinct is \<and> (\<forall>r. guarded c (k r) S))"
| "guarded c (XReadGroup c' n k) S = (c' = c \<and> (\<forall>r. guarded c (k r) S))"
| "guarded c (XAck is k) S = (set is \<subseteq> S \<and> (\<forall>r. guarded c (k r) S))"
| "guarded c (Handle e cx k) S =
     (guarded c (k Resolved) (insert (cx_entryId cx) S) \<and> (\<forall>e. guarded c (k (Rejected e)) S))"
| "guarded c (OnPark p k) S =
     (guarded c (k None) (insert (se_id (pk_entry p)) S) \<and> (\<forall>e. guarded c (k (Some e)) S))"

lemma guarded_mono: "guarded c a S \<Longrightarrow> S \<subseteq> S' \<Longrightarrow> guarded c a S'"
proof (induction a arbitrary: S S')
  case (XPending m n k)
  then show ?case by (auto intro: XPending.IH [OF rangeI])
next
  case (XClaim c' m "is" k)
  then show ?case by (auto intro: XClaim.IH [OF rangeI])
next
  case (XReadGroup c' n k)
  then show ?case by (auto intro: XReadGroup.IH [OF rangeI])
next
  case (XAck "is" k)
  then show ?case by (auto intro: XAck.IH [OF rangeI])
next
  case (Handle e cx k)
  then show ?case by (auto intro: Handle.IH [OF rangeI, OF _ insert_mono] Handle.IH [OF rangeI])
next
  case (OnPark p k)
  then show ?case by (auto intro: OnPark.IH [OF rangeI, OF _ insert_mono] OnPark.IH [OF rangeI])
qed simp_all

lemma guarded_await:
  "guarded c a S \<Longrightarrow> (\<And>x S'. S \<subseteq> S' \<Longrightarrow> guarded c (f x) S') \<Longrightarrow> guarded c (await a f) S"
proof (induction a arbitrary: S)
  case (Handle e cx k)
  have f: "guarded c (f x) S'" if "insert (cx_entryId cx) S \<subseteq> S'" for x S'
    by (rule Handle.prems(2)) (use that in blast)
  have "guarded c (await (k Resolved) f) (insert (cx_entryId cx) S)"
    by (rule Handle.IH [OF rangeI]) (use Handle.prems(1) f in auto)
  moreover have "guarded c (await (k (Rejected e)) f) S" for e
    by (rule Handle.IH [OF rangeI]) (use Handle.prems in auto)
  ultimately show ?case by simp
next
  case (OnPark p k)
  have f: "guarded c (f x) S'" if "insert (se_id (pk_entry p)) S \<subseteq> S'" for x S'
    by (rule OnPark.prems(2)) (use that in blast)
  have "guarded c (await (k None) f) (insert (se_id (pk_entry p)) S)"
    by (rule OnPark.IH [OF rangeI]) (use OnPark.prems(1) f in auto)
  moreover have "guarded c (await (k (Some e)) f) S" for e
    by (rule OnPark.IH [OF rangeI]) (use OnPark.prems in auto)
  ultimately show ?case by simp
qed simp_all

lemma guarded_replied: "(\<And>x. guarded c (f x) S) \<Longrightarrow> guarded c (replied f r) S"
  by (simp add: replied_def split: sum.split)

lemma guarded_park: "(\<And>S'. S \<subseteq> S' \<Longrightarrow> guarded c next S') \<Longrightarrow> guarded c (park p next) S"
  by (auto simp: park_def intro!: guarded_replied)

lemma guarded_process_loop: "guarded c (process_loop decode malformed opts counts reclaimed entries out) S"
proof (induction entries arbitrary: out S)
  case (Cons entry rest)
  then show ?case
    by (auto simp: Let_def split: option.split handler_result.split intro!: guarded_park guarded_replied)
qed simp

lemma guarded_tick: "guarded (wo_consumer opts) (runStreamTick decode malformed opts reclaim) S"
  unfolding runStreamTick_def reclaimStalled_def processEntries_def
  by (auto intro!: guarded_await guarded_replied guarded_process_loop simp: guarded_process_loop replied_def split: sum.split)

end
