(* ===== verification/Stream_Delivery.thy ===== *)
theory Stream_Delivery
  imports Stream_Worker "HOL-Library.Code_Target_Nat"
begin

text \<open>
  What a group of stream workers guarantees: the accounting of every entry under all interleavings,
  failures and crashes, the number of attempts an entry gets, and two ways in which the promises
  around it fail.
\<close>

section \<open>What one step moves\<close>

text \<open>
  A step of the consumer \<open>c\<close> leaves the stream as it is, loses track of no entry on it but the settled
  ones, and hands entries to \<open>c\<close> only.
\<close>

definition moves :: "string \<Rightarrow> string set \<Rightarrow> group_view \<Rightarrow> group_view \<Rightarrow> bool" where
  "moves c S v v' \<longleftrightarrow>
     gv_ids v' = gv_ids v \<and>
     (\<forall>i \<in> gv_ids v. i \<in> gv_fresh v \<or> gv_pend v i \<noteq> None \<longrightarrow> i \<in> gv_fresh v' \<or> gv_pend v' i \<noteq> None \<or> i \<in> S) \<and>
     (\<forall>i h. gv_pend v' i = Some h \<longrightarrow> gv_pend v i = Some h \<or> pr_consumer h = c)"

lemma moves_refl [simp]: "moves c S v v"
  by (simp add: moves_def)

context stream_port
begin

lemma read_moves:
  assumes "ok t s" "sc_readGroup ops key grp c n t s = (r, s')"
  shows "ok t s' \<and> moves c S (abs s) (abs s')"
proof -
  obtain es where "r = Inr es" and es: "se_id ` set es \<subseteq> gv_fresh (abs s)"
    and abs: "abs s' = (abs s)\<lparr>gv_fresh := gv_fresh (abs s) - se_id ` set es,
      gv_pend := \<lambda>i. if i \<in> se_id ` set es
        then Some \<lparr>pr_consumer = c, pr_deliveredAt = t, pr_deliveryCount = 1\<rparr> else gv_pend (abs s) i\<rparr>"
    using read_law [OF assms] by (elim conjE exE) (rule that, assumption+)
  show ?thesis
    using read_law [OF assms] unfolding abs moves_def by (auto split: if_splits)
qed

lemma claim_moves:
  assumes "ok t s" "distinct is" "sc_claim ops key grp c m is t s = (r, s')"
  shows "ok t s' \<and> moves c S (abs s) (abs s')"
proof -
  obtain es where "r = Inr es" and same: "gv_ids (abs s') = gv_ids (abs s)" "gv_fresh (abs s') = gv_fresh (abs s)"
    and taken: "\<forall>e \<in> set es. \<exists>h. gv_pend (abs s) (se_id e) = Some h \<and> m \<le> int t - int (pr_deliveredAt h) \<and>
           gv_pend (abs s') (se_id e) =
             Some \<lparr>pr_consumer = c, pr_deliveredAt = t, pr_deliveryCount = pr_deliveryCount h + 1\<rparr>"
    and left: "\<forall>i. i \<notin> se_id ` set es \<longrightarrow> gv_pend (abs s') i = gv_pend (abs s) i \<or>
           gv_pend (abs s') i = None \<and> i \<notin> gv_ids (abs s)"
    using claim_law [OF assms] by (elim conjE exE) (rule that, assumption+)
  have "i \<in> gv_fresh (abs s') \<or> gv_pend (abs s') i \<noteq> None"
    if "i \<in> gv_ids (abs s)" "i \<in> gv_fresh (abs s) \<or> gv_pend (abs s) i \<noteq> None" for i
    using that taken left same(2) by (cases "i \<in> se_id ` set es") auto
  moreover have "gv_pend (abs s) i = Some h \<or> pr_consumer h = c" if "gv_pend (abs s') i = Some h" for i h
    using that taken left by (cases "i \<in> se_id ` set es") fastforce+
  ultimately show ?thesis
    using claim_law [OF assms] same(1) unfolding moves_def by blast
qed

lemma ack_moves:
  assumes "ok t s" "sc_ack ops key grp is s = (r, s')" "set is \<subseteq> S"
  shows "ok t s' \<and> moves c S (abs s) (abs s')"
proof -
  have law: "ok t s'" "abs s' = (abs s)\<lparr>gv_pend := gv_pend (abs s) |` (- set is)\<rparr>"
    using ack_law [OF assms(1,2)] by blast+
  show ?thesis
    using law(1) assms(3) unfolding law(2) moves_def by (auto simp: restrict_map_def split: if_splits)
qed

lemma perform_cases:
  assumes "perform inp result s = Some (r, s')"
  shows "s' = s \<or> s' = snd result"
  using assms by (auto simp: perform_def split: input.splits)

lemma onPark_moves:
  assumes "ok t s" "wo_key opts = key" "call_onPark ops iso8601 opts t inp p s = Some (failure, s')"
  shows "ok t s' \<and> abs s' = abs s \<and> used t s \<subseteq> used t s'"
proof (cases "s' = s")
  case False
  then obtain cap i where app: "sc_append ops (parkedStreamKey key) (parked_fields key (iso8601 t) p) (Some cap) t s = (i, s')"
    using assms(2,3) by (cases "wo_onPark opts"; cases inp) (auto simp: call_onPark_def Let_def, (metis surjective_pairing)+)
  have "parkedStreamKey key \<noteq> key"
    by (simp add: parkedStreamKey_def)
  then show ?thesis
    using append_other [OF assms(1) _ app] by blast
qed (use assms(1) in simp)

lemma advance_keeps:
  assumes ok: "ok t s" and opts: "wo_key opts = key" "wo_group opts = grp"
    and guard: "guarded c a S" and adv: "advance ops iso8601 opts t inp a s = Some (a', s', ns)"
  shows "ok t s' \<and> moves c S (abs s) (abs s') \<and> guarded c a' (S \<union> settled ns)"
proof (cases a)
  case (XPending m n k)
  obtain ps where ps: "sc_pendingEntries ops key grp m n None t s = Inr ps" "distinct (map pe_id ps)"
    using list_law [OF ok] by blast
  then show ?thesis
    using ok guard adv XPending opts by (auto simp: perform_def split: input.splits)
next
  case (XClaim c' m "is" k)
  obtain r s1 where result: "sc_claim ops key grp c m is t s = (r, s1)"
    by fastforce
  obtain r' where r': "perform inp (r, s1) s = Some (r', s')" "a' = k r'" "settled ns = {}"
    using adv XClaim guard opts by (auto simp: result Let_def)
  then have "s' = s \<or> s' = s1"
    using perform_cases by fastforce
  moreover have "ok t s1 \<and> moves c S (abs s) (abs s1)"
    using claim_moves [OF ok _ result] guard XClaim by simp
  ultimately show ?thesis
    using ok guard XClaim r'(2,3) by auto
next
  case (XReadGroup c' n k)
  obtain r s1 where result: "sc_readGroup ops key grp c n t s = (r, s1)"
    by fastforce
  obtain r' where r': "perform inp (r, s1) s = Some (r', s')" "a' = k r'" "settled ns = {}"
    using adv XReadGroup guard opts by (auto simp: result Let_def)
  then have "s' = s \<or> s' = s1"
    using perform_cases by fastforce
  moreover have "ok t s1 \<and> moves c S (abs s) (abs s1)"
    by (rule read_moves [OF ok result])
  ultimately show ?thesis
    using ok guard XReadGroup r'(2,3) by auto
next
  case (XAck "is" k)
  obtain r s1 where result: "sc_ack ops key grp is s = (r, s1)"
    by fastforce
  obtain r' where r': "perform inp (r, s1) s = Some (r', s')" "a' = k r'" "settled ns = {}"
    using adv XAck guard opts by (auto simp: result Let_def)
  then have "s' = s \<or> s' = s1"
    using perform_cases by fastforce
  moreover have "ok t s1 \<and> moves c S (abs s) (abs s1)"
    by (rule ack_moves [OF ok result]) (use guard XAck in simp)
  ultimately show ?thesis
    using ok guard XAck r'(2,3) by auto
next
  case (Handle e cx k)
  then show ?thesis
    using ok guard adv by (auto simp: handler_outcome_def split: input.splits)
next
  case (OnPark p k)
  then obtain failure where f: "call_onPark ops iso8601 opts t inp p s = Some (failure, s')"
      "a' = k failure" "ns = (if failure = None then [Parked p] else [])"
    using adv by auto
  then show ?thesis
    using onPark_moves [OF ok opts(1) f(1)] guard OnPark by (cases failure) auto
qed (use adv in auto)


lemma ensureGroup_keeps:
  assumes "ok t s" "wo_key opts = key" "wo_group opts = grp" "ensureGroup ops opts inp s = Some (r, s')"
  shows "ok t s' \<and> abs s' = abs s \<and> used t s' = used t s"
proof -
  obtain r1 s1 where result: "sc_createGroup ops key grp FromEnd True s = (r1, s1)"
    by fastforce
  have "s' = s \<or> s' = s1"
    using perform_cases [of inp "(r1, s1)" s r s'] assms(2-4) by (simp add: ensureGroup_def result)
  then show ?thesis
    using create_law [OF assms(1) result] assms(1) by auto
qed

end

definition worker_guarded :: "string \<Rightarrow> string \<Rightarrow> string set \<Rightarrow> 'e worker \<Rightarrow> bool" where
  "worker_guarded key grp S w \<longleftrightarrow>
     wo_key (wk_options w) = key \<and> wo_group (wk_options w) = grp \<and>
     (\<forall>a. wk_phase w = Ticking a \<longrightarrow> guarded (wo_consumer (wk_options w)) a S)"

text \<open>A consumer that is being retired holds nothing.\<close>

definition retires_empty :: "group_view \<Rightarrow> 'e worker \<Rightarrow> bool" where
  "retires_empty v w \<longleftrightarrow>
     (wk_phase w = Retiring \<longrightarrow> (\<forall>i h. gv_pend v i = Some h \<longrightarrow> pr_consumer h \<noteq> wo_consumer (wk_options w)))"

lemma settle_tick_phase:
  "wk_options (settle_tick x w) = wk_options w"
  "wk_phase (settle_tick x w) \<noteq> Retiring \<or> wk_phase w = Retiring"
  "wk_phase (settle_tick x w) = Ticking a \<Longrightarrow> wk_phase w = Ticking a"
  by (auto simp: settle_tick_def after_failure_def Let_def
      split: phase.splits activity.splits worker_error.splits stream_error.splits if_splits)

lemma after_failure_phase:
  "wk_options (after_failure x w) = wk_options w"
  "wk_phase (after_failure x w) \<noteq> Retiring" "wk_phase (after_failure x w) \<noteq> Ticking a"
  by (auto simp: after_failure_def Let_def)

context stream_port
begin

lemma worker_step_keeps:
  assumes ok: "ok t s" and guard: "worker_guarded key grp S w" and retire: "retires_empty (abs s) w"
    and step: "worker_step ops env t x inp w s = (w', s', ns)"
  shows "ok t s' \<and> moves (wo_consumer (wk_options w)) S (abs s) (abs s') \<and> worker_guarded key grp (S \<union> settled ns) w' \<and>
    wk_options w' = wk_options w \<and> retires_empty (abs s') w'"
proof -
  have opts: "wo_key (wk_options w) = key" "wo_group (wk_options w) = grp"
    using guard by (simp_all add: worker_guarded_def)
  show ?thesis
  proof (cases "wk_phase w")
    case Ensuring
    then show ?thesis
      using step ok guard retire ensureGroup_keeps [OF ok opts]
      by (auto simp: worker_step_def worker_guarded_def retires_empty_def split: option.splits sum.splits)
  next
    case Head
    then show ?thesis
      using step ok guard
      by (auto simp: worker_step_def worker_guarded_def retires_empty_def begin_tick_def guarded_tick split: if_splits)
  next
    case (Ticking a)
    show ?thesis
    proof (cases "advance ops (su_iso8601 env) (wk_options w) t inp a s")
      case None
      then show ?thesis
        using step ok guard retire Ticking by (auto simp: worker_step_def)
    next
      case (Some res)
      obtain a' s1 ns' where res: "res = (a', s1, ns')"
        by (cases res)
      have "guarded (wo_consumer (wk_options w)) a S"
        using guard Ticking by (simp add: worker_guarded_def)
      from advance_keeps [OF ok opts this Some [unfolded res]]
      have adv: "ok t s1" "moves (wo_consumer (wk_options w)) S (abs s) (abs s1)"
          "guarded (wo_consumer (wk_options w)) a' (S \<union> settled ns')"
        by blast+
      have w': "w' = settle_tick x (w\<lparr>wk_phase := Ticking a'\<rparr>)" "s' = s1" "settled ns = settled ns'"
        using step by (auto simp: worker_step_def Ticking Some res)
      show ?thesis
        using adv opts settle_tick_phase(3) [of x "w\<lparr>wk_phase := Ticking a'\<rparr>"]
          settle_tick_phase(2) [of x "w\<lparr>wk_phase := Ticking a'\<rparr>"]
        by (auto simp: w' worker_guarded_def retires_empty_def settle_tick_phase(1))
    qed
  next
    case Recreating
    then show ?thesis
      using step ok guard retire ensureGroup_keeps [OF ok opts]
      by (auto simp: worker_step_def worker_guarded_def retires_empty_def after_failure_phase split: option.splits sum.splits)
  next
    case Counting
    then show ?thesis
      using step ok guard retire count_law [OF ok] opts
      by (auto simp: worker_step_def worker_guarded_def retires_empty_def Let_def split: if_splits)
  next
    case Retiring
    obtain n s1 where del: "sc_deleteConsumer ops key grp (wo_consumer (wk_options w)) s = (n, s1)"
      by fastforce
    have "\<forall>i h. gv_pend (abs s) i = Some h \<longrightarrow> pr_consumer h \<noteq> wo_consumer (wk_options w)"
      using retire Retiring by (simp add: retires_empty_def)
    then have "abs s1 = abs s" "ok t s1"
      using delete_law [OF ok del] by (auto simp: fun_eq_iff split: option.splits intro!: group_view.equality)
    then show ?thesis
      using step ok guard retire Retiring opts del
      by (auto simp: worker_step_def worker_guarded_def retires_empty_def Let_def split: if_splits)
  qed (use step ok guard retire in \<open>auto simp: worker_step_def worker_guarded_def retires_empty_def split: if_splits\<close>)
qed

end

section \<open>Every entry is accounted for\<close>

definition group_inv ::
  "(nat \<Rightarrow> 's \<Rightarrow> bool) \<Rightarrow> ('s \<Rightarrow> group_view) \<Rightarrow> string \<Rightarrow> string \<Rightarrow> string set \<Rightarrow> ('s, 'e) stream_system \<Rightarrow> bool" where
  "group_inv ok view key grp I st \<longleftrightarrow>
     ok (sy_clock st) (sy_store st) \<and>
     distinct (map (\<lambda>w. wo_consumer (wk_options w)) (sy_workers st)) \<and>
     (\<forall>w \<in> set (sy_workers st).
        worker_guarded key grp (settled (sy_notes st)) w \<and> retires_empty (view (sy_store st)) w) \<and>
     (\<forall>i \<in> gv_ids (view (sy_store st)). i \<in> I \<or> Published key i \<in> set (sy_notes st) \<longrightarrow>
        i \<in> gv_fresh (view (sy_store st)) \<or> gv_pend (view (sy_store st)) i \<noteq> None \<or> i \<in> settled (sy_notes st))"

lemma worker_guarded_mono: "worker_guarded key grp S w \<Longrightarrow> S \<subseteq> S' \<Longrightarrow> worker_guarded key grp S' w"
  by (auto simp: worker_guarded_def intro: guarded_mono)

lemma moves_retires_empty:
  "moves c S v v' \<Longrightarrow> wo_consumer (wk_options w) \<noteq> c \<Longrightarrow> retires_empty v w \<Longrightarrow> retires_empty v' w"
  by (fastforce simp: moves_def retires_empty_def)

lemma worker_calls_guarded:
  "worker_guarded key grp S w \<Longrightarrow> f \<in> {start, stop, crash} \<Longrightarrow>
     worker_guarded key grp S (f w) \<and> wk_options (f w) = wk_options w \<and>
     (wk_phase (f w) = Retiring \<longrightarrow> wk_phase w = Retiring)"
  by (cases "wk_phase w") (auto simp: worker_guarded_def start_def stop_def crash_def split: if_splits)

lemma advance_unpublished: "advance ops iso8601 opts t inp a s = Some (a', s', ns) \<Longrightarrow> Published k i \<notin> set ns"
  by (cases a) (auto simp: Let_def deliveries_def split: if_splits sum.splits)

lemma started_unpublished: "Published k i \<notin> set (started a)"
  by (cases a) (simp_all add: started_def)

lemma worker_notes_unpublished:
  "worker_step ops env t x inp w s = (w', s', ns) \<Longrightarrow> Published k i \<notin> set ns"
  by (auto simp: worker_step_def Let_def started_unpublished dest: advance_unpublished
      split: phase.splits option.splits sum.splits if_splits prod.splits)

context stream_port
begin

lemma group_inv_on_worker:
  assumes inv: "group_inv ok abs key grp I st" and f: "f \<in> {start, stop, crash}"
  shows "group_inv ok abs key grp I (on_worker i f st)"
proof (cases "i < length (sy_workers st)")
  case True
  let ?w = "sy_workers st ! i"
  have "worker_guarded key grp (settled (sy_notes st)) ?w" "retires_empty (abs (sy_store st)) ?w"
    using inv True by (auto simp: group_inv_def)
  then have new: "worker_guarded key grp (settled (sy_notes st)) (f ?w)" "wk_options (f ?w) = wk_options ?w"
      "retires_empty (abs (sy_store st)) (f ?w)"
    using worker_calls_guarded [OF _ f, of key grp "settled (sy_notes st)" ?w] by (auto simp: retires_empty_def)
  have "map (\<lambda>w. wo_consumer (wk_options w)) ((sy_workers st)[i := f ?w]) = map (\<lambda>w. wo_consumer (wk_options w)) (sy_workers st)"
    using True new(2) by (simp add: map_update list_update_same_conv)
  then show ?thesis
    using inv new True set_update_subset_insert [of "sy_workers st" i "f ?w"]
    unfolding group_inv_def on_worker_def by (auto simp: Ball_def)
qed (use inv in \<open>simp add: on_worker_def\<close>)

lemma group_inv_step:
  assumes inv: "group_inv ok abs key grp I st"
  shows "group_inv ok abs key grp I (stream_do ops env (Step i x inp) st)"
proof (cases "i < length (sy_workers st)")
  case True
  let ?w = "sy_workers st ! i" and ?S = "settled (sy_notes st)" and ?v = "abs (sy_store st)"
  obtain w' s' ns where step: "worker_step ops env (sy_clock st) x inp ?w (sy_store st) = (w', s', ns)"
    by (metis prod_cases3)
  have "worker_guarded key grp ?S ?w" "retires_empty ?v ?w" "ok (sy_clock st) (sy_store st)"
    using inv True by (auto simp: group_inv_def)
  from worker_step_keeps [OF this(3,1,2) step]
  have new: "ok (sy_clock st) s'" "moves (wo_consumer (wk_options ?w)) ?S ?v (abs s')"
      "worker_guarded key grp (?S \<union> settled ns) w'" "wk_options w' = wk_options ?w" "retires_empty (abs s') w'"
    by blast+
  have names: "map (\<lambda>w. wo_consumer (wk_options w)) ((sy_workers st)[i := w']) = map (\<lambda>w. wo_consumer (wk_options w)) (sy_workers st)"
    using True new(4) by (simp add: map_update list_update_same_conv)
  have "worker_guarded key grp (?S \<union> settled ns) w \<and> retires_empty (abs s') w" if w: "w \<in> set ((sy_workers st)[i := w'])" for w
  proof -
    obtain j where j: "j < length (sy_workers st)" "w = (sy_workers st)[i := w'] ! j"
      using w by (auto simp: in_set_conv_nth)
    show ?thesis
    proof (cases "j = i")
      case False
      then have "w \<in> set (sy_workers st)" "w = sy_workers st ! j"
        using j by auto
      moreover have "wo_consumer (wk_options w) \<noteq> wo_consumer (wk_options ?w)"
        using inv False j(1) True \<open>w = sy_workers st ! j\<close> by (auto simp: group_inv_def distinct_conv_nth)
      ultimately show ?thesis
        using inv new(2) moves_retires_empty worker_guarded_mono [of key grp ?S w "?S \<union> settled ns"]
        unfolding group_inv_def by (metis Un_upper1)
    qed (use j new True in simp)
  qed
  moreover have "i \<in> gv_fresh (abs s') \<or> gv_pend (abs s') i \<noteq> None \<or> i \<in> ?S \<union> settled ns"
    if "i \<in> gv_ids (abs s')" "i \<in> I \<or> Published key i \<in> set (sy_notes st @ ns)" for i
    using that inv new(2) worker_notes_unpublished [OF step, of key i] unfolding group_inv_def moves_def by auto
  ultimately show ?thesis
    using inv new(1) names True unfolding group_inv_def by (auto simp: step)
qed (use inv in simp)

lemma group_inv_publish:
  assumes inv: "group_inv ok abs key grp I st"
  shows "group_inv ok abs key grp I (stream_do ops env (Publish k flds cap) st)"
proof -
  obtain i s' where app: "sc_append ops k flds (Some cap) (sy_clock st) (sy_store st) = (i, s')"
    by fastforce
  have eq: "stream_do ops env (Publish k flds cap) st = st\<lparr>sy_store := s', sy_notes := sy_notes st @ [Published k i]\<rparr>"
    by (simp add: app)
  have ok: "ok (sy_clock st) (sy_store st)"
    using inv by (simp add: group_inv_def)
  show ?thesis
  proof (cases "k = key")
    case True
    note law = append_law [OF ok app [unfolded True]]
    have "j \<in> gv_fresh (abs s') \<or> gv_pend (abs s') j \<noteq> None \<or> j \<in> settled (sy_notes st)"
      if "j \<in> gv_ids (abs s')" "j \<in> I \<or> Published key j \<in> set (sy_notes st) \<or> j = i" for j
    proof (cases "j = i")
      case False
      then have "j \<in> gv_ids (abs (sy_store st))" "j \<in> I \<or> Published key j \<in> set (sy_notes st)"
        using that law by blast+
      with that(1) False show ?thesis
        using inv law unfolding group_inv_def by auto
    qed (use that(1) law in auto)
    then show ?thesis
      using inv law unfolding group_inv_def eq by (auto simp: retires_empty_def)
  next
    case False
    from append_other [OF ok False app] show ?thesis
      using inv False unfolding group_inv_def eq by auto
  qed
qed

lemma group_inv_keeps:
  assumes inv: "group_inv ok abs key grp I st"
  shows "group_inv ok abs key grp I (stream_do ops env e st)"
proof (cases e)
  case (Publish k flds cap)
  then show ?thesis using group_inv_publish [OF inv] by blast
next
  case (Advance d)
  then show ?thesis
    using later [of "sy_clock st" "sy_store st" "sy_clock st + d"] inv by (simp add: group_inv_def)
next
  case (Step i x inp)
  then show ?thesis using group_inv_step [OF inv] by blast
qed (use group_inv_on_worker [OF inv] in auto)

end

interpretation stream_group: step_invariant "stream_do memory_commands env"
  "group_inv (streams_ok key grp) (group_abs key grp) key grp I" for env key grp I
  by unfold_locales (rule memory_port.group_inv_keeps)

section \<open>How often a handler runs\<close>

definition starts :: "stream_note list \<Rightarrow> string \<Rightarrow> nat" where
  "starts notes i = length (filter (\<lambda>x. case x of Started j n \<Rightarrow> j = i | _ \<Rightarrow> False) notes)"

definition arrive :: "('e, 'r) activity \<Rightarrow> (string \<Rightarrow> nat) \<Rightarrow> string \<Rightarrow> nat" where
  "arrive a n = (case a of Handle e cx k \<Rightarrow> n(cx_entryId cx := n (cx_entryId cx) + 1) | _ \<Rightarrow> n)"

text \<open>Between batches, a pending entry has a delivery left and has not been handled more often than delivered.\<close>

definition has_budget :: "nat \<Rightarrow> (string \<Rightarrow> nat option) \<Rightarrow> (string \<Rightarrow> nat) \<Rightarrow> bool" where
  "has_budget M P n \<longleftrightarrow> (\<forall>i c. P i = Some c \<longrightarrow> n i \<le> c \<and> c < M)"

definition claimed_as :: "string list \<Rightarrow> stream_entry list \<Rightarrow> (string \<Rightarrow> nat option) \<Rightarrow> (string \<Rightarrow> nat option) \<Rightarrow> bool" where
  "claimed_as is es P P' \<longleftrightarrow>
     distinct (map se_id es) \<and> se_id ` set es \<subseteq> set is \<and>
     (\<forall>e \<in> set es. \<exists>c. P (se_id e) = Some c \<and> P' (se_id e) = Some (c + 1)) \<and>
     (\<forall>i. i \<notin> se_id ` set es \<longrightarrow> P' i = P i \<or> P' i = None)"

text \<open>
  The attempts of an activity stay within \<open>M\<close>, from the delivery counts \<open>P\<close> of the pending list and
  the attempts \<open>n\<close> so far, as long as the store answers and no one else changes the list.
\<close>

primrec fits :: "nat \<Rightarrow> ('e, 'r) activity \<Rightarrow> (string \<Rightarrow> nat option) \<Rightarrow> (string \<Rightarrow> nat) \<Rightarrow> bool" where
  "fits M (Finished x) P n = has_budget M P n"
| "fits M (Throw e) P n = has_budget M P n"
| "fits M (XPending m k' k) P n =
     (\<forall>ps. distinct (map pe_id ps) \<and> (\<forall>p \<in> set ps. P (pe_id p) = Some (pe_deliveryCount p)) \<longrightarrow>
        fits M (k (Inr ps)) P (arrive (k (Inr ps)) n))"
| "fits M (XClaim c m is k) P n =
     (distinct is \<and> (\<forall>es P'. claimed_as is es P P' \<longrightarrow> fits M (k (Inr es)) P' (arrive (k (Inr es)) n)))"
| "fits M (XReadGroup c m k) P n =
     (\<forall>es. distinct (map se_id es) \<and> (\<forall>e \<in> set es. n (se_id e) = 0) \<longrightarrow>
        fits M (k (Inr es)) (\<lambda>i. if i \<in> se_id ` set es then Some 1 else P i) (arrive (k (Inr es)) n))"
| "fits M (XAck is k) P n = (\<forall>r. fits M (k (Inr r)) (P |` (- set is)) (arrive (k (Inr r)) n))"
| "fits M (Handle e cx k) P n =
     (n (cx_entryId cx) \<le> M \<and> P (cx_entryId cx) \<noteq> None \<and> (\<forall>r. fits M (k r) P (arrive (k r) n)))"
| "fits M (OnPark p k) P n = fits M (k None) P (arrive (k None) n)"

text \<open>What holds of the rest of a batch.\<close>

definition batch_fits :: "nat \<Rightarrow> (string, nat) js_map \<Rightarrow> stream_entry list \<Rightarrow> (string \<Rightarrow> nat option) \<Rightarrow> (string \<Rightarrow> nat) \<Rightarrow> bool" where
  "batch_fits M counts entries P n \<longleftrightarrow>
     distinct (map se_id entries) \<and>
     (\<forall>e \<in> set entries. P (se_id e) = Some (case js_get counts (se_id e) of None \<Rightarrow> 1 | Some c \<Rightarrow> c) \<and>
        n (se_id e) < (case js_get counts (se_id e) of None \<Rightarrow> 1 | Some c \<Rightarrow> c) \<and>
        (case js_get counts (se_id e) of None \<Rightarrow> 1 | Some c \<Rightarrow> c) \<le> M) \<and>
     (\<forall>i c. i \<notin> se_id ` set entries \<longrightarrow> P i = Some c \<longrightarrow> n i \<le> c \<and> c < M)"

lemma batch_fits_Nil: "batch_fits M counts [] P n = has_budget M P n"
  by (simp add: batch_fits_def has_budget_def)

lemma arrive_await_Handle: "arrive (Handle e cx k) n = n(cx_entryId cx := n (cx_entryId cx) + 1)"
  by (simp add: arrive_def)

lemma arrive_other [simp]:
  "arrive (Finished x) n = n" "arrive (Throw e) n = n" "arrive (XPending m c k1) n = n" "arrive (XClaim c' m is k2) n = n"
  "arrive (XReadGroup c' c k2) n = n" "arrive (XAck is k3) n = n" "arrive (OnPark p k4) n = n"
  by (simp_all add: arrive_def)

lemma fits_park:
  assumes "fits M (await rest f) (P |` (- {se_id (pk_entry p)})) (arrive (await rest f) n)"
  shows "fits M (await (park p rest) f) P (arrive (await (park p rest) f) n)"
  using assms by (simp add: park_def replied_def)

lemma fits_process_loop:
  assumes "batch_fits M counts entries P n" and "wo_maxDeliveries opts = int M"
    and "\<And>out P n. has_budget M P n \<Longrightarrow> fits M (f out) P (arrive (f out) n)"
  shows "fits M (await (process_loop decode malformed opts counts reclaimed entries out) f) P
    (arrive (await (process_loop decode malformed opts counts reclaimed entries out) f) n)"
  using assms(1)
proof (induction entries arbitrary: out P n)
  case Nil
  then show ?case
    using assms(3) by (simp add: batch_fits_Nil)
next
  case (Cons entry rest)
  let ?c = "case js_get counts (se_id entry) of None \<Rightarrow> 1 | Some c \<Rightarrow> c" and ?i = "se_id entry"
  have here: "P ?i = Some ?c" "n ?i < ?c" "?c \<le> M" "?i \<notin> se_id ` set rest"
    using Cons.prems by (auto simp: batch_fits_def)
  have gone: "batch_fits M counts rest (P |` (- {?i})) n'" if "\<forall>j. j \<noteq> ?i \<longrightarrow> n' j = n j" for n'
    using Cons.prems that here(4) by (auto simp: batch_fits_def restrict_map_def split: if_splits) (metis image_eqI)+
  let ?n = "n(?i := n ?i + 1)"
  have kept: "batch_fits M counts rest P ?n" if "?c < M"
    using Cons.prems that here by (auto simp: batch_fits_def) (metis image_eqI less_eq_Suc_le)+
  show ?case
  proof (cases "decode entry")
    case None
    then show ?thesis
      using Cons.IH [OF gone [of n]] by (simp add: Let_def fits_park)
  next
    case (Some envelope)
    have "n ?i + 1 \<le> M"
      using here by simp
    then show ?thesis
      using Cons.IH [OF gone [of ?n]] Cons.IH [OF kept] here(1) assms(2)
      by (auto simp: Some Let_def arrive_await_Handle replied_def fits_park split: handler_result.split)
  qed
qed

lemma get_fold_distinct:
  "distinct (map f ps) \<Longrightarrow> p \<in> set ps \<Longrightarrow> js_get (fold (\<lambda>p. js_set (f p) (g p)) ps m) (f p) = Some (g p)"
proof (induction ps arbitrary: m)
  case (Cons q ps)
  have "f p \<notin> f ` set ps \<Longrightarrow> js_get (fold (\<lambda>p. js_set (f p) (g p)) ps m) (f p) = js_get m (f p)" for m
    by (induction ps arbitrary: m) auto
  with Cons show ?case by auto
qed simp

lemma batch_fits_read:
  assumes "has_budget M P n" "0 < M" "distinct (map se_id es)" "\<forall>e \<in> set es. n (se_id e) = 0"
  shows "batch_fits M [] es (\<lambda>i. if i \<in> se_id ` set es then Some 1 else P i) n"
  using assms by (auto simp: batch_fits_def has_budget_def)

lemma batch_fits_claim:
  assumes budget: "has_budget M P n" and ps: "distinct (map pe_id ps)" "\<forall>p \<in> set ps. P (pe_id p) = Some (pe_deliveryCount p)"
    and claim: "claimed_as (map pe_id ps) es P P'"
  shows "batch_fits M (fold (\<lambda>p. js_set (pe_id p) (pe_deliveryCount p + 1)) ps []) es P' n"
proof -
  let ?counts = "fold (\<lambda>p. js_set (pe_id p) (pe_deliveryCount p + 1)) ps []"
  have "P' (se_id e) = Some (case js_get ?counts (se_id e) of None \<Rightarrow> 1 | Some c \<Rightarrow> c) \<and>
      n (se_id e) < (case js_get ?counts (se_id e) of None \<Rightarrow> 1 | Some c \<Rightarrow> c) \<and>
      (case js_get ?counts (se_id e) of None \<Rightarrow> 1 | Some c \<Rightarrow> c) \<le> M" if e: "e \<in> set es" for e
  proof -
    obtain p where p: "p \<in> set ps" "se_id e = pe_id p"
      using claim e by (auto simp: claimed_as_def)
    then have "js_get ?counts (se_id e) = Some (pe_deliveryCount p + 1)"
      using get_fold_distinct [OF ps(1) p(1), of "\<lambda>p. pe_deliveryCount p + 1" "[]"] by simp
    moreover have "P (se_id e) = Some (pe_deliveryCount p)" "P' (se_id e) = Some (pe_deliveryCount p + 1)"
      using claim e p ps(2) by (auto simp: claimed_as_def)
    moreover from this(1) have "n (se_id e) \<le> pe_deliveryCount p \<and> pe_deliveryCount p < M"
      using budget by (simp add: has_budget_def)
    ultimately show ?thesis by simp
  qed
  moreover have "n i \<le> c \<and> c < M" if "i \<notin> se_id ` set es" "P' i = Some c" for i c
  proof -
    have "P i = Some c"
      using claim that by (auto simp: claimed_as_def)
    then show ?thesis
      using budget by (simp add: has_budget_def)
  qed
  ultimately show ?thesis
    using claim by (auto simp: batch_fits_def claimed_as_def)
qed

lemmas fits_processEntries = fits_process_loop [where out = "EMPTY_OUTCOME\<lparr>to_read := if reclaimed then 0 else length entries,
    to_reclaimed := if reclaimed then length entries else 0\<rparr>" and reclaimed = reclaimed and entries = entries for reclaimed entries,
  folded processEntries_def]

lemma fits_tick:
  assumes "has_budget M P n" and opts: "wo_maxDeliveries opts = int M" and "0 < M"
  shows "fits M (runStreamTick decode malformed opts reclaim) P n"
proof -
  let ?read = "\<lambda>out. XReadGroup (wo_consumer opts) (nat (wo_batchSize opts)) (replied (\<lambda>entries.
    await (processEntries decode malformed opts [] False entries) (\<lambda>readOutcome. Finished (addOutcome out readOutcome))))"
  have read: "fits M (?read out) P n" if "has_budget M P n" for out P n
    unfolding fits.simps replied_def sum.case
    using that opts \<open>0 < M\<close> by (auto intro!: fits_processEntries batch_fits_read)
  show ?thesis
  proof (cases reclaim)
    case False
    then show ?thesis
      using read [OF assms(1)] by (simp add: runStreamTick_def)
  next
    case True
    have loop: "fits M (await (processEntries decode malformed opts counts True es) ?read) P
        (arrive (await (processEntries decode malformed opts counts True es) ?read) n)"
      if "batch_fits M counts es P n" for counts es P n
      by (rule fits_processEntries [OF that opts]) (simp add: read del: fits.simps)
    show ?thesis
      using assms(1) read [OF assms(1)] loop [OF batch_fits_claim [OF assms(1)]]
      by (auto simp: True runStreamTick_def reclaimStalled_def replied_def simp del: fits.simps(5))
  qed
qed

lemma starts_simps [simp]:
  "starts [] i = 0" "starts (ns @ ms) i = starts ns i + starts ms i" "starts [Published k j] i = 0"
  by (simp_all add: starts_def)

lemma starts_arrive: "starts (started a) i + n i = arrive a n i"
  by (cases a) (auto simp: starts_def started_def arrive_def)

lemma starts_advance: "advance ops iso8601 opts t inp a s = Some (a', s', ns) \<Longrightarrow> starts ns i = 0"
  by (cases a) (auto simp: starts_def Let_def deliveries_def filter_empty_conv split: if_splits sum.splits)

definition pend_counts :: "group_view \<Rightarrow> string \<Rightarrow> nat option" where
  "pend_counts v i = map_option pr_deliveryCount (gv_pend v i)"

context stream_port
begin

lemma advance_fits:
  assumes ok: "ok t s" and opts: "wo_key opts = key" "wo_group opts = grp"
    and fits: "fits M a (pend_counts (abs s)) n" and fresh: "\<forall>i \<in> gv_fresh (abs s). n i = 0"
    and adv: "advance ops iso8601 opts t inp a s = Some (a', s', ns)" and inp: "inp \<noteq> NotSent" "inp \<noteq> ReplyLost"
  shows "ok t s' \<and> used t s \<subseteq> used t s' \<and> gv_fresh (abs s') \<subseteq> gv_fresh (abs s) \<and>
    fits M a' (pend_counts (abs s')) (arrive a' n)"
proof (cases a)
  case (XPending m l k)
  obtain ps where ps: "sc_pendingEntries ops key grp m l None t s = Inr ps" "distinct (map pe_id ps)"
    "\<forall>p \<in> set ps. \<exists>h. gv_pend (abs s) (pe_id p) = Some h \<and> pe_deliveryCount p = pr_deliveryCount h \<and>
         m \<le> int t - int (pr_deliveredAt h)"
    using list_law [OF ok, of m l] by blast
  have "P (pe_id p) = Some (pe_deliveryCount p)" if "p \<in> set ps" "P = pend_counts (abs s)" for p P
    using ps(3) that by (auto simp: pend_counts_def)
  then show ?thesis
    using ok fits ps(1,2) adv inp XPending opts by (auto simp: perform_def split: input.splits)
next
  case (XClaim c m "is" k)
  obtain r s1 where result: "sc_claim ops key grp c m is t s = (r, s1)"
    by fastforce
  have d: "distinct is"
    using fits XClaim by simp
  obtain es where es: "r = Inr es" "distinct (map se_id es)" "se_id ` set es \<subseteq> set is \<inter> gv_ids (abs s)"
      "\<forall>e \<in> set es. \<exists>h. gv_pend (abs s) (se_id e) = Some h \<and> m \<le> int t - int (pr_deliveredAt h) \<and>
           gv_pend (abs s1) (se_id e) =
             Some \<lparr>pr_consumer = c, pr_deliveredAt = t, pr_deliveryCount = pr_deliveryCount h + 1\<rparr>"
      "\<forall>i. i \<notin> se_id ` set es \<longrightarrow> gv_pend (abs s1) i = gv_pend (abs s) i \<or>
           gv_pend (abs s1) i = None \<and> i \<notin> gv_ids (abs s)"
    using claim_law [OF ok d result] by (elim conjE exE) (rule that, assumption+)
  have "claimed_as is es (pend_counts (abs s)) (pend_counts (abs s1))"
    using es(2-5) unfolding claimed_as_def pend_counts_def by fastforce
  moreover have "a' = k (Inr es)" "s' = s1"
    using adv inp XClaim opts result es(1) by (auto simp: perform_def Let_def split: input.splits)
  ultimately show ?thesis
    using claim_law [OF ok d result] fits XClaim by auto
next
  case (XReadGroup c m k)
  obtain r s1 where result: "sc_readGroup ops key grp c m t s = (r, s1)"
    by fastforce
  obtain es where es: "r = Inr es" "distinct (map se_id es)" "se_id ` set es \<subseteq> gv_fresh (abs s)"
      "abs s1 = (abs s)\<lparr>gv_fresh := gv_fresh (abs s) - se_id ` set es,
          gv_pend := \<lambda>i. if i \<in> se_id ` set es
            then Some \<lparr>pr_consumer = c, pr_deliveredAt = t, pr_deliveryCount = 1\<rparr> else gv_pend (abs s) i\<rparr>"
    using read_law [OF ok result] by (elim conjE exE) (rule that, assumption+)
  have counts: "pend_counts (abs s1) = (\<lambda>i. if i \<in> se_id ` set es then Some 1 else pend_counts (abs s) i)"
    by (auto simp: pend_counts_def es(4))
  have "\<forall>e \<in> set es. n (se_id e) = 0"
    using es(3) fresh by auto
  moreover have "a' = k (Inr es)" "s' = s1"
    using adv inp XReadGroup opts result es(1) by (auto simp: perform_def Let_def split: input.splits)
  ultimately show ?thesis
    using read_law [OF ok result] fits XReadGroup es(2,4) counts by auto
next
  case (XAck "is" k)
  obtain r s1 where result: "sc_ack ops key grp is s = (r, s1)"
    by fastforce
  from ack_law [OF ok result] obtain x where x: "r = Inr x" "abs s1 = (abs s)\<lparr>gv_pend := gv_pend (abs s) |` (- set is)\<rparr>"
      "ok t s1" "used t s1 = used t s"
    by blast
  have "pend_counts (abs s1) = pend_counts (abs s) |` (- set is)"
    by (auto simp: pend_counts_def x(2) restrict_map_def)
  moreover have "a' = k (Inr x)" "s' = s1"
    using adv inp XAck opts result x(1) by (auto simp: perform_def Let_def split: input.splits)
  ultimately show ?thesis
    using fits XAck x by simp
next
  case (Handle e cx k)
  then show ?thesis
    using ok fits adv by auto
next
  case (OnPark p k)
  then obtain failure where f: "call_onPark ops iso8601 opts t inp p s = Some (failure, s')" "a' = k failure"
    using adv by auto
  then have "failure = None"
    using inp by (auto simp: call_onPark_def Let_def split: park_handler.splits if_splits)
  then show ?thesis
    using onPark_moves [OF ok opts(1) f(1)] fits OnPark f(2) by simp
qed (use adv in auto)

end

text \<open>One worker whose commands arrive and which does not die.\<close>

definition smooth :: "stream_event \<Rightarrow> bool" where
  "smooth e = (case e of Crash _ \<Rightarrow> False | Step _ _ inp \<Rightarrow> inp \<noteq> NotSent \<and> inp \<noteq> ReplyLost | _ \<Rightarrow> True)"

definition phase_fits :: "nat \<Rightarrow> group_view \<Rightarrow> stream_note list \<Rightarrow> 'e phase \<Rightarrow> bool" where
  "phase_fits M v notes ph =
     (case ph of Ticking a \<Rightarrow> fits M a (pend_counts v) (starts notes) | _ \<Rightarrow> has_budget M (pend_counts v) (starts notes))"

definition attempts_inv ::
  "(nat \<Rightarrow> 's \<Rightarrow> bool) \<Rightarrow> ('s \<Rightarrow> group_view) \<Rightarrow> (nat \<Rightarrow> 's \<Rightarrow> string set) \<Rightarrow> string \<Rightarrow> string \<Rightarrow> nat \<Rightarrow>
     ('s, 'e) stream_system \<Rightarrow> bool" where
  "attempts_inv ok view used key grp M st \<longleftrightarrow>
     ok (sy_clock st) (sy_store st) \<and>
     (\<exists>w. sy_workers st = [w] \<and> wo_key (wk_options w) = key \<and> wo_group (wk_options w) = grp \<and>
        wo_maxDeliveries (wk_options w) = int M \<and> phase_fits M (view (sy_store st)) (sy_notes st) (wk_phase w) \<and>
        (wk_running w \<or> wk_phase w \<in> {Stopped, Counting, Retiring})) \<and>
     (\<forall>i. starts (sy_notes st) i \<le> M) \<and>
     (\<forall>i. 0 < starts (sy_notes st) i \<longrightarrow> i \<in> used (sy_clock st) (sy_store st) \<and> i \<notin> gv_fresh (view (sy_store st)))"

lemma fits_settles:
  assumes "fits M a P n" and "wk_phase w = Ticking a"
  shows "case wk_phase (settle_tick x w) of Ticking a' \<Rightarrow> a' = a | _ \<Rightarrow> has_budget M P n"
  using assms by (cases a) (auto simp: settle_tick_def after_failure_def Let_def
      split: worker_error.splits stream_error.splits phase.splits)

lemma has_budget_fewer: "has_budget M P n \<Longrightarrow> (\<And>i c. Q i = Some c \<Longrightarrow> P i = Some c) \<Longrightarrow> has_budget M Q n"
  by (auto simp: has_budget_def)

lemma fits_arrived:
  "fits M a P n \<Longrightarrow> arrive a m i \<noteq> m i \<Longrightarrow> n i \<le> M \<and> P i \<noteq> None"
  by (cases a) (auto simp: arrive_def split: if_splits)

context stream_port
begin

lemma worker_step_fits:
  assumes ok: "ok t s" and opts: "wo_key (wk_options w) = key" "wo_group (wk_options w) = grp"
      "wo_maxDeliveries (wk_options w) = int M" "0 < M"
    and fits: "phase_fits M (abs s) notes (wk_phase w)" and fresh: "\<forall>i \<in> gv_fresh (abs s). starts notes i = 0"
    and inp: "inp \<noteq> NotSent" "inp \<noteq> ReplyLost"
    and step: "worker_step ops env t x inp w s = (w', s', ns)"
  shows "ok t s' \<and> used t s \<subseteq> used t s' \<and> gv_fresh (abs s') \<subseteq> gv_fresh (abs s) \<and> wk_options w' = wk_options w \<and>
    phase_fits M (abs s') (notes @ ns) (wk_phase w') \<and>
    (\<forall>i. starts ns i \<noteq> 0 \<longrightarrow> starts (notes @ ns) i \<le> M \<and> gv_pend (abs s') i \<noteq> None)"
proof (cases "wk_phase w")
  case Ensuring
  then show ?thesis
    using step ok fits ensureGroup_keeps [OF ok opts(1,2)]
    by (auto simp: worker_step_def phase_fits_def split: option.splits sum.splits)
next
  case Head
  then show ?thesis
    using step ok fits fits_tick [OF _ opts(3,4)]
    by (auto simp: worker_step_def phase_fits_def begin_tick_def split: if_splits)
next
  case (Ticking a)
  show ?thesis
  proof (cases "advance ops (su_iso8601 env) (wk_options w) t inp a s")
    case None
    then show ?thesis
      using step ok fits Ticking by (auto simp: worker_step_def)
  next
    case (Some res)
    obtain a' s1 ns' where res: "res = (a', s1, ns')"
      by (cases res)
    have "fits M a (pend_counts (abs s)) (starts notes)"
      using fits Ticking by (simp add: phase_fits_def)
    from advance_fits [OF ok opts(1,2) this fresh Some [unfolded res] inp]
    have adv: "ok t s1" "used t s \<subseteq> used t s1" "gv_fresh (abs s1) \<subseteq> gv_fresh (abs s)"
        "fits M a' (pend_counts (abs s1)) (arrive a' (starts notes))"
      by blast+
    have w': "w' = settle_tick x (w\<lparr>wk_phase := Ticking a'\<rparr>)" "s' = s1" "ns = ns' @ started a'"
      using step by (auto simp: worker_step_def Ticking Some res)
    have n: "starts (notes @ ns) = arrive a' (starts notes)" "starts ns i = starts (started a') i" for i
      using starts_arrive [of a' _ "starts notes"] starts_advance [OF Some [unfolded res]]
      by (auto simp: w'(3) fun_eq_iff add.commute)
    have "phase_fits M (abs s1) (notes @ ns) (wk_phase w')"
      using fits_settles [OF adv(4), of "w\<lparr>wk_phase := Ticking a'\<rparr>" x] adv(4) unfolding w'(1) phase_fits_def n(1)
      by (auto split: phase.splits)
    moreover have "starts (notes @ ns) i \<le> M \<and> gv_pend (abs s1) i \<noteq> None" if "starts ns i \<noteq> 0" for i
      using fits_arrived [OF adv(4), of "starts notes" i] starts_arrive [of a' i "starts notes"] that
      unfolding n by (auto simp: pend_counts_def)
    ultimately show ?thesis
      using adv(1-3) by (simp add: w'(1,2) settle_tick_phase(1))
  qed
next
  case Recreating
  then show ?thesis
    using step ok fits ensureGroup_keeps [OF ok opts(1,2)]
    by (auto simp: worker_step_def phase_fits_def after_failure_def Let_def split: option.splits sum.splits)
next
  case Retiring
  obtain n s1 where del: "sc_deleteConsumer ops key grp (wo_consumer (wk_options w)) s = (n, s1)"
    by fastforce
  have "has_budget M (pend_counts (abs s1)) (starts notes)"
    using fits Retiring delete_law [OF ok del]
    by (auto simp: phase_fits_def pend_counts_def split: option.splits if_splits elim!: has_budget_fewer)
  then show ?thesis
    using step ok fits Retiring delete_law [OF ok del] opts del inp
    by (auto simp: worker_step_def phase_fits_def Let_def split: if_splits)
qed (use step ok fits in \<open>auto simp: worker_step_def phase_fits_def Let_def split: if_splits\<close>)

end

lemma phase_fits_calls:
  assumes "phase_fits M v notes (wk_phase w)" "f \<in> {start, stop}" "wk_running w \<or> wk_phase w \<in> {Stopped, Counting, Retiring}"
  shows "phase_fits M v notes (wk_phase (f w)) \<and> wk_options (f w) = wk_options w \<and>
    (wk_running (f w) \<or> wk_phase (f w) \<in> {Stopped, Counting, Retiring})"
  using assms by (cases "wk_phase w"; cases "wk_running w") (auto simp: phase_fits_def start_def stop_def)

lemma running_simps [simp]:
  "wk_running (after_failure x w) = wk_running w" "wk_running (settle_tick x w) = wk_running w"
  by (auto simp: settle_tick_def after_failure_def Let_def
      split: phase.splits activity.splits worker_error.splits stream_error.splits)

lemma worker_step_running:
  assumes "worker_step ops env t x inp w s = (w', s', ns)" "wk_running w \<or> wk_phase w \<in> {Stopped, Counting, Retiring}"
  shows "wk_running w' \<or> wk_phase w' \<in> {Stopped, Counting, Retiring}"
  using assms by (cases "wk_phase w")
    (auto simp: worker_step_def begin_tick_def Let_def split: option.splits sum.splits if_splits)

context stream_port
begin

lemma attempts_step:
  assumes inv: "attempts_inv ok abs used key grp M st" and "0 < M" "inp \<noteq> NotSent" "inp \<noteq> ReplyLost"
  shows "attempts_inv ok abs used key grp M (stream_do ops env (Step j x inp) st)"
proof (cases "j = 0")
  case True
  let ?n = "starts (sy_notes st)" and ?t = "sy_clock st" and ?s = "sy_store st"
  obtain w where w: "sy_workers st = [w]" and opts: "wo_key (wk_options w) = key" "wo_group (wk_options w) = grp"
      "wo_maxDeliveries (wk_options w) = int M"
    and fits: "phase_fits M (abs ?s) (sy_notes st) (wk_phase w)"
    and rest: "wk_running w \<or> wk_phase w \<in> {Stopped, Counting, Retiring}"
    using inv by (auto simp: attempts_inv_def)
  have ok: "ok ?t ?s" and bound: "\<And>i. ?n i \<le> M" and used: "\<And>i. 0 < ?n i \<Longrightarrow> i \<in> used ?t ?s \<and> i \<notin> gv_fresh (abs ?s)"
    using inv by (auto simp: attempts_inv_def)
  obtain w' s' ns where step: "worker_step ops env ?t x inp w ?s = (w', s', ns)"
    by (metis prod_cases3)
  have "\<forall>i \<in> gv_fresh (abs ?s). ?n i = 0"
    using used by blast
  from worker_step_fits [OF ok opts assms(2) fits this assms(3,4) step]
  have new: "ok ?t s'" "used ?t ?s \<subseteq> used ?t s'" "gv_fresh (abs s') \<subseteq> gv_fresh (abs ?s)" "wk_options w' = wk_options w"
      "phase_fits M (abs s') (sy_notes st @ ns) (wk_phase w')"
      "\<And>i. starts ns i \<noteq> 0 \<Longrightarrow> starts (sy_notes st @ ns) i \<le> M \<and> gv_pend (abs s') i \<noteq> None"
    by blast+
  have "starts (sy_notes st @ ns) i \<le> M" for i
    using new(6) [of i] bound [of i] by (cases "starts ns i = 0") auto
  moreover have "i \<in> used ?t s' \<and> i \<notin> gv_fresh (abs s')" if "0 < starts (sy_notes st @ ns) i" for i
  proof (cases "starts ns i = 0")
    case True
    then show ?thesis
      using that used [of i] new(2,3) by auto
  next
    case False
    then show ?thesis
      using new(6) [of i] seen_used [OF new(1)] by blast
  qed
  ultimately show ?thesis
    using new(1,4,5) opts worker_step_running [OF step rest] by (auto simp: attempts_inv_def True w step)
next
  case False
  then show ?thesis
    using inv by (auto simp: attempts_inv_def)
qed

lemma attempts_publish:
  assumes inv: "attempts_inv ok abs used key grp M st"
  shows "attempts_inv ok abs used key grp M (stream_do ops env (Publish k flds cap) st)"
proof -
  obtain i s' where app: "sc_append ops k flds (Some cap) (sy_clock st) (sy_store st) = (i, s')"
    by fastforce
  have eq: "stream_do ops env (Publish k flds cap) st = st\<lparr>sy_store := s', sy_notes := sy_notes st @ [Published k i]\<rparr>"
    by (simp add: app)
  have ok: "ok (sy_clock st) (sy_store st)"
    using inv by (simp add: attempts_inv_def)
  have view: "pend_counts (abs s') = pend_counts (abs (sy_store st))" "ok (sy_clock st) s'"
      "used (sy_clock st) (sy_store st) \<subseteq> used (sy_clock st) s'"
      "gv_fresh (abs s') \<inter> used (sy_clock st) (sy_store st) \<subseteq> gv_fresh (abs (sy_store st))"
    using append_law [OF ok, of flds "Some cap" i s'] append_other [OF ok _ app] app
    by (cases "k = key"; auto simp: pend_counts_def fun_eq_iff)+
  have same: "starts (sy_notes st @ [Published k i]) = starts (sy_notes st)"
    by (simp add: fun_eq_iff)
  have "phase_fits M (abs s') (sy_notes st @ [Published k i]) ph = phase_fits M (abs (sy_store st)) (sy_notes st) ph"
    for ph :: "'b phase"
    unfolding phase_fits_def view(1) same ..
  then show ?thesis
    using inv view(2-4) unfolding attempts_inv_def eq by (auto simp: same)
qed

lemma attempts_keeps:
  assumes inv: "attempts_inv ok abs used key grp M st" and "0 < M" and e: "smooth e"
  shows "attempts_inv ok abs used key grp M (stream_do ops env e st)"
proof -
  have calls: "attempts_inv ok abs used key grp M (on_worker i f st)" if "f \<in> {start, stop}" for i f
    using inv phase_fits_calls [OF _ that] by (auto simp: attempts_inv_def on_worker_def)
  show ?thesis
  proof (cases e)
    case (Publish k flds cap)
    then show ?thesis using attempts_publish [OF inv] by blast
  next
    case (Advance d)
    then show ?thesis
      using later [of "sy_clock st" "sy_store st" "sy_clock st + d"] inv by (auto simp: attempts_inv_def)
  next
    case (Step i x inp)
    then show ?thesis using attempts_step [OF inv \<open>0 < M\<close>] e by (simp add: smooth_def del: stream_do.simps)
  qed (use calls e in \<open>auto simp: smooth_def\<close>)
qed

end

lemma attempts_run:
  assumes "attempts_inv (streams_ok key grp) (group_abs key grp) assigned key grp M st" "0 < M" "list_all smooth es"
  shows "attempts_inv (streams_ok key grp) (group_abs key grp) assigned key grp M (fold (stream_do memory_commands env) es st)"
  using assms by (induction es arbitrary: st) (simp_all add: memory_port.attempts_keeps)

section \<open>Fresh groups\<close>

text \<open>A group on an empty stream and its workers, none of them running.\<close>

definition fresh_group :: "string \<Rightarrow> string \<Rightarrow> group_start \<Rightarrow> nat \<Rightarrow> 'e worker list \<Rightarrow> (memory_streams, 'e) stream_system" where
  "fresh_group key grp from t ws =
     \<lparr>sy_store = snd (createGroup key grp from True empty_streams), sy_clock = t, sy_workers = ws, sy_notes = []\<rparr>"

lemma fresh_group_ok:
  "streams_ok key grp t (snd (createGroup key grp from True empty_streams)) \<and>
   group_abs key grp (snd (createGroup key grp from True empty_streams)) =
     \<lparr>gv_ids = {}, gv_fresh = {}, gv_pend = Map.empty\<rparr>"
  by (cases "from") (simp_all add: createGroup_def empty_streams_def groups_of_def group_of_def stream_of_def put_group_def
      streams_ok_def group_wf_def stream_ids_def group_abs_def fresh_ids_def pending_of_def Let_def)

definition serves_group :: "string \<Rightarrow> string \<Rightarrow> given_options \<Rightarrow> bool" where
  "serves_group key grp given \<longleftrightarrow> go_key given = key \<and> go_group given = grp \<and> resolveOptions given \<noteq> None"

definition new_worker :: "given_options \<Rightarrow> 'e worker" where
  "new_worker given = the (createStreamWorker given)"

lemma new_worker_simps:
  assumes "serves_group key grp given"
  shows "wk_options (new_worker given) = apply_defaults given" "wk_phase (new_worker given) = Stopped"
    "wk_running (new_worker given) = False" "wo_key (apply_defaults given) = key" "wo_group (apply_defaults given) = grp"
    "wo_consumer (apply_defaults given) = go_consumer given" "0 < wo_maxDeliveries (apply_defaults given)"
proof -
  have "resolveOptions given = Some (apply_defaults given) \<and> 0 < wo_maxDeliveries (apply_defaults given)"
    using assms by (auto simp: serves_group_def resolveOptions_def Let_def split: if_splits)
  then show "wk_options (new_worker given) = apply_defaults given" "wk_phase (new_worker given) = Stopped"
    "wk_running (new_worker given) = False" "0 < wo_maxDeliveries (apply_defaults given)"
    by (simp_all add: new_worker_def createStreamWorker_def)
qed (use assms in \<open>simp_all add: serves_group_def apply_defaults_def\<close>)

lemma new_worker_ok:
  "serves_group key grp given \<Longrightarrow> worker_guarded key grp S (new_worker given)"
  "serves_group key grp given \<Longrightarrow> retires_empty v (new_worker given)"
  by (simp_all add: worker_guarded_def retires_empty_def new_worker_simps [of key grp given])

lemma new_worker_names:
  "list_all (serves_group key grp) givens \<Longrightarrow>
     map (\<lambda>g. wo_consumer (wk_options (new_worker g))) givens = map go_consumer givens"
  by (auto simp: list_all_iff new_worker_simps [of key grp])

section \<open>An entry that kills its consumer\<close>

lemma starts_Cons [simp]:
  "starts (Started j m # ns) i = (if j = i then 1 else 0) + starts ns i"
  "starts (Delivery j # ns) i = starts ns i"
  by (simp_all add: starts_def)

lemma createGroup_exists:
  assumes "js_get (ms_streams s) key \<noteq> None" "group_of s key grp = Some g"
  shows "\<exists>s'. createGroup key grp from mk s = (Inr Exists, s') \<and> ms_streams s' = ms_streams s \<and> group_of s' key grp = Some g"
  using assms by (auto simp: createGroup_def group_of_def groups_of_def Let_def)

text \<open>The process starts, goes to the handler of the entry, and dies in it; then the entry becomes idle.\<close>

definition killed_in_handler :: "nat \<Rightarrow> stream_event list" where
  "killed_in_handler idle =
     [Start 0, Step 0 0 Delivered, Step 0 0 Awake, Step 0 0 Delivered, Step 0 0 Delivered, Crash 0, Advance idle]"

definition poisoned :: "string \<Rightarrow> string \<Rightarrow> given_options \<Rightarrow> stream_entry \<Rightarrow> nat \<Rightarrow> nat \<Rightarrow> (memory_streams, 'e) stream_system \<Rightarrow> bool" where
  "poisoned key grp given entry idle n st \<longleftrightarrow>
     sy_workers st = [new_worker given] \<and> js_get (ms_streams (sy_store st)) key = Some [entry] \<and>
     (\<exists>g. group_of (sy_store st) key grp = Some g \<and>
        (if n = 0 then gr_cursor g = [] \<and> gr_pending g = []
         else gr_cursor g = se_id entry \<and>
           (\<exists>r. gr_pending g = [(se_id entry, r)] \<and> pr_deliveryCount r = n \<and> pr_deliveredAt r + idle \<le> sy_clock st))) \<and>
     starts (sy_notes st) (se_id entry) = n \<and> (\<forall>p. Parked p \<notin> set (sy_notes st))"

lemma crash_new_worker: "serves_group key grp given \<Longrightarrow> wk_options w = apply_defaults given \<Longrightarrow> crash w = new_worker given"
  by (auto simp: crash_def new_worker_def createStreamWorker_def serves_group_def resolveOptions_def Let_def split: if_splits)

lemma killed_again:
  assumes serves: "serves_group key grp given" and st: "poisoned key grp given entry idle n st"
    and idle: "wo_minIdleMs (apply_defaults given) \<le> int idle" and "su_decode env entry = Some e"
  shows "poisoned key grp given entry idle (Suc n) (fold (stream_do memory_commands env) (killed_in_handler idle) st)"
proof -
  let ?o = "apply_defaults given"
  obtain g where w: "sy_workers st = [new_worker given]" and s: "js_get (ms_streams (sy_store st)) key = Some [entry]"
    and g: "group_of (sy_store st) key grp = Some g"
    and pend: "if n = 0 then gr_cursor g = [] \<and> gr_pending g = []
         else gr_cursor g = se_id entry \<and>
           (\<exists>r. gr_pending g = [(se_id entry, r)] \<and> pr_deliveryCount r = n \<and> pr_deliveredAt r + idle \<le> sy_clock st)"
    and past: "starts (sy_notes st) (se_id entry) = n" "\<And>p. Parked p \<notin> set (sy_notes st)"
    using st unfolding poisoned_def by blast
  obtain s1 where s1: "createGroup key grp FromEnd True (sy_store st) = (Inr Exists, s1)"
      "ms_streams s1 = ms_streams (sy_store st)" "group_of s1 key grp = Some g"
    using createGroup_exists [of "sy_store st" key grp g FromEnd True] s g by auto
  have nw: "new_worker given = \<lparr>wk_options = ?o, wk_running = False, wk_stopping = False, wk_phase = Stopped,
      wk_lastReclaimAt = None, wk_failures = 0\<rparr>"
    using serves by (auto simp: new_worker_def createStreamWorker_def serves_group_def resolveOptions_def Let_def split: if_splits)
  note opts = new_worker_simps(4,5) [OF serves]
  note run = killed_in_handler_def w nw on_worker_def start_def worker_step_def ensureGroup_def perform_def s1 begin_tick_def
    should_reclaim_def opts runStreamTick_def reclaimStalled_def replied_def settle_tick_def
    crash_def started_def pendingEntries_def readGroup_def claim_def stream_of_def s assms(4) Let_def processEntries_def
  have batch: "0 < nat (wo_batchSize ?o)" "0 < nat (wo_claimBatchSize ?o)"
    using serves by (auto simp: serves_group_def resolveOptions_def Let_def split: if_splits)
  show ?thesis
  proof (cases "n = 0")
    case True
    then have g0: "gr_cursor g = []" "gr_pending g = []"
      using pend by simp_all
    show ?thesis
      using batch past True by (simp add: run g0 poisoned_def deliveries_def)
  next
    case False
    then obtain r where r: "gr_cursor g = se_id entry" "gr_pending g = [(se_id entry, r)]" "pr_deliveryCount r = n" "pr_deliveredAt r + idle \<le> sy_clock st"
      using pend by auto
    have due: "\<not> int (sy_clock st) - int (pr_deliveredAt r) < wo_minIdleMs ?o"
      using r(4) idle by linarith
    show ?thesis
      using batch past False by (simp add: run r(1,2) due poisoned_def deliveries_def r(3) [symmetric])
  qed
qed

section \<open>Examples\<close>

definition example_env :: "unit surroundings" where
  "example_env = \<lparr>su_decode = (\<lambda>e. if se_fields e = [] then None else Some ()), su_malformed = (\<lambda>e. ''no fields''), su_iso8601 = (\<lambda>t. [])\<rparr>"

definition default_options :: "string \<Rightarrow> given_options" where
  "default_options consumer =
     \<lparr>go_key = ''k'', go_group = ''g'', go_consumer = consumer, go_onPark = None, go_batchSize = None, go_blockMs = None,
      go_handlerTimeoutMs = None, go_minIdleMs = None, go_maxDeliveries = None, go_claimBatchSize = None,
      go_reclaimIntervalMs = None, go_errorBackoffMs = None, go_maxErrorBackoffMs = None\<rparr>"

definition handling :: "'e worker \<Rightarrow> string option" where
  "handling w = (case wk_phase w of Ticking (Handle e cx k) \<Rightarrow> Some (cx_entryId cx) | _ \<Rightarrow> None)"

text \<open>
  Four entries are read as one batch, each handler takes 9.9 of the 10 seconds it has, and a second
  worker starts while the fourth is being handled.
\<close>

definition slow_batch :: "stream_event list" where
  "slow_batch =
     replicate 4 (Publish ''k'' [(''id'', ''x'')] 100) @
     [Start 0, Step 0 0 Delivered, Step 0 0 Awake, Step 0 0 Delivered, Step 0 0 Delivered] @
     concat (replicate 3 [Advance 9900, Step 0 0 HandlerResolves, Step 0 0 Delivered]) @
     [Start 1, Step 1 0 Delivered, Advance 300, Step 1 0 Awake, Step 1 0 Delivered, Step 1 0 Delivered]"

text \<open>A worker reads three entries, handles one, parks the one that does not decode and dies in the third.\<close>

definition dies_in_batch :: "stream_event list" where
  "dies_in_batch =
     [Publish ''k'' [(''id'', ''x'')] 100, Publish ''k'' [] 100, Publish ''k'' [(''id'', ''y'')] 100,
      Start 0, Step 0 0 Delivered, Step 0 0 Awake, Step 0 0 Delivered, Step 0 0 Delivered,
      Step 0 0 HandlerResolves, Step 0 0 Delivered, Step 0 0 Delivered, Step 0 0 Delivered, Crash 0]"

text \<open>A handler that rejects at every attempt.\<close>

definition always_fails :: "stream_event list" where
  "always_fails =
     [Publish ''k'' [(''id'', ''x'')] 100, Start 0, Step 0 0 Delivered] @
     concat (replicate 8 [Step 0 0 Awake, Step 0 0 Delivered, Step 0 0 Delivered, Step 0 0 (HandlerRejects ''e''),
        Step 0 0 Delivered, Step 0 0 Delivered, Step 0 0 Delivered, Advance 30000])"

section \<open>Properties\<close>

text \<open>
  C3: No entry is lost. Workers with distinct consumer names serve a group; entries are published,
  workers start, stop and die, and their commands, handlers and park hooks succeed or fail, in any
  order. Whatever was published is then still to be delivered, or pending, or its handler has
  resolved, or it was parked, unless the length cap has evicted it from the stream.
\<close>

theorem no_entry_is_lost:
  assumes "list_all (serves_group key grp) givens" and "distinct (map go_consumer givens)"
    and "st = fold (stream_do memory_commands env) es (fresh_group key grp from t (map new_worker givens))"
    and "Published key i \<in> set (sy_notes st)"
  shows "i \<in> fresh_ids key grp (sy_store st) \<or> pending_of key grp (sy_store st) i \<noteq> None \<or>
    Handled i \<in> set (sy_notes st) \<or> (\<exists>p. Parked p \<in> set (sy_notes st) \<and> se_id (pk_entry p) = i) \<or>
    i \<notin> stream_ids key (sy_store st)"
proof -
  have "group_inv (streams_ok key grp) (group_abs key grp) key grp {} (fresh_group key grp from t (map new_worker givens))"
    using fresh_group_ok [of key grp t "from"] assms(1,2)
    by (auto simp: group_inv_def fresh_group_def comp_def new_worker_names [OF assms(1)] list_all_iff
        simp del: map_eq_conv intro: new_worker_ok)
  from stream_group.run_keeps [OF this, of env es] show ?thesis
    using assms(4) unfolding assms(3) [symmetric] group_inv_def by (auto simp: group_abs_def settled_def)
qed

theorem no_entry_is_lost_witness:
  "let st = fold (stream_do memory_commands example_env) dies_in_batch (fresh_group ''k'' ''g'' FromEnd 0 [new_worker (default_options ''a'')])
   in Published ''k'' (entry_id 0 3) \<in> set (sy_notes st) \<and> Handled (entry_id 0 3) \<notin> set (sy_notes st) \<and>
      length (filter (\<lambda>x. case x of Parked _ \<Rightarrow> True | _ \<Rightarrow> False) (sy_notes st)) = 1 \<and>
      (entry_id 0 3 \<in> fresh_ids ''k'' ''g'' (sy_store st) \<or> pending_of ''k'' ''g'' (sy_store st) (entry_id 0 3) \<noteq> None \<or>
       Handled (entry_id 0 3) \<in> set (sy_notes st) \<or> (\<exists>p. Parked p \<in> set (sy_notes st) \<and> se_id (pk_entry p) = entry_id 0 3) \<or>
       entry_id 0 3 \<notin> stream_ids ''k'' (sy_store st))"
proof -
  let ?st = "fold (stream_do memory_commands example_env) dies_in_batch
    (fresh_group ''k'' ''g'' FromEnd 0 (map new_worker [default_options ''a'']))"
  have serves: "list_all (serves_group ''k'' ''g'') [default_options ''a'']" by code_simp
  have names: "distinct (map go_consumer [default_options ''a''])" by code_simp
  have published: "Published ''k'' (entry_id 0 3) \<in> set (sy_notes ?st)" by code_simp
  have left: "Handled (entry_id 0 3) \<notin> set (sy_notes ?st)"
    "length (filter (\<lambda>x. case x of Parked _ \<Rightarrow> True | _ \<Rightarrow> False) (sy_notes ?st)) = 1"
    by code_simp+
  show ?thesis
    using no_entry_is_lost [OF serves names refl published] published left by (simp add: Let_def)
qed

text \<open>
  C15: The delivery ceiling. One worker serves the group, its commands arrive, parking succeeds and
  the process does not die. Then the handler of an entry is called at most \<open>maxDeliveries\<close> times,
  however often it fails.
\<close>

theorem attempts_are_bounded:
  assumes "serves_group key grp given" and "list_all smooth es"
    and "st = fold (stream_do memory_commands env) es (fresh_group key grp from t [new_worker given])"
  shows "int (starts (sy_notes st) i) \<le> wo_maxDeliveries (apply_defaults given)"
proof -
  let ?M = "nat (wo_maxDeliveries (apply_defaults given))"
  have M: "0 < ?M" "int ?M = wo_maxDeliveries (apply_defaults given)"
    using new_worker_simps(7) [OF assms(1)] by simp_all
  have "attempts_inv (streams_ok key grp) (group_abs key grp) assigned key grp ?M (fresh_group key grp from t [new_worker given])"
    using fresh_group_ok [of key grp t "from"] M
    by (simp add: attempts_inv_def fresh_group_def phase_fits_def has_budget_def pend_counts_def new_worker_simps [OF assms(1)])
  from attempts_run [OF this M(1) assms(2), of env] have "starts (sy_notes st) i \<le> ?M"
    unfolding assms(3) [symmetric] attempts_inv_def by blast
  then show ?thesis
    using M by linarith
qed

theorem attempts_are_bounded_witness:
  "let st = fold (stream_do memory_commands example_env) always_fails (fresh_group ''k'' ''g'' FromEnd 0 [new_worker (default_options ''a'')])
   in starts (sy_notes st) (entry_id 0 1) = 5 \<and> int (starts (sy_notes st) (entry_id 0 1)) \<le> DEFAULT_MAX_DELIVERIES"
proof -
  let ?st = "fold (stream_do memory_commands example_env) always_fails (fresh_group ''k'' ''g'' FromEnd 0 [new_worker (default_options ''a'')])"
  have serves: "serves_group ''k'' ''g'' (default_options ''a'')" by code_simp
  have fair: "list_all smooth always_fails" by code_simp
  have five: "starts (sy_notes ?st) (entry_id 0 1) = 5" by code_simp
  have "wo_maxDeliveries (apply_defaults (default_options ''a'')) = DEFAULT_MAX_DELIVERIES" by code_simp
  then show ?thesis
    using attempts_are_bounded [OF serves fair refl, of example_env FromEnd 0 "entry_id 0 1"] five by (simp add: Let_def)
qed

text \<open>
  C39: An entry whose handler kills the process is never parked. The delivery count is compared with
  the ceiling only after the handler has failed, so with any ceiling, and for every number \<open>n\<close>, \<open>n\<close>
  processes in a row can claim such an entry, call its handler and die.
\<close>

theorem killing_entry_is_never_parked:
  assumes "serves_group key grp given" and "0 < cap" and "wo_minIdleMs (apply_defaults given) \<le> int idle"
    and "su_decode env \<lparr>se_id = entry_id t 1, se_fields = flds\<rparr> \<noteq> None"
    and "st = fold (stream_do memory_commands env) (Publish key flds cap # concat (replicate n (killed_in_handler idle)))
      (fresh_group key grp from t [new_worker given])"
  shows "starts (sy_notes st) (entry_id t 1) = n \<and> (\<forall>p. Parked p \<notin> set (sy_notes st))"
proof -
  let ?entry = "\<lparr>se_id = entry_id t 1, se_fields = flds\<rparr>"
  obtain e where e: "su_decode env ?entry = Some e"
    using assms(4) by blast
  let ?st = "stream_do memory_commands env (Publish key flds cap) (fresh_group key grp from t [new_worker given])"
  have start: "poisoned key grp given ?entry idle 0 ?st"
    using assms(2) by (cases "from") (simp_all add: poisoned_def fresh_group_def createGroup_def empty_streams_def groups_of_def group_of_def
        stream_of_def put_group_def append_entry_def Let_def starts_def)
  have "poisoned key grp given ?entry idle n (fold (stream_do memory_commands env) (concat (replicate n (killed_in_handler idle))) ?st)"
  proof (induction n)
    case (Suc n)
    then show ?case
      using killed_again [OF assms(1) Suc assms(3) e] by (simp add: replicate_append_same [symmetric])
  qed (use start in simp)
  then show ?thesis
    unfolding assms(5) poisoned_def by simp
qed

theorem killing_entry_is_never_parked_witness:
  "let st = fold (stream_do memory_commands example_env)
        (Publish ''k'' [(''id'', ''x'')] 100 # concat (replicate 1000 (killed_in_handler 30000)))
        (fresh_group ''k'' ''g'' FromEnd 0 [new_worker (default_options ''a'')])
   in starts (sy_notes st) (entry_id 0 1) = 1000 \<and> (\<forall>p. Parked p \<notin> set (sy_notes st))"
proof -
  have serves: "serves_group ''k'' ''g'' (default_options ''a'')" by code_simp
  have idle: "wo_minIdleMs (apply_defaults (default_options ''a'')) \<le> int 30000" by code_simp
  have decodes: "su_decode example_env \<lparr>se_id = entry_id 0 1, se_fields = [(''id'', ''x'')]\<rparr> \<noteq> None"
    by (simp add: example_env_def)
  show ?thesis
    unfolding Let_def by (rule killing_entry_is_never_parked [OF serves _ idle decodes refl]) simp
qed

text \<open>
  With the default options two workers handle one entry at the same time although nothing has
  failed: no command, no process, no handler, and none has exceeded its time. The idle clock of an
  entry starts when its batch is read, not when its handler is called, so the last of four slow
  entries can be claimed while it is being handled.
\<close>

lemma slow_batch_runs_an_entry_twice:
  "list_all smooth slow_batch \<and>
   map handling (sy_workers (fold (stream_do memory_commands example_env) slow_batch
     (fresh_group ''k'' ''g'' FromEnd 0 (map new_worker [default_options ''a'', default_options ''b''])))) =
     [Some (entry_id 0 4), Some (entry_id 0 4)]"
  by (intro conjI; code_simp)

end
