(* ===== verification/Http_Client.thy ===== *)
theory Http_Client
  imports Circuit_Breaker Bulkhead
begin

text \<open>
  One dependency's outbound HTTP (\<open>src/resilience/http-client.ts\<close>, \<open>src/resilience/deadlines.ts\<close>,
  \<open>src/resilience/dependency-client.ts\<close>): the configuration and its checks, the confinement to the base
  URL, the deadlines of an attempt, and the retry ladder with the circuit breaker inside it. The ladder
  is cut at its awaits: a \<open>stage\<close> is what a call waits for, and one definition runs it from each await
  to the next. Millisecond counts, byte counts and attempt counts are integers. Timers fire exactly
  when they are due. The parsing of URLs and of \<open>Retry-After\<close> dates are parameters.
\<close>

section \<open>Data\<close>

record retry_policy =
  rp_attempts :: int
  rp_baseDelayMs :: int
  rp_maxDelayMs :: int
  rp_maxRetryAfterMs :: int
  rp_retryNonIdempotent :: bool
  rp_drainBytes :: int

definition DEFAULT_RETRY_POLICY :: retry_policy where
  "DEFAULT_RETRY_POLICY = \<lparr>rp_attempts = 3, rp_baseDelayMs = 100, rp_maxDelayMs = 2000,
     rp_maxRetryAfterMs = 20000, rp_retryNonIdempotent = False, rp_drainBytes = 64 * 1024\<rparr>"

text \<open>A \<open>Partial\<close> of it: a property that is absent leaves the one underneath.\<close>

record retry_override =
  ro_attempts :: "int option"
  ro_baseDelayMs :: "int option"
  ro_maxDelayMs :: "int option"
  ro_maxRetryAfterMs :: "int option"
  ro_retryNonIdempotent :: "bool option"
  ro_drainBytes :: "int option"

definition default_to :: "'a \<Rightarrow> 'a option \<Rightarrow> 'a" where
  "default_to d given = (case given of None \<Rightarrow> d | Some v \<Rightarrow> v)"

definition spread_policy :: "retry_policy \<Rightarrow> retry_override \<Rightarrow> retry_policy" where
  "spread_policy p ov =
     \<lparr>rp_attempts = default_to (rp_attempts p) (ro_attempts ov),
      rp_baseDelayMs = default_to (rp_baseDelayMs p) (ro_baseDelayMs ov),
      rp_maxDelayMs = default_to (rp_maxDelayMs p) (ro_maxDelayMs ov),
      rp_maxRetryAfterMs = default_to (rp_maxRetryAfterMs p) (ro_maxRetryAfterMs ov),
      rp_retryNonIdempotent = default_to (rp_retryNonIdempotent p) (ro_retryNonIdempotent ov),
      rp_drainBytes = default_to (rp_drainBytes p) (ro_drainBytes ov)\<rparr>"

datatype deadline_phase = RequestPhase | HeadersPhase | BodyPhase

text \<open>What \<open>fetch\<close> rejects with: a \<open>TypeError\<close> with or without a cause, a deadline, anything else.\<close>

datatype fetch_error = Type_error bool | DependencyTimeout deadline_phase int | Fault string

datatype client_error =
    Range_error string
  | OutboundUrlNotAllowed
  | Invalid_base_url
  | CircuitOpenError int
  | Abort_error
  | Fetch_error fetch_error
  | Settled_twice
  | No_response
  | BulkheadFull acquire_result
  | Queue_timeout int

text \<open>
  A response body as a reader that asks for each chunk at once sees it: the wait before each chunk and
  its length, and how the stream goes on after the last one.
\<close>

datatype body_end = Ends_after int | Breaks_after int fetch_error | Stalls

record response_body =
  bd_chunks :: "(int \<times> int) list"
  bd_end :: body_end
  bd_used :: bool

record http_response =
  hr_status :: int
  hr_headers :: "(string \<times> string) list"
  hr_url :: string
  hr_redirected :: bool
  hr_body :: "response_body option"

datatype request_body = NoBody | TextBody string | StreamBody | AsyncIterableBody | RereadableBody

record http_init =
  in_method :: "string option"
  in_headers :: "(string \<times> string) list option"
  in_body :: request_body
  in_retry :: "retry_override option"
  in_timeoutMs :: "int option"
  in_headersTimeoutMs :: "int option"
  in_bodyIdleTimeoutMs :: "int option"

record url =
  url_protocol :: string
  url_host :: string
  url_pathname :: string
  url_search :: string

datatype address = Given string | Resolved url

section \<open>Classification\<close>

record response_outcome =
  ou_dependencyFailure :: bool
  ou_retryable :: bool

definition classifyResponse :: "int \<Rightarrow> response_outcome" where
  "classifyResponse status =
     (if status < 400 then \<lparr>ou_dependencyFailure = False, ou_retryable = False\<rparr>
      else if status = 429 then \<lparr>ou_dependencyFailure = True, ou_retryable = True\<rparr>
      else if status = 408 then \<lparr>ou_dependencyFailure = True, ou_retryable = True\<rparr>
      else if status < 500 then \<lparr>ou_dependencyFailure = False, ou_retryable = False\<rparr>
      else if status = 501 then \<lparr>ou_dependencyFailure = False, ou_retryable = False\<rparr>
      else \<lparr>ou_dependencyFailure = True, ou_retryable = True\<rparr>)"

definition isRetryableTransportError :: "fetch_error \<Rightarrow> bool" where
  "isRetryableTransportError err = (case err of Type_error has_cause \<Rightarrow> has_cause | _ \<Rightarrow> True)"

definition isReplayableBody :: "request_body \<Rightarrow> bool" where
  "isReplayableBody body =
     (case body of NoBody \<Rightarrow> True | TextBody s \<Rightarrow> True | StreamBody \<Rightarrow> False | AsyncIterableBody \<Rightarrow> False
      | RereadableBody \<Rightarrow> True)"

text \<open>\<open>Headers.get\<close>: names compare without case, and the values of one name are combined.\<close>

definition headers_get :: "string \<Rightarrow> (string \<times> string) list \<Rightarrow> string option" where
  "headers_get name hs =
     (case filter (\<lambda>(k, v). toLowerCase k = toLowerCase name) hs of
        [] \<Rightarrow> None
      | found \<Rightarrow> Some (join '', '' (map snd found)))"

definition headerValue :: "http_init \<Rightarrow> string \<Rightarrow> string option" where
  "headerValue init name = (case in_headers init of None \<Rightarrow> None | Some hs \<Rightarrow> headers_get name hs)"

definition IDEMPOTENT_METHODS :: "string list" where
  "IDEMPOTENT_METHODS = [''GET'', ''HEAD'', ''OPTIONS'', ''TRACE'', ''PUT'', ''DELETE'']"

definition replayable :: "http_init \<Rightarrow> retry_policy \<Rightarrow> bool" where
  "replayable init policy =
     (if rp_attempts policy \<le> 1 then False
      else if \<not> isReplayableBody (in_body init) then False
      else if toUpperCase (default_to ''GET'' (in_method init)) \<in> set IDEMPOTENT_METHODS then True
      else if rp_retryNonIdempotent policy then True
      else headerValue init ''idempotency-key'' \<noteq> None)"

section \<open>Checks and the plan of a call\<close>

definition assertPolicy :: "retry_policy \<Rightarrow> string option" where
  "assertPolicy p =
     (if rp_attempts p < 1 then Some ''retry.attempts''
      else if rp_baseDelayMs p < 1 \<or> rp_maxDelayMs p < rp_baseDelayMs p then Some ''retry.maxDelayMs''
      else if rp_drainBytes p < 0 then Some ''retry.drainBytes''
      else None)"

definition assertDeadlines :: "int \<Rightarrow> int option \<Rightarrow> int option \<Rightarrow> string option" where
  "assertDeadlines requestMs headersMs bodyIdleMs =
     (if requestMs < 1 then Some ''timeoutMs''
      else if (case headersMs of None \<Rightarrow> False | Some ms \<Rightarrow> ms < 1 \<or> requestMs < ms) then Some ''headersTimeoutMs''
      else if (case bodyIdleMs of None \<Rightarrow> False | Some ms \<Rightarrow> ms < 1 \<or> requestMs < ms) then Some ''bodyIdleTimeoutMs''
      else None)"

definition inheritDeadline :: "int option \<Rightarrow> int \<Rightarrow> int option" where
  "inheritDeadline configured requestMs = map_option (\<lambda>ms. min ms requestMs) configured"

text \<open>
  \<open>directory\<close> is everything up to and including the last slash. The record of functions stands for
  the \<open>URL\<close> constructor, \<open>None\<close> where it throws.
\<close>

record url_parser =
  parse_url :: "string \<Rightarrow> url option"
  resolve_url :: "string \<Rightarrow> url \<Rightarrow> url option"

definition directory :: "string \<Rightarrow> string" where
  "directory pathname = rev (dropWhile (\<lambda>c. c \<noteq> CHR ''/'') (rev pathname))"

definition resolveWithinBase :: "url_parser \<Rightarrow> string \<Rightarrow> string \<Rightarrow> client_error + url" where
  "resolveWithinBase up baseUrl requested =
     (case parse_url up baseUrl of
        None \<Rightarrow> Inl Invalid_base_url
      | Some base \<Rightarrow>
          (case resolve_url up requested base of
             None \<Rightarrow> Inl OutboundUrlNotAllowed
           | Some resolved \<Rightarrow>
               let pre = directory (url_pathname base) in
               if url_protocol resolved \<noteq> url_protocol base \<or> url_host resolved \<noteq> url_host base
                  \<or> take (length pre) (url_pathname resolved) \<noteq> pre
               then Inl OutboundUrlNotAllowed else Inr resolved))"

record http_client =
  ht_baseUrl :: "string option"
  ht_timeoutMs :: int
  ht_headersTimeoutMs :: "int option"
  ht_bodyIdleTimeoutMs :: "int option"
  ht_policy :: retry_policy

text \<open>What \<open>attemptLadder\<close> has computed when its loop begins.\<close>

record call_plan =
  pl_policy :: retry_policy
  pl_deadlineMs :: int
  pl_headersMs :: "int option"
  pl_bodyIdleMs :: "int option"
  pl_url :: address
  pl_maxAttempts :: int

definition call_policy :: "http_client \<Rightarrow> http_init \<Rightarrow> retry_policy" where
  "call_policy c init =
     (case in_retry init of None \<Rightarrow> ht_policy c | Some perCall \<Rightarrow> spread_policy (ht_policy c) perCall)"

definition prepare :: "url_parser \<Rightarrow> http_client \<Rightarrow> string \<Rightarrow> http_init \<Rightarrow> client_error + call_plan" where
  "prepare up c input init =
     (let policy = call_policy c init;
          refused = (if in_retry init = None then None else assertPolicy policy);
          deadlineMs = default_to (ht_timeoutMs c) (in_timeoutMs init) in
      case refused of
        Some field \<Rightarrow> Inl (Range_error field)
      | None \<Rightarrow>
        (case assertDeadlines deadlineMs (in_headersTimeoutMs init) (in_bodyIdleTimeoutMs init) of
           Some field \<Rightarrow> Inl (Range_error field)
         | None \<Rightarrow>
           (case (case ht_baseUrl c of None \<Rightarrow> Inr (Given input)
                  | Some baseUrl \<Rightarrow> map_sum id Resolved (resolveWithinBase up baseUrl input)) of
              Inl err \<Rightarrow> Inl err
            | Inr url \<Rightarrow>
                Inr \<lparr>pl_policy = policy, pl_deadlineMs = deadlineMs,
                  pl_headersMs = (case in_headersTimeoutMs init of Some ms \<Rightarrow> Some ms
                    | None \<Rightarrow> inheritDeadline (ht_headersTimeoutMs c) deadlineMs),
                  pl_bodyIdleMs = (case in_bodyIdleTimeoutMs init of Some ms \<Rightarrow> Some ms
                    | None \<Rightarrow> inheritDeadline (ht_bodyIdleTimeoutMs c) deadlineMs),
                  pl_url = url,
                  pl_maxAttempts = (if replayable init policy then rp_attempts policy else 1)\<rparr>)))"

section \<open>Construction\<close>

record breaker_override =
  ov_windowMs :: "int option"
  ov_bucketCount :: "int option"
  ov_failureRateThreshold :: "rat option"
  ov_minimumThroughput :: "int option"
  ov_openMs :: "int option"
  ov_openJitterRatio :: "rat option"
  ov_halfOpenProbes :: "int option"
  ov_halfOpenSuccessThreshold :: "int option"

record bulkhead_override =
  ov_maxConcurrent :: "int option"
  ov_maxQueue :: "int option"
  ov_queueTimeoutMs :: "int option"

record client_options =
  op_baseUrl :: "string option"
  op_timeoutMs :: "int option"
  op_headersTimeoutMs :: "int option"
  op_bodyIdleTimeoutMs :: "int option"
  op_retry :: retry_override
  op_breaker :: breaker_override
  op_bulkhead :: bulkhead_override

text \<open>The options of the breaker: the client's defaults, and below them the breaker's own.\<close>

definition client_breaker_options :: "breaker_override \<Rightarrow> breaker_options" where
  "client_breaker_options ov =
     \<lparr>co_windowMs = default_to 10000 (ov_windowMs ov),
      co_bucketCount = default_to 10 (ov_bucketCount ov),
      co_failureRateThreshold = default_to (1/2) (ov_failureRateThreshold ov),
      co_minimumThroughput = default_to 20 (ov_minimumThroughput ov),
      co_openMs = default_to 30000 (ov_openMs ov),
      co_openJitterRatio = default_to (1/5) (ov_openJitterRatio ov),
      co_halfOpenProbes = default_to 1 (ov_halfOpenProbes ov),
      co_halfOpenSuccessThreshold = default_to 1 (ov_halfOpenSuccessThreshold ov)\<rparr>"

definition client_bulkhead :: "bulkhead_override \<Rightarrow> string + bulkhead" where
  "client_bulkhead ov =
     createBulkhead (default_to 32 (ov_maxConcurrent ov)) (default_to 64 (ov_maxQueue ov))
       (default_to 1000 (ov_queueTimeoutMs ov))"

definition createHttpClient :: "client_options \<Rightarrow> string + http_client \<times> breaker \<times> bulkhead" where
  "createHttpClient opt =
     (let timeoutMs = default_to 5000 (op_timeoutMs opt);
          clientPolicy = spread_policy DEFAULT_RETRY_POLICY (op_retry opt) in
      case assertPolicy clientPolicy of
        Some field \<Rightarrow> Inl field
      | None \<Rightarrow>
        (case assertDeadlines timeoutMs (op_headersTimeoutMs opt) (op_bodyIdleTimeoutMs opt) of
           Some field \<Rightarrow> Inl field
         | None \<Rightarrow>
           (case createCircuitBreaker (client_breaker_options (op_breaker opt)) of
              Inl field \<Rightarrow> Inl field
            | Inr breaker \<Rightarrow>
              (case client_bulkhead (op_bulkhead opt) of
                 Inl field \<Rightarrow> Inl field
               | Inr bulkhead \<Rightarrow>
                   Inr (\<lparr>ht_baseUrl = op_baseUrl opt, ht_timeoutMs = timeoutMs,
                         ht_headersTimeoutMs = op_headersTimeoutMs opt,
                         ht_bodyIdleTimeoutMs = op_bodyIdleTimeoutMs opt, ht_policy = clientPolicy\<rparr>,
                        breaker, bulkhead)))))"

text \<open>
  The variables of \<open>src/config/env.ts\<close> that configure a client, with what its schema demands of each
  and of each against the others.
\<close>

record http_client_env =
  HTTP_CLIENT_TIMEOUT_MS :: int
  HTTP_CLIENT_HEADERS_TIMEOUT_MS :: int
  HTTP_CLIENT_BODY_IDLE_TIMEOUT_MS :: int
  HTTP_CLIENT_BULKHEAD_MAX_CONCURRENT :: int
  HTTP_CLIENT_BULKHEAD_MAX_QUEUE :: int
  HTTP_CLIENT_BULKHEAD_QUEUE_TIMEOUT_MS :: int
  HTTP_CLIENT_RETRY_ATTEMPTS :: int
  HTTP_CLIENT_RETRY_BASE_DELAY_MS :: int
  HTTP_CLIENT_RETRY_MAX_DELAY_MS :: int
  HTTP_CLIENT_MAX_RETRY_AFTER_MS :: int
  HTTP_CLIENT_DRAIN_BYTES :: int
  HTTP_CLIENT_BREAKER_WINDOW_MS :: int
  HTTP_CLIENT_BREAKER_BUCKETS :: int
  HTTP_CLIENT_BREAKER_FAILURE_RATE :: rat
  HTTP_CLIENT_BREAKER_MIN_THROUGHPUT :: int
  HTTP_CLIENT_BREAKER_OPEN_MS :: int
  HTTP_CLIENT_BREAKER_HALF_OPEN_PROBES :: int
  HTTP_CLIENT_BREAKER_HALF_OPEN_SUCCESSES :: int

definition http_client_schema :: "http_client_env \<Rightarrow> bool" where
  "http_client_schema e \<longleftrightarrow>
     0 < HTTP_CLIENT_TIMEOUT_MS e \<and> 0 < HTTP_CLIENT_HEADERS_TIMEOUT_MS e
     \<and> 0 < HTTP_CLIENT_BODY_IDLE_TIMEOUT_MS e \<and> 0 < HTTP_CLIENT_BULKHEAD_MAX_CONCURRENT e
     \<and> 0 \<le> HTTP_CLIENT_BULKHEAD_MAX_QUEUE e \<and> 0 < HTTP_CLIENT_BULKHEAD_QUEUE_TIMEOUT_MS e
     \<and> 0 < HTTP_CLIENT_RETRY_ATTEMPTS e \<and> 0 < HTTP_CLIENT_RETRY_BASE_DELAY_MS e
     \<and> 0 < HTTP_CLIENT_RETRY_MAX_DELAY_MS e \<and> 0 < HTTP_CLIENT_MAX_RETRY_AFTER_MS e
     \<and> 0 \<le> HTTP_CLIENT_DRAIN_BYTES e
     \<and> 0 < HTTP_CLIENT_BREAKER_WINDOW_MS e \<and> 0 < HTTP_CLIENT_BREAKER_BUCKETS e
     \<and> 0 < HTTP_CLIENT_BREAKER_FAILURE_RATE e \<and> HTTP_CLIENT_BREAKER_FAILURE_RATE e \<le> 1
     \<and> 0 < HTTP_CLIENT_BREAKER_MIN_THROUGHPUT e \<and> 0 < HTTP_CLIENT_BREAKER_OPEN_MS e
     \<and> 0 < HTTP_CLIENT_BREAKER_HALF_OPEN_PROBES e \<and> 0 < HTTP_CLIENT_BREAKER_HALF_OPEN_SUCCESSES e"

definition http_client_refinement :: "http_client_env \<Rightarrow> bool" where
  "http_client_refinement e \<longleftrightarrow>
     \<not> HTTP_CLIENT_RETRY_MAX_DELAY_MS e < HTTP_CLIENT_RETRY_BASE_DELAY_MS e
     \<and> \<not> HTTP_CLIENT_BREAKER_WINDOW_MS e < HTTP_CLIENT_BREAKER_BUCKETS e
     \<and> \<not> HTTP_CLIENT_BREAKER_MIN_THROUGHPUT e < HTTP_CLIENT_RETRY_ATTEMPTS e
     \<and> \<not> HTTP_CLIENT_TIMEOUT_MS e < HTTP_CLIENT_HEADERS_TIMEOUT_MS e
     \<and> \<not> HTTP_CLIENT_TIMEOUT_MS e < HTTP_CLIENT_BODY_IDLE_TIMEOUT_MS e"

definition envHttpClientDefaults :: "http_client_env \<Rightarrow> client_options" where
  "envHttpClientDefaults e =
     \<lparr>op_baseUrl = None, op_timeoutMs = Some (HTTP_CLIENT_TIMEOUT_MS e),
      op_headersTimeoutMs = Some (HTTP_CLIENT_HEADERS_TIMEOUT_MS e),
      op_bodyIdleTimeoutMs = Some (HTTP_CLIENT_BODY_IDLE_TIMEOUT_MS e),
      op_retry = \<lparr>ro_attempts = Some (HTTP_CLIENT_RETRY_ATTEMPTS e),
        ro_baseDelayMs = Some (HTTP_CLIENT_RETRY_BASE_DELAY_MS e),
        ro_maxDelayMs = Some (HTTP_CLIENT_RETRY_MAX_DELAY_MS e),
        ro_maxRetryAfterMs = Some (HTTP_CLIENT_MAX_RETRY_AFTER_MS e),
        ro_retryNonIdempotent = None, ro_drainBytes = Some (HTTP_CLIENT_DRAIN_BYTES e)\<rparr>,
      op_breaker = \<lparr>ov_windowMs = Some (HTTP_CLIENT_BREAKER_WINDOW_MS e),
        ov_bucketCount = Some (HTTP_CLIENT_BREAKER_BUCKETS e),
        ov_failureRateThreshold = Some (HTTP_CLIENT_BREAKER_FAILURE_RATE e),
        ov_minimumThroughput = Some (HTTP_CLIENT_BREAKER_MIN_THROUGHPUT e),
        ov_openMs = Some (HTTP_CLIENT_BREAKER_OPEN_MS e), ov_openJitterRatio = None,
        ov_halfOpenProbes = Some (HTTP_CLIENT_BREAKER_HALF_OPEN_PROBES e),
        ov_halfOpenSuccessThreshold = Some (HTTP_CLIENT_BREAKER_HALF_OPEN_SUCCESSES e)\<rparr>,
      op_bulkhead = \<lparr>ov_maxConcurrent = Some (HTTP_CLIENT_BULKHEAD_MAX_CONCURRENT e),
        ov_maxQueue = Some (HTTP_CLIENT_BULKHEAD_MAX_QUEUE e),
        ov_queueTimeoutMs = Some (HTTP_CLIENT_BULKHEAD_QUEUE_TIMEOUT_MS e)\<rparr>\<rparr>"

text \<open>\<open>{ ...defaults, ...given }\<close>, property by property.\<close>

definition over :: "'a option \<Rightarrow> 'a option \<Rightarrow> 'a option" where
  "over d given = (case given of None \<Rightarrow> d | Some v \<Rightarrow> Some v)"

definition createDependencyClient :: "http_client_env \<Rightarrow> client_options \<Rightarrow> string + http_client \<times> breaker \<times> bulkhead" where
  "createDependencyClient e opt =
     (let d = envHttpClientDefaults e; r = op_retry d; b = op_breaker d; h = op_bulkhead d;
          r' = op_retry opt; b' = op_breaker opt; h' = op_bulkhead opt in
      createHttpClient
        \<lparr>op_baseUrl = over (op_baseUrl d) (op_baseUrl opt), op_timeoutMs = over (op_timeoutMs d) (op_timeoutMs opt),
         op_headersTimeoutMs = over (op_headersTimeoutMs d) (op_headersTimeoutMs opt),
         op_bodyIdleTimeoutMs = over (op_bodyIdleTimeoutMs d) (op_bodyIdleTimeoutMs opt),
         op_retry = \<lparr>ro_attempts = over (ro_attempts r) (ro_attempts r'),
           ro_baseDelayMs = over (ro_baseDelayMs r) (ro_baseDelayMs r'),
           ro_maxDelayMs = over (ro_maxDelayMs r) (ro_maxDelayMs r'),
           ro_maxRetryAfterMs = over (ro_maxRetryAfterMs r) (ro_maxRetryAfterMs r'),
           ro_retryNonIdempotent = over (ro_retryNonIdempotent r) (ro_retryNonIdempotent r'),
           ro_drainBytes = over (ro_drainBytes r) (ro_drainBytes r')\<rparr>,
         op_breaker = \<lparr>ov_windowMs = over (ov_windowMs b) (ov_windowMs b'),
           ov_bucketCount = over (ov_bucketCount b) (ov_bucketCount b'),
           ov_failureRateThreshold = over (ov_failureRateThreshold b) (ov_failureRateThreshold b'),
           ov_minimumThroughput = over (ov_minimumThroughput b) (ov_minimumThroughput b'),
           ov_openMs = over (ov_openMs b) (ov_openMs b'),
           ov_openJitterRatio = over (ov_openJitterRatio b) (ov_openJitterRatio b'),
           ov_halfOpenProbes = over (ov_halfOpenProbes b) (ov_halfOpenProbes b'),
           ov_halfOpenSuccessThreshold = over (ov_halfOpenSuccessThreshold b) (ov_halfOpenSuccessThreshold b')\<rparr>,
         op_bulkhead = \<lparr>ov_maxConcurrent = over (ov_maxConcurrent h) (ov_maxConcurrent h'),
           ov_maxQueue = over (ov_maxQueue h) (ov_maxQueue h'),
           ov_queueTimeoutMs = over (ov_queueTimeoutMs h) (ov_queueTimeoutMs h')\<rparr>\<rparr>)"

section \<open>Deadlines\<close>

text \<open>
  The timers of an attempt that are armed, by the time they fire at. Where both are due at once the
  request timer fires first: it was started first. \<open>abort\<close> is the end of the guarded body below.
\<close>

record attempt_deadlines =
  ad_requestAt :: "int option"
  ad_headersAt :: "int option"

definition startAttemptDeadlines :: "int \<Rightarrow> call_plan \<Rightarrow> attempt_deadlines" where
  "startAttemptDeadlines now p =
     \<lparr>ad_requestAt = Some (now + pl_deadlineMs p), ad_headersAt = map_option (\<lambda>ms. now + ms) (pl_headersMs p)\<rparr>"

definition headersReceived :: "attempt_deadlines \<Rightarrow> attempt_deadlines" where
  "headersReceived d = d\<lparr>ad_headersAt := None\<rparr>"

definition dispose :: "attempt_deadlines \<Rightarrow> attempt_deadlines" where
  "dispose d = d\<lparr>ad_requestAt := None, ad_headersAt := None\<rparr>"

definition first_deadline :: "attempt_deadlines \<Rightarrow> (int \<times> deadline_phase) option" where
  "first_deadline d =
     (case (ad_requestAt d, ad_headersAt d) of
        (None, None) \<Rightarrow> None
      | (Some r, None) \<Rightarrow> Some (r, RequestPhase)
      | (None, Some h) \<Rightarrow> Some (h, HeadersPhase)
      | (Some r, Some h) \<Rightarrow> if h < r then Some (h, HeadersPhase) else Some (r, RequestPhase))"

definition deadline_error :: "call_plan \<Rightarrow> deadline_phase \<Rightarrow> fetch_error" where
  "deadline_error p phase =
     DependencyTimeout phase (case phase of RequestPhase \<Rightarrow> pl_deadlineMs p
       | HeadersPhase \<Rightarrow> default_to 0 (pl_headersMs p) | BodyPhase \<Rightarrow> default_to 0 (pl_bodyIdleMs p))"

text \<open>
  A stream read by its consumer until a time limit at which its signal aborts: chunks before the limit
  arrive, and then the read that is outstanding rejects with the error.
\<close>

fun cut_body :: "int \<Rightarrow> fetch_error \<Rightarrow> (int \<times> int) list \<Rightarrow> body_end \<Rightarrow> (int \<times> int) list \<times> body_end" where
  "cut_body limit err [] e =
     ([], case e of Ends_after w \<Rightarrow> if w < limit then e else Breaks_after limit err
          | Breaks_after w err' \<Rightarrow> if w < limit then e else Breaks_after limit err
          | Stalls \<Rightarrow> Breaks_after limit err)"
| "cut_body limit err ((w, n) # cs) e =
     (if w < limit then (case cut_body (limit - w) err cs e of (cs', e') \<Rightarrow> ((w, n) # cs', e'))
      else ([], Breaks_after limit err))"

text \<open>The same for the idle guard, whose timer starts again with every read.\<close>

fun guard_chunks :: "int \<Rightarrow> fetch_error \<Rightarrow> (int \<times> int) list \<Rightarrow> body_end \<Rightarrow> (int \<times> int) list \<times> body_end" where
  "guard_chunks idleMs err [] e = cut_body idleMs err [] e"
| "guard_chunks idleMs err ((w, n) # cs) e =
     (if w < idleMs then (case guard_chunks idleMs err cs e of (cs', e') \<Rightarrow> ((w, n) # cs', e'))
      else ([], Breaks_after idleMs err))"

definition under_signal :: "int \<Rightarrow> fetch_error \<Rightarrow> http_response \<Rightarrow> http_response" where
  "under_signal limit err r =
     r\<lparr>hr_body := map_option (\<lambda>b. case cut_body limit err (bd_chunks b) (bd_end b) of
        (cs, e) \<Rightarrow> b\<lparr>bd_chunks := cs, bd_end := e\<rparr>) (hr_body r)\<rparr>"

definition guardBodyIdle :: "http_response \<Rightarrow> int \<Rightarrow> http_response" where
  "guardBodyIdle r idleMs =
     (case hr_body r of
        None \<Rightarrow> r
      | Some b \<Rightarrow>
          (case guard_chunks idleMs (DependencyTimeout BodyPhase idleMs) (bd_chunks b) (bd_end b) of
             (cs, e) \<Rightarrow> \<lparr>hr_status = hr_status r, hr_headers = hr_headers r, hr_url = hr_url r,
                         hr_redirected = hr_redirected r,
                         hr_body = Some (b\<lparr>bd_chunks := cs, bd_end := e\<rparr>)\<rparr>))"

text \<open>The time \<open>drainForRetry\<close> takes, \<open>None\<close> when it never returns, and the response it leaves.\<close>

fun drain_loop :: "int \<Rightarrow> int \<Rightarrow> (int \<times> int) list \<Rightarrow> body_end \<Rightarrow> int option" where
  "drain_loop maxBytes read [] e = (case e of Ends_after w \<Rightarrow> Some w | Breaks_after w err \<Rightarrow> Some w | Stalls \<Rightarrow> None)"
| "drain_loop maxBytes read ((w, n) # cs) e =
     (if maxBytes < read + n then Some w else map_option (\<lambda>t. w + t) (drain_loop maxBytes (read + n) cs e))"

definition drain_time :: "http_response \<Rightarrow> int \<Rightarrow> int option" where
  "drain_time r maxBytes =
     (case hr_body r of None \<Rightarrow> Some 0 | Some b \<Rightarrow> drain_loop maxBytes 0 (bd_chunks b) (bd_end b))"

definition drainForRetry :: "http_response \<Rightarrow> http_response" where
  "drainForRetry r = r\<lparr>hr_body := map_option (\<lambda>b. b\<lparr>bd_used := True\<rparr>) (hr_body r)\<rparr>"

section \<open>The ladder\<close>

text \<open>How the origin treats one attempt: when it answers, if it does, and with what.\<close>

record exchange =
  ex_after :: "int option"
  ex_reply :: "fetch_error + http_response"

text \<open>The variables of the loop.\<close>

record ladder =
  ld_plan :: call_plan
  ld_attempt :: nat
  ld_lastResponse :: "http_response option"
  ld_lastError :: "fetch_error option"
  ld_deadlines :: attempt_deadlines

datatype stage =
    InQueue
  | Ready
  | Fetching ladder permit int exchange
  | Draining ladder "int option" int
  | Sleeping ladder int
  | Settled "client_error + http_response" int
  | Returned "client_error + http_response" int

definition ladderDelay :: "nat \<Rightarrow> retry_policy \<Rightarrow> rat \<Rightarrow> int" where
  "ladderDelay attempt policy random =
     fullJitterDelay attempt \<lparr>bo_baseMs = rp_baseDelayMs policy, bo_maxMs = rp_maxDelayMs policy\<rparr> random"

text \<open>The head of the loop, up to the call of \<open>fetch\<close>, and what follows the loop.\<close>

definition begin_attempt :: "bool \<Rightarrow> int \<Rightarrow> exchange \<Rightarrow> ladder \<Rightarrow> breaker \<Rightarrow> breaker \<times> stage" where
  "begin_attempt aborted now ex l b =
     (if pl_maxAttempts (ld_plan l) < int (ld_attempt l)
      then (b, Settled (Inl (case ld_lastError l of Some err \<Rightarrow> Fetch_error err | None \<Rightarrow> No_response)) now)
      else if aborted then (b, Settled (Inl Abort_error) now)
      else case Circuit_Breaker.acquire now b of
        (b1, Inl retryAfterMs) \<Rightarrow>
          (b1, Settled (case ld_lastResponse l of
              Some response \<Rightarrow> Inr response
            | None \<Rightarrow> (case ld_lastError l of Some err \<Rightarrow> Inl (Fetch_error err)
                       | None \<Rightarrow> Inl (CircuitOpenError retryAfterMs))) now)
      | (b1, Inr p) \<Rightarrow> (b1, Fetching (l\<lparr>ld_deadlines := startAttemptDeadlines now (ld_plan l)\<rparr>) p now ex))"

definition start_ladder :: "call_plan \<Rightarrow> ladder" where
  "start_ladder p = \<lparr>ld_plan = p, ld_attempt = 1, ld_lastResponse = None, ld_lastError = None,
     ld_deadlines = \<lparr>ad_requestAt = None, ad_headersAt = None\<rparr>\<rparr>"

text \<open>\<open>abortableDelay\<close>: an aborted signal rejects at once.\<close>

definition start_sleep :: "bool \<Rightarrow> int \<Rightarrow> int \<Rightarrow> ladder \<Rightarrow> stage" where
  "start_sleep aborted ms now l = (if aborted then Settled (Inl Abort_error) now else Sleeping l (now + ms))"

text \<open>When the awaited \<open>fetch\<close> settles, and how: the origin's answer, or the first deadline.\<close>

definition fetch_settles :: "ladder \<Rightarrow> int \<Rightarrow> exchange \<Rightarrow> (int \<times> (fetch_error + http_response)) option" where
  "fetch_settles l start ex =
     (case (ex_after ex, first_deadline (ld_deadlines l)) of
        (None, None) \<Rightarrow> None
      | (Some w, None) \<Rightarrow> Some (start + w, ex_reply ex)
      | (None, Some (t, phase)) \<Rightarrow> Some (t, Inl (deadline_error (ld_plan l) phase))
      | (Some w, Some (t, phase)) \<Rightarrow>
          if start + w < t then Some (start + w, ex_reply ex) else Some (t, Inl (deadline_error (ld_plan l) phase)))"

text \<open>The \<open>catch\<close> branch: two draws, one for the breaker's own jitter and one for the delay.\<close>

definition fetch_failed ::
  "bool \<Rightarrow> int \<Rightarrow> rat \<Rightarrow> rat \<Rightarrow> fetch_error \<Rightarrow> ladder \<Rightarrow> permit \<Rightarrow> breaker \<Rightarrow> breaker \<times> stage" where
  "fetch_failed aborted now x1 x2 err l p b =
     (if aborted
      then (case settle Ignored now x1 p b of
              None \<Rightarrow> (b, Settled (Inl Settled_twice) now)
            | Some (p1, b1) \<Rightarrow> (b1, Settled (Inl Abort_error) now))
      else (case settle Failure now x1 p b of
              None \<Rightarrow> (b, Settled (Inl Settled_twice) now)
            | Some (p1, b1) \<Rightarrow>
                let l1 = l\<lparr>ld_lastError := Some err, ld_lastResponse := None, ld_deadlines := dispose (ld_deadlines l)\<rparr> in
                if pl_maxAttempts (ld_plan l) \<le> int (ld_attempt l) \<or> \<not> isRetryableTransportError err
                then (b1, Settled (Inl (Fetch_error err)) now)
                else (b1, start_sleep aborted (ladderDelay (ld_attempt l) (pl_policy (ld_plan l)) x2) now l1)))"

text \<open>
  The response as every path reads it: its body fails when the signal of the attempt aborts, and the
  idle guard is around it. Then the response path up to its next await. \<open>parse_retry\<close> is \<open>parseRetryAfter\<close> on the two parameters it
  takes here.
\<close>

definition status_delay :: "int option \<Rightarrow> nat \<Rightarrow> retry_policy \<Rightarrow> rat \<Rightarrow> int" where
  "status_delay advertised attempt policy x =
     (case advertised of
        None \<Rightarrow> ladderDelay attempt policy x
      | Some ms \<Rightarrow> ms + fullJitterDelay 1 \<lparr>bo_baseMs = rp_baseDelayMs policy, bo_maxMs = rp_baseDelayMs policy\<rparr> x)"

definition live_response :: "call_plan \<Rightarrow> attempt_deadlines \<Rightarrow> int \<Rightarrow> http_response \<Rightarrow> http_response" where
  "live_response pl d now reply =
     (let live = (case ad_requestAt d of None \<Rightarrow> reply
                  | Some t \<Rightarrow> under_signal (t - now) (deadline_error pl RequestPhase) reply) in
      case pl_bodyIdleMs pl of None \<Rightarrow> live | Some ms \<Rightarrow> guardBodyIdle live ms)"

definition response_received ::
  "(string option \<Rightarrow> int \<Rightarrow> int option) \<Rightarrow> int \<Rightarrow> rat \<Rightarrow> rat \<Rightarrow> http_response \<Rightarrow> ladder \<Rightarrow> permit
   \<Rightarrow> breaker \<Rightarrow> breaker \<times> stage" where
  "response_received parse_retry now x1 x2 reply l p b =
     (let pl = ld_plan l; policy = pl_policy pl; d1 = headersReceived (ld_deadlines l);
          response = live_response pl d1 now reply;
          outcome = classifyResponse (hr_status response) in
      case settle (if ou_dependencyFailure outcome then Failure else Success) now x1 p b of
        None \<Rightarrow> (b, Settled (Inl Settled_twice) now)
      | Some (p1, b1) \<Rightarrow>
          let l1 = l\<lparr>ld_lastResponse := Some response, ld_lastError := None, ld_deadlines := d1\<rparr> in
          if \<not> ou_retryable outcome \<or> pl_maxAttempts pl \<le> int (ld_attempt l)
          then (b1, Settled (Inr response) now)
          else let advertised = parse_retry (headers_get ''retry-after'' (hr_headers response)) now in
            if (case advertised of None \<Rightarrow> False | Some ms \<Rightarrow> rp_maxRetryAfterMs policy < ms)
            then (b1, Settled (Inr response) now)
            else (b1, Draining (l1\<lparr>ld_lastResponse := Some (drainForRetry response)\<rparr>)
                        (map_option (\<lambda>t. now + t) (drain_time response (rp_drainBytes policy)))
                        (status_delay advertised (ld_attempt l) policy x2)))"

text \<open>After the drain, and after the sleep.\<close>

definition drained :: "bool \<Rightarrow> int \<Rightarrow> int \<Rightarrow> ladder \<Rightarrow> stage" where
  "drained aborted now delayMs l = start_sleep aborted delayMs now (l\<lparr>ld_deadlines := dispose (ld_deadlines l)\<rparr>)"

definition next_attempt :: "ladder \<Rightarrow> ladder" where
  "next_attempt l = l\<lparr>ld_attempt := ld_attempt l + 1\<rparr>"

end
