(* ===== verification/Client_Calls.thy ===== *)
theory Client_Calls
  imports Http_Client "HOL-Library.Multiset"
begin

text \<open>
  The calls of one HTTP client (\<open>src/resilience/http-client.ts\<close>): they share a circuit breaker and a
  bulkhead, and each runs its ladder from await to await. An event resumes one call, so a sequence of
  events is an interleaving of the calls with each other, with the origin and with callers that give up.
\<close>

section \<open>The calls of a client\<close>

record http_call =
  ca_input :: string
  ca_init :: http_init
  ca_signal :: bool
  ca_aborted :: bool
  ca_begunAt :: int
  ca_stage :: stage

text \<open>\<open>sy_wire\<close> lists the calls of \<open>fetch\<close>, by the call that made them and the address.\<close>

record client_system =
  sy_breaker :: breaker
  sy_bulkhead :: bulkhead_system
  sy_calls :: "(nat, http_call) js_map"
  sy_wire :: "(nat \<times> address) list"

text \<open>\<open>Math.random\<close> yields a number from 0 up to, but not including, 1: the fractional part of any rational.\<close>

definition draw :: "rat \<Rightarrow> rat" where
  "draw x = x - of_int \<lfloor>x\<rfloor>"

definition on_wire :: "nat \<Rightarrow> stage \<Rightarrow> (nat \<times> address) list" where
  "on_wire i st = (case st of Fetching l p start ex \<Rightarrow> [(i, pl_url (ld_plan l))] | _ \<Rightarrow> [])"

definition put_call :: "nat \<Rightarrow> http_call \<Rightarrow> client_system \<Rightarrow> client_system" where
  "put_call i c s = s\<lparr>sy_calls := js_set i c (sy_calls s)\<rparr>"

text \<open>Entering a stage with what the step left of the breaker, sending if the stage is a fetch.\<close>

definition enter :: "nat \<Rightarrow> http_call \<Rightarrow> breaker \<times> stage \<Rightarrow> client_system \<Rightarrow> client_system" where
  "enter i c r s =
     s\<lparr>sy_breaker := fst r, sy_calls := js_set i (c\<lparr>ca_stage := snd r\<rparr>) (sy_calls s),
       sy_wire := sy_wire s @ on_wire i (snd r)\<rparr>"

text \<open>\<open>request\<close>: \<open>withBulkhead\<close> acquires the slot.\<close>

definition request :: "nat \<Rightarrow> string \<Rightarrow> http_init \<Rightarrow> bool \<Rightarrow> bool \<Rightarrow> int \<Rightarrow> client_system \<Rightarrow> client_system" where
  "request i input init signal aborted now s =
     (if js_has (sy_calls s) i then s
      else let st = (case snd (Bulkhead.acquire i (signal \<and> aborted) now (fst (sy_bulkhead s))) of
                 Admitted \<Rightarrow> Ready
               | Queued \<Rightarrow> InQueue
               | AlreadyAborted \<Rightarrow> Returned (Inl Abort_error) now
               | QueueFull \<Rightarrow> Returned (Inl (BulkheadFull QueueFull)) now) in
        put_call i \<lparr>ca_input = input, ca_init = init, ca_signal = signal, ca_aborted = signal \<and> aborted,
            ca_begunAt = now, ca_stage = st\<rparr>
          (s\<lparr>sy_bulkhead := bulkhead_do (Call i (signal \<and> aborted) now) (sy_bulkhead s)\<rparr>))"

text \<open>The timer of a queued call.\<close>

definition queue_timer :: "nat \<Rightarrow> int \<Rightarrow> http_call \<Rightarrow> client_system \<Rightarrow> client_system" where
  "queue_timer i now c s =
     (case ca_stage c of
        InQueue \<Rightarrow>
          (case queue_timeout i now (fst (sy_bulkhead s)) of
             (b, None) \<Rightarrow> s
           | (b, Some waited) \<Rightarrow> put_call i (c\<lparr>ca_stage := Returned (Inl (Queue_timeout waited)) now\<rparr>)
               (s\<lparr>sy_bulkhead := bulkhead_do (Timeout i now) (sy_bulkhead s)\<rparr>))
      | _ \<Rightarrow> s)"

text \<open>An admitted call runs \<open>attemptLadder\<close> up to its first await.\<close>

definition attemptLadder :: "url_parser \<Rightarrow> http_client \<Rightarrow> nat \<Rightarrow> int \<Rightarrow> exchange \<Rightarrow> http_call \<Rightarrow> client_system \<Rightarrow> client_system" where
  "attemptLadder up h i now ex c s =
     (case ca_stage c of
        Ready \<Rightarrow> enter i (c\<lparr>ca_begunAt := now\<rparr>)
          (case prepare up h (ca_input c) (ca_init c) of
             Inl err \<Rightarrow> (sy_breaker s, Settled (Inl err) now)
           | Inr p \<Rightarrow> begin_attempt (ca_aborted c) now ex (start_ladder p) (sy_breaker s)) s
      | _ \<Rightarrow> s)"

definition fetch_done :: "(string option \<Rightarrow> int \<Rightarrow> int option) \<Rightarrow> nat \<Rightarrow> rat \<Rightarrow> rat \<Rightarrow> http_call \<Rightarrow> client_system \<Rightarrow> client_system" where
  "fetch_done parse_retry i x1 x2 c s =
     (case ca_stage c of
        Fetching l p start ex \<Rightarrow>
          (case fetch_settles l start ex of
             None \<Rightarrow> s
           | Some (now, Inl err) \<Rightarrow> enter i c (fetch_failed (ca_aborted c) now (draw x1) (draw x2) err l p (sy_breaker s)) s
           | Some (now, Inr reply) \<Rightarrow> enter i c (response_received parse_retry now (draw x1) (draw x2) reply l p (sy_breaker s)) s)
      | _ \<Rightarrow> s)"

definition drain_done :: "nat \<Rightarrow> http_call \<Rightarrow> client_system \<Rightarrow> client_system" where
  "drain_done i c s =
     (case ca_stage c of
        Draining l (Some now) delayMs \<Rightarrow> enter i c (sy_breaker s, drained (ca_aborted c) now delayMs l) s
      | _ \<Rightarrow> s)"

definition sleep_done :: "nat \<Rightarrow> exchange \<Rightarrow> http_call \<Rightarrow> client_system \<Rightarrow> client_system" where
  "sleep_done i ex c s =
     (case ca_stage c of
        Sleeping l now \<Rightarrow> enter i c (begin_attempt (ca_aborted c) now ex (next_attempt l) (sy_breaker s)) s
      | _ \<Rightarrow> s)"

text \<open>
  The caller's signal fires. A queued call leaves the queue; a fetch rejects, as its signal is derived
  from the caller's; the body being drained fails, which the drain swallows; a sleep rejects. Where the
  awaited promise has settled by then the abort is not what ends it.
\<close>

definition caller_abort :: "nat \<Rightarrow> int \<Rightarrow> rat \<Rightarrow> http_call \<Rightarrow> client_system \<Rightarrow> client_system" where
  "caller_abort i now x c s =
     (if \<not> ca_signal c \<or> ca_aborted c then s
      else let c1 = c\<lparr>ca_aborted := True\<rparr> in
        (case ca_stage c of
           InQueue \<Rightarrow> put_call i (c1\<lparr>ca_stage := Returned (Inl Abort_error) now\<rparr>)
             (s\<lparr>sy_bulkhead := bulkhead_do (Abort i) (sy_bulkhead s)\<rparr>)
         | Fetching l p start ex \<Rightarrow>
             (case fetch_settles l start ex of
                Some (t, reply) \<Rightarrow>
                  if now < t then enter i c1 (fetch_failed True now (draw x) 0 (Fault ''aborted'') l p (sy_breaker s)) s
                  else s
              | None \<Rightarrow> enter i c1 (fetch_failed True now (draw x) 0 (Fault ''aborted'') l p (sy_breaker s)) s)
         | Draining l t delayMs \<Rightarrow>
             if (case t of None \<Rightarrow> True | Some t' \<Rightarrow> now < t') then enter i c1 (sy_breaker s, drained True now delayMs l) s else s
         | Sleeping l t \<Rightarrow> if now < t then enter i c1 (sy_breaker s, Settled (Inl Abort_error) now) s else s
         | _ \<Rightarrow> put_call i c1 s))"

text \<open>The \<open>finally\<close> of \<open>withBulkhead\<close>: the slot passes to the call at the head of the queue, or back.\<close>

definition release_slot :: "nat \<Rightarrow> http_call \<Rightarrow> client_system \<Rightarrow> client_system" where
  "release_slot i c s =
     (case ca_stage c of
        Settled r t \<Rightarrow>
          (case release_permit (i \<notin> set (snd (sy_bulkhead s))) (fst (sy_bulkhead s)) of
             None \<Rightarrow> s
           | Some (b, successor) \<Rightarrow>
               let s1 = put_call i (c\<lparr>ca_stage := Returned r t\<rparr>)
                          (s\<lparr>sy_bulkhead := bulkhead_do (Release i) (sy_bulkhead s)\<rparr>) in
               (case successor of
                  None \<Rightarrow> s1
                | Some j \<Rightarrow> (case js_get (sy_calls s1) j of None \<Rightarrow> s1
                            | Some c' \<Rightarrow> put_call j (c'\<lparr>ca_stage := Ready\<rparr>) s1)))
      | _ \<Rightarrow> s)"

datatype client_event =
    Request nat string http_init bool bool int
  | Queue_timer nat int
  | Start_ladder nat int exchange
  | Fetch_done nat rat rat
  | Drain_done nat
  | Sleep_done nat exchange
  | Caller_abort nat int rat
  | Release_slot nat

definition for_call :: "nat \<Rightarrow> (http_call \<Rightarrow> client_system \<Rightarrow> client_system) \<Rightarrow> client_system \<Rightarrow> client_system" where
  "for_call i f s = (case js_get (sy_calls s) i of None \<Rightarrow> s | Some c \<Rightarrow> f c s)"

primrec client_do ::
  "url_parser \<Rightarrow> (string option \<Rightarrow> int \<Rightarrow> int option) \<Rightarrow> http_client \<Rightarrow> client_event \<Rightarrow> client_system \<Rightarrow> client_system" where
  "client_do up pr h (Request i input init signal aborted now) s = request i input init signal aborted now s"
| "client_do up pr h (Queue_timer i now) s = for_call i (queue_timer i now) s"
| "client_do up pr h (Start_ladder i now ex) s = for_call i (attemptLadder up h i now ex) s"
| "client_do up pr h (Fetch_done i x1 x2) s = for_call i (fetch_done pr i x1 x2) s"
| "client_do up pr h (Drain_done i) s = for_call i (drain_done i) s"
| "client_do up pr h (Sleep_done i ex) s = for_call i (sleep_done i ex) s"
| "client_do up pr h (Caller_abort i now x) s = for_call i (caller_abort i now x) s"
| "client_do up pr h (Release_slot i) s = for_call i (release_slot i) s"

definition new_system :: "breaker \<times> bulkhead \<Rightarrow> client_system" where
  "new_system r = \<lparr>sy_breaker = fst r, sy_bulkhead = (snd r, []), sy_calls = [], sy_wire = []\<rparr>"

section \<open>Time and effort of one call\<close>

definition longest_wait :: "call_plan \<Rightarrow> int" where
  "longest_wait p = max (rp_maxDelayMs (pl_policy p)) (rp_maxRetryAfterMs (pl_policy p) + rp_baseDelayMs (pl_policy p))"

text \<open>The latest moment at which the attempt after \<open>k\<close> others can begin.\<close>

definition rung :: "call_plan \<Rightarrow> int \<Rightarrow> int \<Rightarrow> int" where
  "rung p t0 k = t0 + k * (pl_deadlineMs p + longest_wait p)"

definition call_budget :: "call_plan \<Rightarrow> int" where
  "call_budget p = (pl_maxAttempts p - 1) * (pl_deadlineMs p + longest_wait p) + pl_deadlineMs p"

definition plan_ok :: "call_plan \<Rightarrow> bool" where
  "plan_ok p \<longleftrightarrow> 1 \<le> pl_maxAttempts p \<and> 1 \<le> pl_deadlineMs p \<and> assertPolicy (pl_policy p) = None"

lemma assertPolicy_ok [simp]:
  "assertPolicy p = None \<longleftrightarrow> 1 \<le> rp_attempts p \<and> 1 \<le> rp_baseDelayMs p \<and> rp_baseDelayMs p \<le> rp_maxDelayMs p \<and> 0 \<le> rp_drainBytes p"
  by (auto simp: assertPolicy_def)

lemma longest_wait_pos: "plan_ok p \<Longrightarrow> 1 \<le> longest_wait p"
  by (auto simp: plan_ok_def longest_wait_def)

lemma rung_mono: "plan_ok p \<Longrightarrow> j \<le> k \<Longrightarrow> rung p t0 j \<le> rung p t0 k"
  using longest_wait_pos [of p] by (auto simp: rung_def plan_ok_def intro!: mult_right_mono)

lemma rung_next: "rung p t0 (k + 1) = rung p t0 k + pl_deadlineMs p + longest_wait p"
  by (simp add: rung_def algebra_simps)

lemma budget_rung: "t0 + call_budget p = rung p t0 (pl_maxAttempts p - 1) + pl_deadlineMs p"
  by (simp add: rung_def call_budget_def)

lemma within_budget:
  assumes "plan_ok p" "k \<le> pl_maxAttempts p - 1" "t \<le> rung p t0 k + pl_deadlineMs p"
  shows "t \<le> t0 + call_budget p"
  using assms(3) rung_mono [OF assms(1,2), of t0] unfolding budget_rung by linarith

lemma draw_bounds: "0 \<le> draw x" "draw x < 1"
  by (simp_all add: draw_def) linarith

lemma ladderDelay_le: "plan_ok p \<Longrightarrow> ladderDelay k (pl_policy p) (draw x) \<le> longest_wait p"
  using jitter_bounds [where r = "draw x" and opt = "\<lparr>bo_baseMs = rp_baseDelayMs (pl_policy p), bo_maxMs = rp_maxDelayMs (pl_policy p)\<rparr>" and n = k, OF draw_bounds]
  by (auto simp: ladderDelay_def plan_ok_def longest_wait_def)

lemma status_delay_le:
  assumes "plan_ok p" "\<not> (case adv of None \<Rightarrow> False | Some ms \<Rightarrow> rp_maxRetryAfterMs (pl_policy p) < ms)"
  shows "status_delay adv k (pl_policy p) (draw x) \<le> longest_wait p"
  using assms ladderDelay_le [OF assms(1), of k x]
    jitter_bounds [where r = "draw x" and opt = "\<lparr>bo_baseMs = rp_baseDelayMs (pl_policy p), bo_maxMs = rp_baseDelayMs (pl_policy p)\<rparr>" and n = 1, OF draw_bounds]
  by (auto simp: status_delay_def plan_ok_def longest_wait_def split: option.splits)

text \<open>The read of a body that ends within a limit, whatever a reader does with the chunks.\<close>

fun fits_in :: "int \<Rightarrow> (int \<times> int) list \<Rightarrow> body_end \<Rightarrow> bool" where
  "fits_in limit [] e = (case e of Ends_after w \<Rightarrow> w \<le> limit | Breaks_after w err \<Rightarrow> w \<le> limit | Stalls \<Rightarrow> False)"
| "fits_in limit ((w, n) # cs) e = (w \<le> limit \<and> fits_in (limit - w) cs e)"

lemma cut_fits: "fits_in limit (fst (cut_body limit err cs e)) (snd (cut_body limit err cs e))"
  by (induction limit err cs e rule: cut_body.induct) (auto split: body_end.splits prod.splits)

lemma guard_fits: "fits_in limit cs e \<Longrightarrow> fits_in limit (fst (guard_chunks idle err cs e)) (snd (guard_chunks idle err cs e))"
  by (induction idle err cs e arbitrary: limit rule: guard_chunks.induct) (auto split: body_end.splits prod.splits)

lemma drain_fits: "fits_in limit cs e \<Longrightarrow> \<exists>t. drain_loop m r cs e = Some t \<and> t \<le> limit"
proof (induction m r cs e arbitrary: limit rule: drain_loop.induct)
  case (2 m r w n cs e)
  then show ?case
    by (cases "m < r + n") (auto, fastforce)
qed (auto split: body_end.splits)

definition body_fits :: "int \<Rightarrow> http_response \<Rightarrow> bool" where
  "body_fits limit r = (case hr_body r of None \<Rightarrow> True | Some b \<Rightarrow> fits_in limit (bd_chunks b) (bd_end b))"

lemma signal_fits: "body_fits limit (under_signal limit err r)"
  using cut_fits by (auto simp: body_fits_def under_signal_def split: option.splits prod.splits) (metis fst_conv snd_conv)

lemma idle_fits: "body_fits limit r \<Longrightarrow> body_fits limit (guardBodyIdle r idle)"
  using guard_fits by (auto simp: body_fits_def guardBodyIdle_def split: option.splits prod.splits) (metis fst_conv snd_conv)

lemma drain_time_fits: "body_fits limit r \<Longrightarrow> 0 \<le> limit \<Longrightarrow> \<exists>t. drain_time r m = Some t \<and> t \<le> limit"
  by (auto simp: body_fits_def drain_time_def drain_fits split: option.splits)

section \<open>What a stage says of its call\<close>

text \<open>
  \<open>P\<close> is what \<open>prepare\<close> made of the call, \<open>t0\<close> the time its ladder began and \<open>n\<close> the number of
  requests it has sent.
\<close>

definition settled_ok :: "client_error + call_plan \<Rightarrow> int \<Rightarrow> nat \<Rightarrow> client_error + http_response \<Rightarrow> int \<Rightarrow> bool" where
  "settled_ok P t0 n r t =
     (r \<noteq> Inl Settled_twice \<and> r \<noteq> Inl No_response
      \<and> (case P of Inl err \<Rightarrow> n = 0 | Inr p \<Rightarrow> int n \<le> pl_maxAttempts p \<and> t \<le> t0 + call_budget p))"

definition stage_ok :: "client_error + call_plan \<Rightarrow> int \<Rightarrow> nat \<Rightarrow> stage \<Rightarrow> bool" where
  "stage_ok P t0 n st =
     (case st of
        InQueue \<Rightarrow> n = 0
      | Ready \<Rightarrow> n = 0
      | Fetching l p start ex \<Rightarrow>
          P = Inr (ld_plan l) \<and> n = ld_attempt l \<and> 1 \<le> ld_attempt l \<and> int (ld_attempt l) \<le> pl_maxAttempts (ld_plan l)
          \<and> \<not> pm_settled p \<and> ld_deadlines l = startAttemptDeadlines start (ld_plan l)
          \<and> start \<le> rung (ld_plan l) t0 (int (ld_attempt l) - 1)
      | Draining l t delayMs \<Rightarrow>
          P = Inr (ld_plan l) \<and> n = ld_attempt l \<and> 1 \<le> ld_attempt l \<and> int (ld_attempt l) < pl_maxAttempts (ld_plan l)
          \<and> delayMs \<le> longest_wait (ld_plan l) \<and> (ld_lastResponse l \<noteq> None \<or> ld_lastError l \<noteq> None)
          \<and> (\<exists>t'. t = Some t' \<and> t' \<le> rung (ld_plan l) t0 (int (ld_attempt l) - 1) + pl_deadlineMs (ld_plan l))
      | Sleeping l t \<Rightarrow>
          P = Inr (ld_plan l) \<and> n = ld_attempt l \<and> int (ld_attempt l) < pl_maxAttempts (ld_plan l)
          \<and> (ld_lastResponse l \<noteq> None \<or> ld_lastError l \<noteq> None)
          \<and> ld_deadlines l = \<lparr>ad_requestAt = None, ad_headersAt = None\<rparr>
          \<and> t \<le> rung (ld_plan l) t0 (int (ld_attempt l))
      | Settled r t \<Rightarrow> settled_ok P t0 n r t
      | Returned r t \<Rightarrow> n = 0 \<or> settled_ok P t0 n r t)"

lemma settled_Inr:
  "settled_ok (Inr p) t0 n r t \<longleftrightarrow> r \<noteq> Inl Settled_twice \<and> r \<noteq> Inl No_response \<and> int n \<le> pl_maxAttempts p \<and> t \<le> t0 + call_budget p"
  by (simp add: settled_ok_def)

lemma begin_attempt_ok:
  assumes plan: "plan_ok (ld_plan l)" and att: "int (ld_attempt l) \<le> pl_maxAttempts (ld_plan l)"
    and n: "ld_attempt l = Suc n" and now: "now \<le> rung (ld_plan l) t0 (int n)"
  shows "stage_ok (Inr (ld_plan l)) t0 (n + length (on_wire i (snd (begin_attempt ab now ex l b)))) (snd (begin_attempt ab now ex l b))"
proof -
  have "now \<le> t0 + call_budget (ld_plan l)"
    using plan att n now by (intro within_budget [OF plan, of "int n"]) (auto simp: plan_ok_def)
  moreover have "p1 = createPermit c g \<Longrightarrow> \<not> pm_settled p1" for p1 c g
    by (simp add: createPermit_def)
  moreover have "Circuit_Breaker.acquire now b = (b1, Inr p1) \<Longrightarrow> \<not> pm_settled p1" for b1 p1
    by (auto simp: Circuit_Breaker.acquire_def Let_def createPermit_def split: circuit_state.splits if_splits)
  ultimately show ?thesis
    using att n now
    by (auto simp: begin_attempt_def stage_ok_def settled_Inr on_wire_def split: prod.splits sum.splits option.splits)
qed

lemma first_deadline_start:
  "\<exists>t ph. first_deadline (startAttemptDeadlines now p) = Some (t, ph) \<and> t \<le> now + pl_deadlineMs p"
  by (auto simp: first_deadline_def startAttemptDeadlines_def split: option.splits)

lemma fetch_settles_bound:
  assumes "ld_deadlines l = startAttemptDeadlines start (ld_plan l)"
  shows "\<exists>t r. fetch_settles l start ex = Some (t, r) \<and> t \<le> start + pl_deadlineMs (ld_plan l)"
proof -
  obtain t ph where "first_deadline (ld_deadlines l) = Some (t, ph)" "t \<le> start + pl_deadlineMs (ld_plan l)"
    using first_deadline_start assms by metis
  then show ?thesis
    by (auto simp: fetch_settles_def split: option.splits)
qed

lemma fetch_failed_ok:
  assumes st: "stage_ok P t0 n (Fetching l p start ex)" and plan: "plan_ok (ld_plan l)"
    and now: "now \<le> start + pl_deadlineMs (ld_plan l)"
  shows "stage_ok P t0 n (snd (fetch_failed ab now x1 (draw x2) err l p b))"
proof -
  have P: "P = Inr (ld_plan l)" and n: "n = ld_attempt l" "1 \<le> n" "int n \<le> pl_maxAttempts (ld_plan l)" and ps: "\<not> pm_settled p"
    and start: "start \<le> rung (ld_plan l) t0 (int n - 1)"
    using st by (auto simp: stage_ok_def)
  have "now \<le> t0 + call_budget (ld_plan l)"
    using within_budget [OF plan, of "int n - 1" now t0] n(3) now start by simp
  moreover have "now + ladderDelay n (pl_policy (ld_plan l)) (draw x2) \<le> rung (ld_plan l) t0 (int n)"
    using ladderDelay_le [OF plan, of n x2] now start rung_next [of "ld_plan l" t0 "int n - 1"] by simp
  ultimately show ?thesis
    using n ps unfolding P
    by (auto simp: fetch_failed_def stage_ok_def settle_def settled_Inr start_sleep_def dispose_def Let_def)
qed

lemma live_response_fits:
  "ad_requestAt d = Some t \<Longrightarrow> body_fits (t - now) (live_response pl d now reply)"
  by (auto simp: live_response_def Let_def signal_fits idle_fits split: option.splits)

lemma response_received_ok:
  assumes st: "stage_ok P t0 n (Fetching l p start ex)" and plan: "plan_ok (ld_plan l)"
    and now: "now \<le> start + pl_deadlineMs (ld_plan l)"
  shows "stage_ok P t0 n (snd (response_received pr now x1 (draw x2) reply l p b))"
proof -
  let ?pl = "ld_plan l"
  let ?r = "live_response ?pl (headersReceived (ld_deadlines l)) now reply"
  have P: "P = Inr ?pl" and n: "n = ld_attempt l" "1 \<le> n" "int n \<le> pl_maxAttempts ?pl" and ps: "\<not> pm_settled p"
    and start: "start \<le> rung ?pl t0 (int n - 1)" and d: "ld_deadlines l = startAttemptDeadlines start ?pl"
    using st by (auto simp: stage_ok_def)
  have "body_fits (start + pl_deadlineMs ?pl - now) ?r"
    by (rule live_response_fits) (simp add: d headersReceived_def startAttemptDeadlines_def)
  then obtain t where t: "drain_time ?r (rp_drainBytes (pl_policy ?pl)) = Some t" "t \<le> start + pl_deadlineMs ?pl - now"
    using drain_time_fits now by (metis diff_ge_0_iff_ge)
  have "now \<le> t0 + call_budget ?pl"
    using within_budget [OF plan, of "int n - 1" now t0] n(3) now start by simp
  then show ?thesis
    using n ps t start status_delay_le [OF plan] unfolding P
    by (auto simp: response_received_def Let_def stage_ok_def settle_def settled_Inr)
qed

lemma drained_ok:
  assumes st: "stage_ok P t0 n (Draining l t delayMs)" and plan: "plan_ok (ld_plan l)"
    and now: "t = Some t'" "now \<le> t'"
  shows "stage_ok P t0 n (drained ab now delayMs l)"
proof -
  have n: "n = ld_attempt l" "int n < pl_maxAttempts (ld_plan l)" and d: "delayMs \<le> longest_wait (ld_plan l)"
    and t: "t' \<le> rung (ld_plan l) t0 (int n - 1) + pl_deadlineMs (ld_plan l)"
    using st now by (auto simp: stage_ok_def)
  have "now \<le> t0 + call_budget (ld_plan l)"
    using within_budget [OF plan, of "int n - 1" now t0] n(2) now t by simp
  moreover have "now + delayMs \<le> rung (ld_plan l) t0 (int n)"
    using rung_next [of "ld_plan l" t0 "int n - 1"] d t now by simp
  ultimately show ?thesis
    using st n by (auto simp: drained_def start_sleep_def stage_ok_def settled_Inr dispose_def)
qed

section \<open>Slots of the bulkhead\<close>

text \<open>The stages in which a call holds its slot.\<close>

definition active :: "stage \<Rightarrow> bool" where
  "active st = (case st of InQueue \<Rightarrow> False | Returned r t \<Rightarrow> False | _ \<Rightarrow> True)"

definition slots_held :: "client_system \<Rightarrow> bool" where
  "slots_held s \<longleftrightarrow> slots_ok (sy_bulkhead s) \<and> distinct (snd (sy_bulkhead s)) \<and> distinct (waiting (sy_bulkhead s))
     \<and> (\<forall>i. i \<in> set (snd (sy_bulkhead s)) \<longleftrightarrow> (\<exists>c. js_get (sy_calls s) i = Some c \<and> active (ca_stage c)))
     \<and> (\<forall>i. i \<in> set (waiting (sy_bulkhead s)) \<longleftrightarrow> (\<exists>c. js_get (sy_calls s) i = Some c \<and> ca_stage c = InQueue))"

lemma active_simps [simp]:
  "\<not> active InQueue" "active Ready" "active (Fetching l p start ex)" "active (Draining l u d)" "active (Sleeping l t)"
  "active (Settled r t)" "\<not> active (Returned r t)"
  by (simp_all add: active_def)

lemma active_not_queued: "active st \<Longrightarrow> st \<noteq> InQueue"
  by auto

lemma begin_attempt_active [simp]: "active (snd (begin_attempt ab now ex l b))"
  by (auto simp: begin_attempt_def split: prod.splits sum.splits)

lemma start_sleep_active [simp]: "active (start_sleep ab ms now l)"
  by (simp add: start_sleep_def)

lemma fetch_failed_active [simp]: "active (snd (fetch_failed ab now x1 x2 err l p b))"
  by (auto simp: fetch_failed_def Let_def split: option.splits)

lemma response_received_active [simp]: "active (snd (response_received pr now x1 x2 reply l p b))"
  by (auto simp: response_received_def Let_def split: option.splits)

lemma drained_active [simp]: "active (drained ab now ms l)"
  by (simp add: drained_def)

lemma enter_fields [simp]:
  "sy_bulkhead (enter i c r s) = sy_bulkhead s" "sy_breaker (enter i c r s) = fst r"
  "sy_calls (enter i c r s) = js_set i (c\<lparr>ca_stage := snd r\<rparr>) (sy_calls s)"
  "sy_wire (enter i c r s) = sy_wire s @ on_wire i (snd r)"
  by (simp_all add: enter_def)

lemma put_call_fields [simp]:
  "sy_bulkhead (put_call i c s) = sy_bulkhead s" "sy_breaker (put_call i c s) = sy_breaker s"
  "sy_calls (put_call i c s) = js_set i c (sy_calls s)" "sy_wire (put_call i c s) = sy_wire s"
  by (simp_all add: put_call_def)

text \<open>A call that stays active moves no slot.\<close>

lemma slots_same:
  assumes "slots_held s" "js_get (sy_calls s) i = Some c" "sy_bulkhead s' = sy_bulkhead s"
    "sy_calls s' = js_set i c' (sy_calls s)" "active (ca_stage c) = active (ca_stage c')"
    "ca_stage c = InQueue \<longleftrightarrow> ca_stage c' = InQueue"
  shows "slots_held s'"
  using assms unfolding slots_held_def by auto

lemma slots_enter:
  "slots_held s \<Longrightarrow> js_get (sy_calls s) i = Some c \<Longrightarrow> active (ca_stage c) \<Longrightarrow> active (snd r) \<Longrightarrow> slots_held (enter i c' r s)"
  by (rule slots_same [where c' = "c'\<lparr>ca_stage := snd r\<rparr>"]) (auto simp: active_not_queued)

lemma waiting_leave: "waiting (leave i b, hs) = filter (\<lambda>j. j \<noteq> i) (waiting (b, hs))"
  by (simp add: waiting_def)

text \<open>A call leaves the queue without having been admitted.\<close>

lemma slots_leave:
  assumes "slots_held s" "js_get (sy_calls s) i = Some c" "ca_stage c = InQueue"
    "sy_bulkhead s' = (leave i (fst (sy_bulkhead s)), snd (sy_bulkhead s))"
    "sy_calls s' = js_set i c' (sy_calls s)" "ca_stage c' = Returned r t"
  shows "slots_held s'"
  using assms slots_ok_leave [of "fst (sy_bulkhead s)" "snd (sy_bulkhead s)" i]
  unfolding slots_held_def by (auto simp: waiting_leave)

lemma slots_request: "slots_held s \<Longrightarrow> slots_held (request i input init sig ab now s)"
proof -
  assume held: "slots_held s"
  obtain b hs where b: "sy_bulkhead s = (b, hs)" by fastforce
  have "slots_ok (bulkhead_do (Call i (sig \<and> ab) now) (b, hs))"
    using held b by (intro slots_ok_do) (simp add: slots_held_def)
  then show ?thesis
    using held unfolding slots_held_def b
    by (auto simp: request_def b Let_def Bulkhead.acquire_def enqueue_def waiting_def split: if_splits)
qed

lemma slots_release: 
  assumes held: "slots_held s" and c: "js_get (sy_calls s) i = Some c"
  shows "slots_held (release_slot i c s)"
proof (cases "ca_stage c")
  case (Settled r t)
  obtain b hs where b: "sy_bulkhead s = (b, hs)" by fastforce
  have i: "i \<in> set hs"
    using held c Settled by (auto simp: slots_held_def b)
  have ok: "slots_ok (bulkhead_do (Release i) (b, hs))"
    using held b by (intro slots_ok_do) (simp add: slots_held_def)
  show ?thesis
  proof (cases "bh_waiters b")
    case Nil
    then show ?thesis
      using held c i ok unfolding slots_held_def b
      by (auto simp: release_slot_def Settled b release_permit_def handOff_def Let_def waiting_def)
  next
    case (Cons w ws)
    then obtain j q where w: "w = (j, q)" by fastforce
    obtain c' where c': "js_get (sy_calls s) j = Some c'" "ca_stage c' = InQueue"
      using held unfolding slots_held_def b waiting_def by (force simp: Cons w)
    then have "j \<noteq> i"
      using c Settled by auto
    moreover have "i \<notin> set (waiting (b, hs))"
      using held c Settled unfolding slots_held_def b by auto
    moreover have "j \<notin> set hs" "j \<notin> fst ` set ws"
      using held c' unfolding slots_held_def b waiting_def by (auto simp: Cons w)
    ultimately show ?thesis
      using held c c' i ok unfolding slots_held_def b
      by (auto simp: release_slot_def Settled b release_permit_def handOff_def Let_def waiting_def Cons w)
  qed
qed (use held in \<open>simp_all add: release_slot_def\<close>)

lemma slots_queue_timer:
  "slots_held s \<Longrightarrow> js_get (sy_calls s) i = Some c \<Longrightarrow> slots_held (queue_timer i now c s)"
  by (auto simp: queue_timer_def queue_timeout_def split: stage.splits option.splits
      intro!: slots_leave [where s = s and i = i and c = c])

lemma slots_caller_abort:
  assumes held: "slots_held s" and c: "js_get (sy_calls s) i = Some c"
  shows "slots_held (caller_abort i now x c s)"
proof (cases "ca_stage c")
  case InQueue
  then have "i \<in> set (waiting (sy_bulkhead s))"
    using held c by (auto simp: slots_held_def)
  then have "abort_waiter i (fst (sy_bulkhead s)) = leave i (fst (sy_bulkhead s))"
    by (simp add: abort_waiter_def waiting_def)
  then show ?thesis
    using InQueue held c
    by (auto simp: caller_abort_def Let_def intro: slots_leave [where s = s and i = i and c = c])
qed (use held c in \<open>auto simp: caller_abort_def Let_def split: option.splits
       intro!: slots_enter [OF held c] intro: slots_same [OF held c]\<close>)

lemma slots_do: "slots_held s \<Longrightarrow> slots_held (client_do up pr h e s)"
proof (cases e)
  case (Start_ladder i now ex)
  then show "slots_held s \<Longrightarrow> ?thesis"
    by (auto simp: for_call_def attemptLadder_def split: option.splits stage.splits sum.splits intro!: slots_enter)
next
  case (Fetch_done i x1 x2)
  then show "slots_held s \<Longrightarrow> ?thesis"
    by (auto simp: for_call_def fetch_done_def split: option.splits stage.splits sum.splits intro!: slots_enter)
next
  case (Drain_done i)
  then show "slots_held s \<Longrightarrow> ?thesis"
    by (auto simp: for_call_def drain_done_def split: option.splits stage.splits intro!: slots_enter)
next
  case (Sleep_done i ex)
  then show "slots_held s \<Longrightarrow> ?thesis"
    by (auto simp: for_call_def sleep_done_def split: option.splits stage.splits intro!: slots_enter)
qed (auto simp: for_call_def slots_request slots_queue_timer slots_caller_abort slots_release split: option.splits)

interpretation held: step_invariant "client_do up pr h" slots_held for up pr h
  by unfold_locales (rule slots_do)

section \<open>Requests sent\<close>

definition fetches :: "nat \<Rightarrow> client_system \<Rightarrow> nat" where
  "fetches i s = length (filter (\<lambda>e. fst e = i) (sy_wire s))"

definition client_ok :: "http_client \<Rightarrow> bool" where
  "client_ok h \<longleftrightarrow> assertPolicy (ht_policy h) = None"

abbreviation plan_of :: "url_parser \<Rightarrow> http_client \<Rightarrow> http_call \<Rightarrow> client_error + call_plan" where
  "plan_of up h c \<equiv> prepare up h (ca_input c) (ca_init c)"

definition effort_ok :: "url_parser \<Rightarrow> http_client \<Rightarrow> client_system \<Rightarrow> bool" where
  "effort_ok up h s \<longleftrightarrow> slots_held s
     \<and> (\<forall>i c. js_get (sy_calls s) i = Some c
          \<longrightarrow> stage_ok (plan_of up h c) (ca_begunAt c) (fetches i s) (ca_stage c))
     \<and> (\<forall>e \<in> set (sy_wire s). \<exists>c p. js_get (sy_calls s) (fst e) = Some c \<and> plan_of up h c = Inr p \<and> snd e = pl_url p)"

lemma prepare_plan_ok: "client_ok h \<Longrightarrow> prepare up h input init = Inr p \<Longrightarrow> plan_ok p"
  by (auto simp: prepare_def call_policy_def client_ok_def plan_ok_def assertDeadlines_def Let_def split: option.splits if_splits sum.splits)

lemma fetches_new: "effort_ok up h s \<Longrightarrow> js_get (sy_calls s) i = None \<Longrightarrow> fetches i s = 0"
  by (fastforce simp: effort_ok_def fetches_def filter_empty_conv)

lemma on_wire_cases: "on_wire i st = [] \<or> (\<exists>l p start ex. st = Fetching l p start ex \<and> on_wire i st = [(i, pl_url (ld_plan l))])"
  by (cases st) (auto simp: on_wire_def)

text \<open>A call that moves to a stage that is right for it, sending if the stage is a fetch.\<close>

lemma effort_update:
  assumes "effort_ok up h s" "slots_held s'" "js_get (sy_calls s) i = Some c \<or> js_get (sy_calls s) i = None"
    "sy_calls s' = js_set i c' (sy_calls s)" "sy_wire s' = sy_wire s @ on_wire i (ca_stage c')"
    "js_get (sy_calls s) i = Some c \<Longrightarrow> ca_input c' = ca_input c \<and> ca_init c' = ca_init c"
    "stage_ok (plan_of up h c') (ca_begunAt c') (fetches i s + length (on_wire i (ca_stage c'))) (ca_stage c')"
  shows "effort_ok up h s'"
proof -
  have wire: "e \<in> set (on_wire i (ca_stage c')) \<Longrightarrow> fst e = i \<and> (\<exists>p. plan_of up h c' = Inr p \<and> snd e = pl_url p)" for e
    using on_wire_cases [of i "ca_stage c'"] assms(7) by (auto simp: stage_ok_def)
  have n: "fetches j s' = fetches j s + (if j = i then length (on_wire i (ca_stage c')) else 0)" for j
    using on_wire_cases [of i "ca_stage c'"] by (auto simp: fetches_def assms(5))
  have old: "e \<in> set (sy_wire s) \<Longrightarrow> \<exists>c p. js_get (sy_calls s) (fst e) = Some c \<and> plan_of up h c = Inr p \<and> snd e = pl_url p" for e
    using assms(1) by (auto simp: effort_ok_def)
  have "e \<in> set (sy_wire s') \<Longrightarrow> \<exists>c p. js_get (sy_calls s') (fst e) = Some c \<and> plan_of up h c = Inr p \<and> snd e = pl_url p" for e
    using wire [of e] old [of e] assms(3,6) by (auto simp: assms(4,5))
  then show ?thesis
    using assms(1,2,7) n by (auto simp: effort_ok_def assms(4))
qed

lemma effort_stage:
  "effort_ok up h s \<Longrightarrow> js_get (sy_calls s) i = Some c
   \<Longrightarrow> stage_ok (plan_of up h c) (ca_begunAt c) (fetches i s) (ca_stage c)"
  by (simp add: effort_ok_def)

lemma fetching_plan: "stage_ok P t0 n (Fetching l p start ex) \<Longrightarrow> P = Inr (ld_plan l)"
  "stage_ok P t0 n (Draining l u d) \<Longrightarrow> P = Inr (ld_plan l)"
  "stage_ok P t0 n (Sleeping l t) \<Longrightarrow> P = Inr (ld_plan l)"
  by (simp_all add: stage_ok_def)

lemma effort_enter:
  assumes "effort_ok up h s" "slots_held (enter i c' r s)" "js_get (sy_calls s) i = Some c"
    "ca_input c' = ca_input c" "ca_init c' = ca_init c"
    "stage_ok (plan_of up h c) (ca_begunAt c') (fetches i s + length (on_wire i (snd r))) (snd r)"
  shows "effort_ok up h (enter i c' r s)"
  by (rule effort_update [OF assms(1,2), where i = i and c = c and c' = "c'\<lparr>ca_stage := snd r\<rparr>"]) (use assms in auto)

lemma no_wire [simp]:
  "on_wire i (snd (fetch_failed ab now x1 x2 err l p b)) = []"
  "on_wire i (snd (response_received pr now x1 x2 reply l p b)) = []"
  "on_wire i (drained ab now ms l) = []" "on_wire i (Settled r t) = []" "on_wire i (Returned r t) = []"
  "on_wire i InQueue = []" "on_wire i Ready = []"
  by (auto simp: on_wire_def fetch_failed_def response_received_def drained_def start_sleep_def Let_def split: option.splits)

lemma prepare_error: "prepare up h input init = Inl err \<Longrightarrow> err \<noteq> Settled_twice \<and> err \<noteq> No_response"
  by (auto simp: prepare_def resolveWithinBase_def Let_def split: option.splits if_splits sum.splits)

lemma effort_start:
  assumes ok: "effort_ok up h s" and h: "client_ok h" and c: "js_get (sy_calls s) i = Some c"
    and held: "slots_held (attemptLadder up h i now ex c s)"
  shows "effort_ok up h (attemptLadder up h i now ex c s)"
proof (cases "ca_stage c")
  case Ready
  then have n: "fetches i s = 0"
    using effort_stage [OF ok c] by (simp add: stage_ok_def)
  show ?thesis
  proof (cases "plan_of up h c")
    case (Inl err)
    then show ?thesis
      using held ok c n prepare_error [OF Inl]
      by (auto simp: attemptLadder_def Ready stage_ok_def settled_ok_def intro!: effort_enter)
  next
    case (Inr p)
    have "stage_ok (Inr (ld_plan (start_ladder p))) now (0 + length (on_wire i (snd (begin_attempt (ca_aborted c) now ex (start_ladder p) (sy_breaker s)))))
       (snd (begin_attempt (ca_aborted c) now ex (start_ladder p) (sy_breaker s)))"
      using prepare_plan_ok [OF h Inr] by (intro begin_attempt_ok) (auto simp: start_ladder_def plan_ok_def rung_def)
    then show ?thesis
      using held ok c n Inr by (auto simp: attemptLadder_def Ready start_ladder_def intro!: effort_enter)
  qed
qed (use ok in \<open>simp_all add: attemptLadder_def\<close>)

lemma effort_fetch_done:
  assumes ok: "effort_ok up h s" and h: "client_ok h" and c: "js_get (sy_calls s) i = Some c"
    and held: "slots_held (fetch_done pr i x1 x2 c s)"
  shows "effort_ok up h (fetch_done pr i x1 x2 c s)"
proof (cases "ca_stage c")
  case (Fetching l p start ex)
  have st: "stage_ok (plan_of up h c) (ca_begunAt c) (fetches i s) (Fetching l p start ex)"
    using effort_stage [OF ok c] Fetching by simp
  have plan: "plan_ok (ld_plan l)"
    using prepare_plan_ok [OF h] fetching_plan(1) [OF st] by blast
  obtain t r where t: "fetch_settles l start ex = Some (t, r)" "t \<le> start + pl_deadlineMs (ld_plan l)"
    using fetch_settles_bound st by (fastforce simp: stage_ok_def)
  show ?thesis
    using held ok c t fetch_failed_ok [OF st plan t(2)] response_received_ok [OF st plan t(2)]
    by (cases r) (auto simp: fetch_done_def Fetching intro!: effort_enter)
qed (use ok in \<open>simp_all add: fetch_done_def\<close>)

lemma effort_drain_done:
  assumes ok: "effort_ok up h s" and h: "client_ok h" and c: "js_get (sy_calls s) i = Some c"
    and held: "slots_held (drain_done i c s)"
  shows "effort_ok up h (drain_done i c s)"
proof (cases "ca_stage c")
  case (Draining l t ms)
  have st: "stage_ok (plan_of up h c) (ca_begunAt c) (fetches i s) (Draining l t ms)"
    using effort_stage [OF ok c] Draining by simp
  have plan: "plan_ok (ld_plan l)"
    using prepare_plan_ok [OF h] fetching_plan(2) [OF st] by blast
  obtain t' where t: "t = Some t'"
    using st by (auto simp: stage_ok_def)
  show ?thesis
    using held ok c t drained_ok [OF st plan t order_refl] by (auto simp: drain_done_def Draining intro!: effort_enter)
qed (use ok in \<open>simp_all add: drain_done_def\<close>)

lemma effort_sleep_done:
  assumes ok: "effort_ok up h s" and h: "client_ok h" and c: "js_get (sy_calls s) i = Some c"
    and held: "slots_held (sleep_done i ex c s)"
  shows "effort_ok up h (sleep_done i ex c s)"
proof (cases "ca_stage c")
  case (Sleeping l t)
  have st: "stage_ok (plan_of up h c) (ca_begunAt c) (fetches i s) (Sleeping l t)"
    using effort_stage [OF ok c] Sleeping by simp
  have P: "plan_of up h c = Inr (ld_plan (next_attempt l))"
    using fetching_plan(3) [OF st] by (simp add: next_attempt_def)
  have "stage_ok (plan_of up h c) (ca_begunAt c)
     (fetches i s + length (on_wire i (snd (begin_attempt (ca_aborted c) t ex (next_attempt l) (sy_breaker s)))))
     (snd (begin_attempt (ca_aborted c) t ex (next_attempt l) (sy_breaker s)))"
    unfolding P using prepare_plan_ok [OF h P] st by (intro begin_attempt_ok) (auto simp: next_attempt_def stage_ok_def)
  then show ?thesis
    using held ok c by (auto simp: sleep_done_def Sleeping intro!: effort_enter)
qed (use ok in \<open>simp_all add: sleep_done_def\<close>)

text \<open>A step that sends nothing.\<close>

lemma effort_put:
  assumes "effort_ok up h s" "slots_held s'" "js_get (sy_calls s) i = Some c"
    "sy_calls s' = js_set i c' (sy_calls s)" "sy_wire s' = sy_wire s" "ca_input c' = ca_input c" "ca_init c' = ca_init c"
    "on_wire i (ca_stage c') = []" "stage_ok (plan_of up h c) (ca_begunAt c') (fetches i s) (ca_stage c')"
  shows "effort_ok up h s'"
  by (rule effort_update [OF assms(1,2), where i = i and c = c and c' = c']) (use assms in auto)

lemma request_new:
  "js_get (sy_calls s) i = None \<Longrightarrow> \<exists>c. sy_calls (request i input init sig ab now s) = js_set i c (sy_calls s)
     \<and> (ca_stage c = Ready \<or> ca_stage c = InQueue \<or> (\<exists>r. ca_stage c = Returned r now))"
  by (auto simp: request_def Let_def split: acquire_result.splits intro!: exI)

lemma request_wire [simp]: "sy_wire (request i input init sig ab now s) = sy_wire s"
  by (simp add: request_def Let_def)

lemma effort_request:
  assumes ok: "effort_ok up h s" and held: "slots_held (request i input init sig ab now s)"
  shows "effort_ok up h (request i input init sig ab now s)"
proof (cases "js_get (sy_calls s) i")
  case None
  then obtain c where c: "sy_calls (request i input init sig ab now s) = js_set i c (sy_calls s)"
      "ca_stage c = Ready \<or> ca_stage c = InQueue \<or> (\<exists>r. ca_stage c = Returned r now)"
    using request_new by blast
  show ?thesis
    by (rule effort_update [OF ok held, where i = i and c' = c]) (use c None fetches_new [OF ok None] in \<open>auto simp: stage_ok_def\<close>)
qed (use ok in \<open>simp add: request_def\<close>)

lemma effort_queue_timer:
  assumes ok: "effort_ok up h s" and c: "js_get (sy_calls s) i = Some c" and held: "slots_held (queue_timer i now c s)"
  shows "effort_ok up h (queue_timer i now c s)"
proof (cases "ca_stage c = InQueue")
  case True
  then have n: "fetches i s = 0"
    using effort_stage [OF ok c] by (simp add: stage_ok_def)
  show ?thesis
  proof (cases "js_get (bh_waiters (fst (sy_bulkhead s))) i")
    case None
    then show ?thesis
      using ok True by (simp add: queue_timer_def queue_timeout_def)
  next
    case (Some q)
    show ?thesis
      by (rule effort_put [OF ok held c, where c' = "c\<lparr>ca_stage := Returned (Inl (Queue_timeout (now - q))) now\<rparr>"])
        (use True Some n in \<open>simp_all add: queue_timer_def queue_timeout_def stage_ok_def\<close>)
  qed
next
  case False
  then have "queue_timer i now c s = s"
    by (simp add: queue_timer_def split: stage.splits)
  then show ?thesis
    using ok by simp
qed

lemma effort_entered:
  assumes "effort_ok up h s" "js_get (sy_calls s) i = Some c" "slots_held s'"
    "s' = enter i (c\<lparr>ca_aborted := True\<rparr>) r s \<or> s' = s" "on_wire i (snd r) = []"
    "s' \<noteq> s \<Longrightarrow> stage_ok (plan_of up h c) (ca_begunAt c) (fetches i s) (snd r)"
  shows "effort_ok up h s'"
  using assms effort_enter [where c' = "c\<lparr>ca_aborted := True\<rparr>" and r = r, OF assms(1) _ assms(2)] by (cases "s' = s") auto

lemma effort_caller_abort:
  assumes ok: "effort_ok up h s" and h: "client_ok h" and c: "js_get (sy_calls s) i = Some c"
    and held: "slots_held (caller_abort i now x c s)"
  shows "effort_ok up h (caller_abort i now x c s)"
proof (cases "\<not> ca_signal c \<or> ca_aborted c")
  case True
  then show ?thesis
    using ok by (simp add: caller_abort_def)
next
  case False
  note st = effort_stage [OF ok c]
  show ?thesis
  proof (cases "ca_stage c")
    case (Fetching l p start ex)
    have st': "stage_ok (plan_of up h c) (ca_begunAt c) (fetches i s) (Fetching l p start ex)"
      using st Fetching by simp
    have plan: "plan_ok (ld_plan l)"
      using prepare_plan_ok [OF h] fetching_plan(1) [OF st'] by blast
    obtain t r where t: "fetch_settles l start ex = Some (t, r)" "t \<le> start + pl_deadlineMs (ld_plan l)"
      using fetch_settles_bound st' by (fastforce simp: stage_ok_def)
    have eq: "caller_abort i now x c s = (if now < t
        then enter i (c\<lparr>ca_aborted := True\<rparr>) (fetch_failed True now (draw x) 0 (Fault ''aborted'') l p (sy_breaker s)) s else s)"
      using False t(1) by (simp add: caller_abort_def Fetching Let_def)
    have "stage_ok (plan_of up h c) (ca_begunAt c) (fetches i s)
        (snd (fetch_failed True now (draw x) 0 (Fault ''aborted'') l p (sy_breaker s)))" if "now < t"
      using fetch_failed_ok [OF st' plan, where ?x2.0 = 0] that t(2) by (simp add: draw_def)
    then show ?thesis
      by (intro effort_entered [OF ok c held, where r = "fetch_failed True now (draw x) 0 (Fault ''aborted'') l p (sy_breaker s)"])
        (simp_all add: eq split: if_splits)
  next
    case (Draining l t ms)
    have st': "stage_ok (plan_of up h c) (ca_begunAt c) (fetches i s) (Draining l t ms)"
      using st Draining by simp
    have plan: "plan_ok (ld_plan l)"
      using prepare_plan_ok [OF h] fetching_plan(2) [OF st'] by blast
    obtain t' where t: "t = Some t'"
      using st' by (auto simp: stage_ok_def)
    have eq: "caller_abort i now x c s = (if now < t' then enter i (c\<lparr>ca_aborted := True\<rparr>) (sy_breaker s, drained True now ms l) s else s)"
      using False t by (simp add: caller_abort_def Draining Let_def)
    show ?thesis
      using drained_ok [OF st' plan t, of now]
      by (intro effort_entered [OF ok c held, where r = "(sy_breaker s, drained True now ms l)"]) (simp_all add: eq split: if_splits)
  next
    case (Sleeping l t)
    have st': "stage_ok (plan_of up h c) (ca_begunAt c) (fetches i s) (Sleeping l t)"
      using st Sleeping by simp
    have plan: "plan_ok (ld_plan l)"
      using prepare_plan_ok [OF h] fetching_plan(3) [OF st'] by blast
    have eq: "caller_abort i now x c s = (if now < t then enter i (c\<lparr>ca_aborted := True\<rparr>) (sy_breaker s, Settled (Inl Abort_error) now) s else s)"
      using False by (simp add: caller_abort_def Sleeping Let_def)
    have "now \<le> ca_begunAt c + call_budget (ld_plan l)" if "now < t"
      using st' that plan by (intro within_budget [OF plan, of "int (ld_attempt l)"]) (auto simp: stage_ok_def plan_ok_def)
    then have "stage_ok (plan_of up h c) (ca_begunAt c) (fetches i s) (Settled (Inl Abort_error) now)" if "now < t"
      using st' that by (simp add: stage_ok_def settled_ok_def)
    then show ?thesis
      by (intro effort_entered [OF ok c held, where r = "(sy_breaker s, Settled (Inl Abort_error) now)"]) (simp_all add: eq split: if_splits)
  next
    case InQueue
    show ?thesis
      by (rule effort_put [OF ok held c, where c' = "c\<lparr>ca_aborted := True, ca_stage := Returned (Inl Abort_error) now\<rparr>"])
        (use InQueue False st in \<open>simp_all add: caller_abort_def Let_def stage_ok_def\<close>)
  qed (rule effort_put [OF ok held c, where c' = "c\<lparr>ca_aborted := True\<rparr>"];
       use False st in \<open>simp add: caller_abort_def Let_def\<close>)+
qed

lemma release_calls:
  assumes held: "slots_held s" and c: "js_get (sy_calls s) i = Some c" and st: "ca_stage c = Settled r t"
  obtains (none) "sy_calls (release_slot i c s) = js_set i (c\<lparr>ca_stage := Returned r t\<rparr>) (sy_calls s)"
  | (succ) j c' where "js_get (sy_calls s) j = Some c'" "ca_stage c' = InQueue" "j \<noteq> i"
      "sy_calls (release_slot i c s) = js_set j (c'\<lparr>ca_stage := Ready\<rparr>) (js_set i (c\<lparr>ca_stage := Returned r t\<rparr>) (sy_calls s))"
proof (cases "bh_waiters (fst (sy_bulkhead s))")
  case Nil
  have "i \<in> set (snd (sy_bulkhead s))"
    using held c st by (auto simp: slots_held_def)
  then show thesis
    using that(1) Nil by (simp add: release_slot_def st release_permit_def handOff_def Let_def)
next
  case (Cons w ws)
  obtain j q where w: "w = (j, q)" by fastforce
  obtain c' where c': "js_get (sy_calls s) j = Some c'" "ca_stage c' = InQueue"
    using held unfolding slots_held_def waiting_def by (force simp: Cons w)
  have "i \<in> set (snd (sy_bulkhead s))" "j \<noteq> i"
    using held c st c' by (auto simp: slots_held_def)
  then show thesis
    using that(2) [OF c'] c' by (simp add: release_slot_def st release_permit_def handOff_def Let_def Cons w)
qed

lemma release_wire [simp]: "sy_wire (release_slot i c s) = sy_wire s" "fetches j (release_slot i c s) = fetches j s"
  by (simp_all add: fetches_def release_slot_def Let_def split: stage.splits option.splits)

lemma effort_calls:
  assumes "effort_ok up h s" "slots_held s'" "sy_wire s' = sy_wire s"
    "\<And>j. rel_option (\<lambda>c0 c1. ca_input c1 = ca_input c0 \<and> ca_init c1 = ca_init c0
       \<and> stage_ok (plan_of up h c1) (ca_begunAt c1) (fetches j s) (ca_stage c1)) (js_get (sy_calls s) j) (js_get (sy_calls s') j)"
  shows "effort_ok up h s'"
proof -
  have n: "fetches j s' = fetches j s" for j
    by (simp add: fetches_def assms(3))
  have "\<exists>c p. js_get (sy_calls s') (fst e) = Some c \<and> plan_of up h c = Inr p \<and> snd e = pl_url p" if "e \<in> set (sy_wire s)" for e
    using assms(1) that assms(4) [of "fst e"] by (fastforce simp: effort_ok_def option_rel_Some1)
  moreover have "stage_ok (plan_of up h c) (ca_begunAt c) (fetches j s) (ca_stage c)" if "js_get (sy_calls s') j = Some c" for j c
    using assms(4) [of j] that by (auto simp: option_rel_Some2)
  ultimately show ?thesis
    using assms(2,3) n by (simp add: effort_ok_def)
qed

lemma effort_release:
  assumes ok: "effort_ok up h s" and c: "js_get (sy_calls s) i = Some c" and held: "slots_held (release_slot i c s)"
  shows "effort_ok up h (release_slot i c s)"
proof (cases "ca_stage c")
  case (Settled r t)
  have rest: "rel_option (\<lambda>c0 c1. ca_input c1 = ca_input c0 \<and> ca_init c1 = ca_init c0
       \<and> stage_ok (plan_of up h c1) (ca_begunAt c1) (fetches j s) (ca_stage c1)) (js_get (sy_calls s) j) (js_get (sy_calls s) j)" for j
    using effort_stage [OF ok] by (cases "js_get (sy_calls s) j") auto
  have mine: "stage_ok (plan_of up h c) (ca_begunAt c) (fetches i s) (Returned r t)"
    using effort_stage [OF ok c] by (simp add: Settled stage_ok_def)
  have link: "slots_held s"
    using ok by (simp add: effort_ok_def)
  from link c Settled show ?thesis
  proof (cases rule: release_calls)
    case none
    show ?thesis
      by (rule effort_calls [OF ok held]) (use rest mine c in \<open>auto simp: none\<close>)
  next
    case (succ j c')
    have "fetches j s = 0"
      using effort_stage [OF ok succ(1)] by (simp add: succ(2) stage_ok_def)
    then show ?thesis
      using succ(1,3) by (intro effort_calls [OF ok held]) (use rest mine c in \<open>auto simp: succ(4) stage_ok_def [of _ _ _ Ready]\<close>)
  qed
qed (use ok in \<open>simp_all add: release_slot_def\<close>)

lemma effort_for_call:
  assumes "effort_ok up h s" "slots_held (for_call i f s)"
    "\<And>c. js_get (sy_calls s) i = Some c \<Longrightarrow> slots_held (f c s) \<Longrightarrow> effort_ok up h (f c s)"
  shows "effort_ok up h (for_call i f s)"
  using assms by (auto simp: for_call_def split: option.splits)

lemma effort_do:
  assumes h: "client_ok h" and ok: "effort_ok up h s"
  shows "effort_ok up h (client_do up pr h e s)"
proof -
  have held: "slots_held (client_do up pr h e s)"
    using slots_do ok by (simp add: effort_ok_def)
  show ?thesis
  proof (cases e)
    case (Request i input init sig ab now)
    then show ?thesis
      using effort_request [OF ok] held by simp
  next
    case (Queue_timer i now)
    then show ?thesis
      using held by (auto intro!: effort_for_call [OF ok] intro: effort_queue_timer [OF ok])
  next
    case (Start_ladder i now ex)
    then show ?thesis
      using held by (auto intro!: effort_for_call [OF ok] intro: effort_start [OF ok h])
  next
    case (Fetch_done i x1 x2)
    then show ?thesis
      using held by (auto intro!: effort_for_call [OF ok] intro: effort_fetch_done [OF ok h])
  next
    case (Drain_done i)
    then show ?thesis
      using held by (auto intro!: effort_for_call [OF ok] intro: effort_drain_done [OF ok h])
  next
    case (Sleep_done i ex)
    then show ?thesis
      using held by (auto intro!: effort_for_call [OF ok] intro: effort_sleep_done [OF ok h])
  next
    case (Caller_abort i now x)
    then show ?thesis
      using held by (auto intro!: effort_for_call [OF ok] intro: effort_caller_abort [OF ok h])
  next
    case (Release_slot i)
    then show ?thesis
      using held by (auto intro!: effort_for_call [OF ok] intro: effort_release [OF ok])
  qed
qed

lemma effort_run: "client_ok h \<Longrightarrow> effort_ok up h s \<Longrightarrow> effort_ok up h (fold (client_do up pr h) es s)"
  by (induction es arbitrary: s) (simp_all add: effort_do)

end
