(* ===== verification/Client_Circuit.thy ===== *)
theory Client_Circuit
  imports Client_Calls
begin

text \<open>
  The calls of an HTTP client against the circuit breaker and the bulkhead they share: every step of a
  call is a step of the breaker with the permit the call holds, so what holds of the breaker holds of
  the requests on the wire. The properties of the client follow.
\<close>

section \<open>What the calls do to the breaker\<close>

text \<open>The permits that requests on the wire hold.\<close>

definition permit_of :: "stage \<Rightarrow> permit list" where
  "permit_of st = (case st of Fetching l p start ex \<Rightarrow> [p] | _ \<Rightarrow> [])"

definition permits :: "client_system \<Rightarrow> permit list" where
  "permits s = concat (map (\<lambda>e. permit_of (ca_stage (snd e))) (sy_calls s))"

text \<open>
  One await to the next: a ladder leaves the breaker alone, is refused, is admitted with a permit it did
  not have, or settles the one it holds.
\<close>

inductive ladder_step :: "breaker \<Rightarrow> permit list \<Rightarrow> breaker \<Rightarrow> permit list \<Rightarrow> bool" where
  idle: "ladder_step b [] b []"
| refused: "Circuit_Breaker.acquire now b = (b1, Inl ms) \<Longrightarrow> ladder_step b [] b1 []"
| admitted: "Circuit_Breaker.acquire now b = (b1, Inr p) \<Longrightarrow> ladder_step b [] b1 [p]"
| settled: "settle outcome now x p b = Some (p1, b1) \<Longrightarrow> ladder_step b [p] b1 []"

lemma permit_of_simps [simp]:
  "permit_of (Fetching l p start ex) = [p]" "permit_of InQueue = []" "permit_of Ready = []" "permit_of (Draining l u d) = []"
  "permit_of (Sleeping l t) = []" "permit_of (Settled r t) = []" "permit_of (Returned r t) = []"
  by (simp_all add: permit_of_def)

lemma length_on_wire: "length (on_wire i st) = length (permit_of st)"
  by (cases st) (simp_all add: on_wire_def)

lemma begin_attempt_step: "ladder_step b [] (fst (begin_attempt ab now ex l b)) (permit_of (snd (begin_attempt ab now ex l b)))"
  by (auto simp: begin_attempt_def split: prod.splits sum.splits option.splits intro: ladder_step.intros)

lemma fetch_failed_step:
  "\<not> pm_settled p \<Longrightarrow> ladder_step b [p] (fst (fetch_failed ab now x1 x2 err l p b)) (permit_of (snd (fetch_failed ab now x1 x2 err l p b)))"
  using settled [of Ignored now x1 p b] settled [of Failure now x1 p b]
  by (auto simp: fetch_failed_def settle_def start_sleep_def Let_def)

lemma response_received_step:
  "\<not> pm_settled p \<Longrightarrow> ladder_step b [p] (fst (response_received pr now x1 x2 reply l p b)) (permit_of (snd (response_received pr now x1 x2 reply l p b)))"
  using settled [of Success now x1 p b] settled [of Failure now x1 p b]
  by (auto simp: response_received_def settle_def Let_def)

lemma permit_of_drained [simp]: "permit_of (drained ab now ms l) = []"
  by (simp add: drained_def start_sleep_def)

lemma mset_concat_set:
  "js_get m i = Some c \<Longrightarrow> mset (concat (map (\<lambda>e. f (snd e)) (js_set i c' m))) + mset (f c)
     = mset (concat (map (\<lambda>e. f (snd e)) m)) + mset (f c')"
  by (induction m) (auto split: if_splits)

lemma mset_concat_get: "js_get m i = Some c \<Longrightarrow> \<exists>rest. mset (concat (map (\<lambda>e. f (snd e)) m)) = mset (f c @ rest)"
proof (induction m)
  case (Cons e m)
  show ?case
  proof (cases "fst e = i")
    case False
    then obtain rest where "mset (concat (map (\<lambda>e. f (snd e)) m)) = mset (f c @ rest)"
      using Cons by (cases e) auto
    then show ?thesis
      by (intro exI [of _ "f (snd e) @ rest"]) simp
  qed (use Cons.prems in \<open>cases e, auto intro!: exI\<close>)
qed simp

definition step_of :: "client_system \<Rightarrow> client_system \<Rightarrow> bool" where
  "step_of s s' \<longleftrightarrow> (\<exists>ps ps' rest. mset (permits s) = mset (ps @ rest) \<and> mset (permits s') = mset (ps' @ rest)
     \<and> ladder_step (sy_breaker s) ps (sy_breaker s') ps' \<and> length (sy_wire s') = length (sy_wire s) + length ps')"

lemma step_same: "mset (permits s') = mset (permits s) \<Longrightarrow> sy_breaker s' = sy_breaker s \<Longrightarrow> sy_wire s' = sy_wire s \<Longrightarrow> step_of s s'"
  unfolding step_of_def by (rule exI [of _ "[]"], rule exI [of _ "[]"]) (auto intro: idle)

lemma permits_set:
  assumes "js_get (sy_calls s) i = Some c" "sy_calls s' = js_set i c' (sy_calls s)"
  obtains rest where "mset (permits s) = mset (permit_of (ca_stage c) @ rest)"
    "mset (permits s') = mset (permit_of (ca_stage c') @ rest)"
proof -
  obtain rest where rest: "mset (permits s) = mset (permit_of (ca_stage c) @ rest)"
    using mset_concat_get [OF assms(1), of "\<lambda>c. permit_of (ca_stage c)"] unfolding permits_def by blast
  show thesis
    using that [OF rest] rest mset_concat_set [OF assms(1), of "\<lambda>c. permit_of (ca_stage c)" c'] by (simp add: permits_def assms(2))
qed

lemma step_put:
  assumes "js_get (sy_calls s) i = Some c" "sy_calls s' = js_set i c' (sy_calls s)"
    "permit_of (ca_stage c') = permit_of (ca_stage c)" "sy_breaker s' = sy_breaker s" "sy_wire s' = sy_wire s"
  shows "step_of s s'"
  by (rule permits_set [OF assms(1,2)], rule step_same) (use assms in simp_all)

lemma step_new:
  "js_get (sy_calls s) i = None \<Longrightarrow> sy_calls s' = js_set i c (sy_calls s) \<Longrightarrow> permit_of (ca_stage c) = []
   \<Longrightarrow> sy_breaker s' = sy_breaker s \<Longrightarrow> sy_wire s' = sy_wire s \<Longrightarrow> step_of s s'"
  by (rule step_same) (simp_all add: permits_def js_set_new)

lemma step_enter:
  assumes c: "js_get (sy_calls s) i = Some c" and st: "ladder_step (sy_breaker s) (permit_of (ca_stage c)) (fst r) (permit_of (snd r))"
  shows "step_of s (enter i c' r s)"
proof -
  obtain rest where "mset (permits s) = mset (permit_of (ca_stage c) @ rest)"
    "mset (permits (enter i c' r s)) = mset (permit_of (snd r) @ rest)"
    using permits_set [OF c, of "enter i c' r s" "c'\<lparr>ca_stage := snd r\<rparr>"] by auto
  then show ?thesis
    using st unfolding step_of_def by (force simp: length_on_wire)
qed

lemma step_stay: "step_of s s"
  by (rule step_same) simp_all

lemma effort_unsettled:
  "effort_ok up h s \<Longrightarrow> js_get (sy_calls s) i = Some c \<Longrightarrow> ca_stage c = Fetching l p start ex \<Longrightarrow> \<not> pm_settled p"
  using effort_stage [of up h s i c] by (simp add: stage_ok_def)

lemma step_release:
  assumes held: "slots_held s" and c: "js_get (sy_calls s) i = Some c"
  shows "step_of s (release_slot i c s)"
proof (cases "ca_stage c")
  case (Settled r t)
  have b: "sy_breaker (release_slot i c s) = sy_breaker s"
    by (simp add: release_slot_def Let_def split: stage.splits option.splits)
  from held c Settled show ?thesis
  proof (cases rule: release_calls)
    case none
    show ?thesis
      by (rule step_put [OF c none]) (simp_all add: Settled b)
  next
    case (succ j c')
    let ?m = "s\<lparr>sy_calls := js_set i (c\<lparr>ca_stage := Returned r t\<rparr>) (sy_calls s)\<rparr>"
    have "mset (permits (release_slot i c s)) = mset (permits ?m)"
      by (rule permits_set [where s = ?m and i = j and c = c' and c' = "c'\<lparr>ca_stage := Ready\<rparr>" and s' = "release_slot i c s"])
        (use succ in simp_all)
    moreover have "mset (permits ?m) = mset (permits s)"
      by (rule permits_set [OF c, where s' = ?m and c' = "c\<lparr>ca_stage := Returned r t\<rparr>"]) (simp_all add: Settled)
    ultimately show ?thesis
      by (intro step_same) (simp_all add: b)
  qed
qed (simp_all add: release_slot_def step_stay)

lemma step_caller_abort:
  assumes ok: "effort_ok up h s" and c: "js_get (sy_calls s) i = Some c"
  shows "step_of s (caller_abort i now x c s)"
proof (cases "ca_stage c")
  case InQueue
  then show ?thesis
    by (auto simp: caller_abort_def Let_def step_stay intro!: step_put [OF c])
next
  case (Fetching l p start ex)
  note st = fetch_failed_step [OF effort_unsettled [OF ok c Fetching]]
  show ?thesis
    using st by (auto simp: caller_abort_def Let_def Fetching step_stay split: option.splits intro!: step_enter [OF c])
next
  case (Draining l t ms)
  then show ?thesis
    by (auto simp: caller_abort_def Let_def step_stay intro!: step_enter [OF c] ladder_step.idle)
next
  case (Sleeping l t)
  then show ?thesis
    by (auto simp: caller_abort_def Let_def step_stay intro!: step_enter [OF c] ladder_step.idle)
qed (auto simp: caller_abort_def Let_def step_stay intro!: step_put [OF c])

lemma step_fetch_done:
  assumes ok: "effort_ok up h s" and c: "js_get (sy_calls s) i = Some c"
  shows "step_of s (fetch_done pr i x1 x2 c s)"
proof (cases "ca_stage c")
  case (Fetching l p start ex)
  note un = effort_unsettled [OF ok c Fetching]
  show ?thesis
    using fetch_failed_step [OF un] response_received_step [OF un]
    by (auto simp: fetch_done_def Fetching step_stay split: option.splits sum.splits intro!: step_enter [OF c])
qed (simp_all add: fetch_done_def step_stay)

lemma step_start: "js_get (sy_calls s) i = Some c \<Longrightarrow> step_of s (attemptLadder up h i now ex c s)"
  by (auto simp: attemptLadder_def step_stay begin_attempt_step ladder_step.idle split: stage.splits sum.splits intro!: step_enter)

lemma step_sleep_done: "js_get (sy_calls s) i = Some c \<Longrightarrow> step_of s (sleep_done i ex c s)"
  by (auto simp: sleep_done_def step_stay begin_attempt_step split: stage.splits intro!: step_enter)

lemma step_drain_done: "js_get (sy_calls s) i = Some c \<Longrightarrow> step_of s (drain_done i c s)"
  by (auto simp: drain_done_def step_stay ladder_step.idle split: stage.splits option.splits intro!: step_enter)

lemma step_queue_timer: "js_get (sy_calls s) i = Some c \<Longrightarrow> step_of s (queue_timer i now c s)"
  by (auto simp: queue_timer_def step_stay split: stage.splits option.splits prod.splits intro!: step_put)

lemma request_breaker [simp]: "sy_breaker (request i input init sig ab now s) = sy_breaker s"
  by (simp add: request_def Let_def)

lemma step_request: "step_of s (request i input init sig ab now s)"
proof (cases "js_get (sy_calls s) i")
  case None
  then obtain c where "sy_calls (request i input init sig ab now s) = js_set i c (sy_calls s)"
      "ca_stage c = Ready \<or> ca_stage c = InQueue \<or> (\<exists>r. ca_stage c = Returned r now)"
    using request_new by blast
  then show ?thesis
    using None by (intro step_new) auto
qed (simp add: request_def step_stay)

lemma client_do_step:
  assumes ok: "effort_ok up h s"
  shows "step_of s (client_do up pr h e s)"
proof -
  have "slots_held s"
    using ok by (simp add: effort_ok_def)
  then show ?thesis
    by (cases e) (auto simp: for_call_def step_stay step_request step_queue_timer step_start step_fetch_done [OF ok] step_drain_done
        step_sleep_done step_caller_abort [OF ok] step_release split: option.splits)
qed

section \<open>Probes on the wire\<close>

lemma probe_inv_mset: "probe_inv (b, ps) \<Longrightarrow> mset ps = mset qs \<Longrightarrow> probe_inv (b, qs)"
proof -
  assume "probe_inv (b, ps)" "mset ps = mset qs"
  moreover have "mset ps = mset qs \<Longrightarrow> length (filter P ps) = length (filter P qs)" for P
    by (metis mset_filter size_mset)
  ultimately show ?thesis
    using mset_eq_setD [of ps qs] by (simp add: probe_inv_def outstanding_def)
qed

lemma settle_probe:
  assumes "settle o' now x p b = Some (p1, b1)" "probe_inv (b, p # rest)"
  shows "probe_inv (b1, rest)"
proof -
  have "probe_inv (b1, (p # rest)[0 := p1])"
    using assms by (intro settle_inv) auto
  moreover have "pm_settled p1"
    using assms(1) by (auto simp: settle_def split: if_splits)
  ultimately show ?thesis
    by (simp add: probe_inv_def outstanding_def)
qed

lemma ladder_step_probe: "ladder_step b ps b' ps' \<Longrightarrow> probe_inv (b, ps @ rest) \<Longrightarrow> probe_inv (b', ps' @ rest)"
proof (induction rule: ladder_step.induct)
  case (admitted now b b1 p)
  then have "probe_inv (b1, rest @ [p])"
    using acquire_inv(2) by simp
  then show ?case
    by (rule probe_inv_mset) simp
qed (auto dest: acquire_inv(1) settle_probe)

lemma ladder_step_options: "ladder_step b ps b' ps' \<Longrightarrow> cb_options b' = cb_options b"
proof (induction rule: ladder_step.induct)
  case (refused now b b1 ms)
  then show ?case
    using circuit_step_options [OF step_refuse [OF refused, of "[]"]] by simp
next
  case (admitted now b b1 p)
  then show ?case
    using circuit_step_options [OF step_admit [OF admitted, of "[]"]] by simp
next
  case (settled outcome now x p b p1 b1)
  then show ?case
    by (auto simp: settle_def record_fields split: if_splits)
qed simp

section \<open>Volume\<close>

text \<open>How many outcomes the buckets hold, whatever their age, and a breaker that holds at most \<open>n\<close> and is closed.\<close>

definition volume :: "breaker \<Rightarrow> int" where
  "volume b = sum_list (map (\<lambda>k. bk_successes k + bk_failures k) (cb_buckets b))"

definition calm :: "int \<Rightarrow> breaker \<Rightarrow> bool" where
  "calm n b \<longleftrightarrow> cb_state b = Closed \<and> volume b \<le> n \<and> (\<forall>k \<in> set (cb_buckets b). 0 \<le> bk_successes k \<and> 0 \<le> bk_failures k)"

lemma calm_mono: "calm m b \<Longrightarrow> m \<le> n \<Longrightarrow> calm n b"
  by (auto simp: calm_def)

lemma sum_list_filter_le:
  fixes f :: "'a \<Rightarrow> int"
  shows "\<forall>x \<in> set xs. 0 \<le> f x \<Longrightarrow> sum_list (map f (filter P xs)) \<le> sum_list (map f xs)"
  by (induction xs) (auto intro: order_trans)

lemma totals_le_volume:
  assumes "calm n b" "totals now b = (su, fa)"
  shows "su + fa \<le> n"
proof -
  have "su + fa = sum_list (map (\<lambda>k. bk_successes k + bk_failures k) (filter (\<lambda>k. \<not> bk_epoch k < now div cb_bucketMs b - (co_bucketCount (cb_options b) - 1)) (cb_buckets b)))"
    using assms(2) by (auto simp: totals_def Let_def sum_list_addf)
  also have "\<dots> \<le> volume b"
    using assms(1) unfolding volume_def by (intro sum_list_filter_le) (auto simp: calm_def)
  finally show ?thesis
    using assms(1) by (simp add: calm_def)
qed

lemma sum_list_update_le:
  fixes f :: "'a \<Rightarrow> int"
  shows "\<forall>x \<in> set xs. 0 \<le> f x \<Longrightarrow> (\<And>x. i < length xs \<Longrightarrow> x = xs ! i \<Longrightarrow> f y \<le> f x + 1)
    \<Longrightarrow> sum_list (map f (xs[i := y])) \<le> sum_list (map f xs) + 1"
proof (induction xs arbitrary: i)
  case (Cons x xs)
  then show ?case
    by (cases i) fastforce+
qed simp

lemma count_outcome_calm: "calm n b \<Longrightarrow> calm (n + 1) (count_outcome o' now b)"
proof -
  assume calm: "calm n b"
  let ?i = "bucket_index (now div cb_bucketMs b) b" and ?b = "currentBucket now b"
  let ?k = "if o' = Success then ?b\<lparr>bk_successes := bk_successes ?b + 1\<rparr> else ?b\<lparr>bk_failures := bk_failures ?b + 1\<rparr>"
  have pos: "\<forall>k \<in> set (cb_buckets b). 0 \<le> bk_successes k \<and> 0 \<le> bk_failures k"
    using calm by (simp add: calm_def)
  have cur: "?i < length (cb_buckets b) \<Longrightarrow> 0 \<le> bk_successes ?b \<and> 0 \<le> bk_failures ?b
      \<and> bk_successes ?b + bk_failures ?b \<le> bk_successes (cb_buckets b ! ?i) + bk_failures (cb_buckets b ! ?i)"
    using pos by (auto simp: currentBucket_def Let_def)
  have buckets: "cb_buckets (count_outcome o' now b) = (cb_buckets b)[?i := ?k]"
    by (simp add: count_outcome_def Let_def)
  have "volume (count_outcome o' now b) \<le> volume b + 1"
    unfolding volume_def buckets by (rule sum_list_update_le) (use pos cur in auto)
  moreover have "\<forall>k \<in> set ((cb_buckets b)[?i := ?k]). 0 \<le> bk_successes k \<and> 0 \<le> bk_failures k"
  proof (cases "?i < length (cb_buckets b)")
    case True
    then have k: "0 \<le> bk_successes ?k \<and> 0 \<le> bk_failures ?k"
      using cur by simp
    show ?thesis
    proof
      fix k
      assume "k \<in> set ((cb_buckets b)[?i := ?k])"
      then have "k = ?k \<or> k \<in> set (cb_buckets b)"
        using set_update_subset_insert [of "cb_buckets b" ?i ?k] by blast
      then show "0 \<le> bk_successes k \<and> 0 \<le> bk_failures k"
        using pos k by blast
    qed
  qed (use pos in \<open>simp add: list_update_beyond\<close>)
  ultimately show ?thesis
    using calm by (simp add: calm_def count_outcome_def Let_def)
qed

lemma settle_calm:
  assumes "calm n b" "settle o' now x p b = Some (p1, b1)" "n + 1 < co_minimumThroughput (cb_options b)"
  shows "calm (n + 1) b1"
proof -
  define b0 where "b0 = note_outcome o' (pm_issuedIn p) (pm_generation p) now b"
  have b1: "b1 = decide o' (pm_issuedIn p) (pm_generation p) now x b0"
    using assms(2) by (auto simp: settle_def record_outcome_def b0_def split: if_splits)
  let ?b = "if pm_issuedIn p = HalfOpen \<and> pm_generation p = cb_generation b
    then b\<lparr>cb_probesInFlight := max 0 (cb_probesInFlight b - 1)\<rparr> else b"
  have "calm n ?b"
    using assms(1) by (simp add: calm_def volume_def)
  moreover have "b0 = (if o' \<noteq> Ignored then count_outcome o' now ?b else ?b)"
    by (simp add: b0_def note_outcome_def Let_def)
  ultimately have calm: "calm (n + 1) b0"
    using count_outcome_calm [of n ?b o' now] calm_mono [of n ?b "n + 1"] by simp
  have opt: "cb_options b0 = cb_options b"
    by (auto simp: b0_def note_outcome_def count_outcome_def Let_def)
  obtain su fa where tot: "totals now b0 = (su, fa)"
    by fastforce
  have "su + fa < co_minimumThroughput (cb_options b0)"
    using totals_le_volume [OF calm tot] assms(3) opt by simp
  then have "decide o' (pm_issuedIn p) (pm_generation p) now x b0 = b0"
    using calm by (simp add: decide_def Let_def tot calm_def)
  then show ?thesis
    using calm b1 by simp
qed

lemma acquire_calm: "calm n b \<Longrightarrow> Circuit_Breaker.acquire now b = (b1, r) \<Longrightarrow> b1 = b \<and> (\<exists>p. r = Inr p)"
  by (auto simp: calm_def Circuit_Breaker.acquire_def check_state_def Let_def)

section \<open>The client as a whole\<close>

definition circuit_ok :: "breaker_options \<Rightarrow> client_system \<Rightarrow> bool" where
  "circuit_ok opt s \<longleftrightarrow> cb_options (sy_breaker s) = opt \<and> probe_inv (sy_breaker s, permits s)
     \<and> length (permits s) \<le> length (sy_wire s)
     \<and> (co_minimumThroughput opt \<le> int (length (sy_wire s))
        \<or> calm (int (length (sy_wire s)) - int (length (permits s))) (sy_breaker s))"

lemma circuit_step_ok: "circuit_ok opt s \<Longrightarrow> step_of s s' \<Longrightarrow> circuit_ok opt s'"
proof -
  assume ok: "circuit_ok opt s" and "step_of s s'"
  then obtain ps ps' rest where m: "mset (permits s) = mset (ps @ rest)" "mset (permits s') = mset (ps' @ rest)"
    and st: "ladder_step (sy_breaker s) ps (sy_breaker s') ps'" and w: "length (sy_wire s') = length (sy_wire s) + length ps'"
    unfolding step_of_def by blast
  have len: "length (permits s) = length ps + length rest" "length (permits s') = length ps' + length rest"
    using m [THEN mset_eq_length] by simp_all
  have "probe_inv (sy_breaker s, ps @ rest)"
    using ok m(1) probe_inv_mset by (auto simp: circuit_ok_def)
  then have "probe_inv (sy_breaker s', permits s')"
    using ladder_step_probe [OF st] probe_inv_mset m(2) by metis
  moreover have "cb_options (sy_breaker s') = opt"
    using ladder_step_options [OF st] ok by (simp add: circuit_ok_def)
  moreover have "co_minimumThroughput opt \<le> int (length (sy_wire s'))
      \<or> calm (int (length (sy_wire s')) - int (length (permits s'))) (sy_breaker s')"
  proof (cases "co_minimumThroughput opt \<le> int (length (sy_wire s'))")
    case False
    then have calm: "calm (int (length (sy_wire s)) - int (length (permits s))) (sy_breaker s)"
      using ok w by (auto simp: circuit_ok_def)
    have opt: "cb_options (sy_breaker s) = opt"
      using ok by (simp add: circuit_ok_def)
    show ?thesis
      using st
    proof cases
      case (settled outcome now x p p1)
      then show ?thesis
        using settle_calm [OF calm settled(3)] False w len ok
        by (auto simp: opt intro: calm_mono)
    next
      case (admitted now p)
      then show ?thesis
        using acquire_calm [OF calm admitted(3)] calm w len by simp
    next
      case (refused now ms)
      then show ?thesis
        using acquire_calm [OF calm refused(3)] by simp
    next
      case idle
      then show ?thesis
        using calm w len by simp
    qed
  qed simp
  ultimately show ?thesis
    using ok len w by (auto simp: circuit_ok_def)
qed

definition client_inv :: "url_parser \<Rightarrow> http_client \<Rightarrow> breaker_options \<Rightarrow> client_system \<Rightarrow> bool" where
  "client_inv up h opt s \<longleftrightarrow> client_ok h \<and> effort_ok up h s \<and> circuit_ok opt s"

interpretation client: step_invariant "client_do up pr h" "client_inv up h opt" for up pr h opt
  by unfold_locales (auto simp: client_inv_def effort_do intro: circuit_step_ok client_do_step)

lemma create_facts:
  assumes "createHttpClient opt = Inr (h, b, k)"
  shows "client_ok h" "createCircuitBreaker (client_breaker_options (op_breaker opt)) = Inr b" "client_bulkhead (op_bulkhead opt) = Inr k"
    "ht_baseUrl h = op_baseUrl opt" "ht_policy h = spread_policy DEFAULT_RETRY_POLICY (op_retry opt)"
  using assms by (auto simp: createHttpClient_def client_ok_def Let_def simp del: assertPolicy_ok split: option.splits sum.splits)

lemma create_calm: "createCircuitBreaker opt = Inr b \<Longrightarrow> calm 0 b"
  by (auto simp: createCircuitBreaker_def calm_def volume_def empty_bucket_def map_replicate_const sum_list_replicate split: if_splits)

lemma new_client_inv:
  assumes "createHttpClient opt = Inr (h, b, k)"
  shows "client_inv up h (client_breaker_options (op_breaker opt)) (new_system (b, k))"
proof -
  note facts = create_facts [OF assms]
  have "slots_ok (k, [])" "bh_waiters k = []"
    using facts(3) by (auto simp: client_bulkhead_def createBulkhead_def slots_ok_def waiting_def split: if_splits)
  moreover have "probe_inv (b, [])" "cb_options b = client_breaker_options (op_breaker opt)" "calm 0 b"
    using create_probe_inv [OF facts(2)] create_calm [OF facts(2)] by simp_all
  ultimately show ?thesis
    using facts(1) by (simp add: client_inv_def effort_ok_def circuit_ok_def new_system_def slots_held_def permits_def waiting_def)
qed

lemma client_run:
  assumes "createHttpClient opt = Inr (h, b, k)"
  shows "client_inv up h (client_breaker_options (op_breaker opt)) (fold (client_do up pr h) es (new_system (b, k)))"
  by (rule client.run_keeps, rule new_client_inv, rule assms)

section \<open>Every call ends\<close>

text \<open>
  What the environment supplies when it resumes a call: how the origin treats the next attempt, two draws
  and a clock reading; and the resumption of whatever the call awaits.
\<close>

record resumption =
  rs_exchange :: exchange
  rs_draw1 :: rat
  rs_draw2 :: rat
  rs_now :: int

definition next_event :: "nat \<Rightarrow> stage \<Rightarrow> resumption \<Rightarrow> client_event" where
  "next_event i st u =
     (case st of
        Ready \<Rightarrow> Start_ladder i (rs_now u) (rs_exchange u)
      | Fetching l p start ex \<Rightarrow> Fetch_done i (rs_draw1 u) (rs_draw2 u)
      | Sleeping l t \<Rightarrow> Sleep_done i (rs_exchange u)
      | _ \<Rightarrow> Drain_done i)"

definition resume :: "url_parser \<Rightarrow> (string option \<Rightarrow> int \<Rightarrow> int option) \<Rightarrow> http_client \<Rightarrow> nat \<Rightarrow> resumption \<Rightarrow> client_system \<Rightarrow> client_system" where
  "resume up pr h i u s =
     (case js_get (sy_calls s) i of None \<Rightarrow> s | Some c \<Rightarrow> client_do up pr h (next_event i (ca_stage c) u) s)"

text \<open>How many resumptions a stage is away from the end.\<close>

definition left_over :: "ladder \<Rightarrow> nat" where
  "left_over l = nat (pl_maxAttempts (ld_plan l)) - ld_attempt l"

definition rank :: "client_error + call_plan \<Rightarrow> stage \<Rightarrow> nat" where
  "rank P st =
     (case st of
        Ready \<Rightarrow> (case P of Inl err \<Rightarrow> 1 | Inr p \<Rightarrow> 3 * nat (pl_maxAttempts p) + 1)
      | Fetching l p start ex \<Rightarrow> 3 * left_over l + 3
      | Draining l t delayMs \<Rightarrow> 3 * left_over l + 2
      | Sleeping l t \<Rightarrow> 3 * left_over l + 1
      | _ \<Rightarrow> 0)"

lemma rank_zero: "active st \<Longrightarrow> rank P st = 0 \<longleftrightarrow> (\<exists>r t. st = Settled r t)"
  by (cases st) (auto simp: rank_def split: sum.splits)

lemma begin_attempt_rank:
  "rank P (snd (begin_attempt ab now ex l b)) \<le> 3 * left_over l + 3"
  by (auto simp: begin_attempt_def rank_def left_over_def split: prod.splits sum.splits)

lemma fetch_failed_rank: "rank P (snd (fetch_failed ab now x1 x2 err l p b)) \<le> 3 * left_over l + 1"
  by (auto simp: fetch_failed_def rank_def start_sleep_def left_over_def Let_def split: option.splits)

lemma response_received_rank: "rank P (snd (response_received pr now x1 x2 reply l p b)) \<le> 3 * left_over l + 2"
  by (auto simp: response_received_def rank_def left_over_def Let_def split: option.splits)

lemma drained_rank: "rank P (drained ab now ms l) \<le> 3 * left_over l + 1"
  by (simp add: drained_def rank_def start_sleep_def left_over_def)

lemma next_attempt_left: "int (ld_attempt l) < pl_maxAttempts (ld_plan l) \<Longrightarrow> Suc (left_over (next_attempt l)) = left_over l"
  by (simp add: left_over_def next_attempt_def)

lemma start_left: "plan_ok p \<Longrightarrow> 3 * left_over (start_ladder p) + 3 = 3 * nat (pl_maxAttempts p)"
  by (simp add: left_over_def start_ladder_def plan_ok_def) linarith

text \<open>A resumption brings an unfinished call nearer to its end and leaves it the same call.\<close>

lemma resume_progress:
  assumes inv: "client_inv up h opt s" and c: "js_get (sy_calls s) i = Some c" and act: "active (ca_stage c)"
  shows "\<exists>c'. js_get (sy_calls (resume up pr h i u s)) i = Some c' \<and> active (ca_stage c') \<and> plan_of up h c' = plan_of up h c
    \<and> rank (plan_of up h c) (ca_stage c') \<le> rank (plan_of up h c) (ca_stage c) - 1"
proof -
  have ok: "effort_ok up h s" and h: "client_ok h"
    using inv by (simp_all add: client_inv_def)
  note st = effort_stage [OF ok c]
  show ?thesis
  proof (cases "ca_stage c")
    case Ready
    show ?thesis
    proof (cases "plan_of up h c")
      case (Inr p)
      have "rank (Inr p) (snd (begin_attempt (ca_aborted c) (rs_now u) (rs_exchange u) (start_ladder p) (sy_breaker s)))
          \<le> 3 * nat (pl_maxAttempts p)"
        using begin_attempt_rank start_left [OF prepare_plan_ok [OF h Inr]] by metis
      then show ?thesis
        using c by (simp add: resume_def next_event_def Ready for_call_def attemptLadder_def Inr rank_def [of _ Ready])
    qed (use c in \<open>simp add: resume_def next_event_def Ready for_call_def attemptLadder_def rank_def\<close>)
  next
    case (Fetching l p start ex)
    obtain t r where t: "fetch_settles l start ex = Some (t, r)"
      using fetch_settles_bound st by (fastforce simp: stage_ok_def Fetching)
    show ?thesis
      using c t le_trans [OF fetch_failed_rank, where k = "3 * left_over l + 2"] response_received_rank
      by (cases r) (simp_all add: resume_def next_event_def Fetching for_call_def fetch_done_def rank_def [of _ "Fetching l p start ex"])
  next
    case (Draining l t ms)
    then obtain t' where "t = Some t'"
      using st by (auto simp: stage_ok_def)
    then show ?thesis
      using c drained_rank by (simp add: resume_def next_event_def Draining for_call_def drain_done_def rank_def [of _ "Draining l _ ms"])
  next
    case (Sleeping l t)
    have "Suc (left_over (next_attempt l)) = left_over l"
      using st by (intro next_attempt_left) (simp add: Sleeping stage_ok_def)
    then have "rank P (snd (begin_attempt ab t ex (next_attempt l) b)) \<le> 3 * left_over l" for P ab ex b
      using begin_attempt_rank [of P ab t ex "next_attempt l" b] by simp
    then show ?thesis
      using c by (simp add: resume_def next_event_def Sleeping for_call_def sleep_done_def rank_def [of _ "Sleeping l t"])
  next
    case (Settled r t)
    then show ?thesis
      using c by (simp add: resume_def next_event_def for_call_def drain_done_def rank_def)
  qed (use act in simp_all)
qed

lemma resume_inv: "client_inv up h opt s \<Longrightarrow> client_inv up h opt (resume up pr h i u s)"
  by (auto simp: resume_def client.step_keeps split: option.splits)

lemma resumes_finish:
  assumes "client_inv up h opt s" "js_get (sy_calls s) i = Some c" "active (ca_stage c)"
    "rank (plan_of up h c) (ca_stage c) \<le> length us"
  shows "\<exists>c' r t. js_get (sy_calls (fold (resume up pr h i) us s)) i = Some c' \<and> ca_stage c' = Settled r t
    \<and> plan_of up h c' = plan_of up h c \<and> client_inv up h opt (fold (resume up pr h i) us s)"
  using assms
proof (induction us arbitrary: s c)
  case Nil
  then show ?case
    using rank_zero [of "ca_stage c"] by auto
next
  case (Cons u us)
  obtain c' where c': "js_get (sy_calls (resume up pr h i u s)) i = Some c'" "active (ca_stage c')" "plan_of up h c' = plan_of up h c"
    "rank (plan_of up h c) (ca_stage c') \<le> rank (plan_of up h c) (ca_stage c) - 1"
    using resume_progress [OF Cons.prems(1-3)] by blast
  then show ?case
    using Cons.IH [OF resume_inv [OF Cons.prems(1)] c'(1,2)] Cons.prems(4) by simp
qed

lemma rank_bound:
  assumes "stage_ok P t0 n st" "active st"
  shows "rank P st \<le> (case P of Inl err \<Rightarrow> 1 | Inr p \<Rightarrow> 3 * nat (pl_maxAttempts p) + 1)"
  using assms by (cases st) (auto simp: rank_def stage_ok_def left_over_def split: sum.splits)

section \<open>The calls as a map\<close>

lemma calls_js_ok: "js_ok (sy_calls s) \<Longrightarrow> js_ok (sy_calls (client_do up pr h e s))"
  by (cases e)
    (simp_all add: for_call_def request_def queue_timer_def attemptLadder_def fetch_done_def drain_done_def sleep_done_def
      caller_abort_def release_slot_def Let_def split: option.splits stage.splits sum.splits prod.splits)

lemma calls_run_ok: "js_ok (sy_calls s) \<Longrightarrow> js_ok (sy_calls (fold (client_do up pr h) es s))"
  by (induction es arbitrary: s) (simp_all add: calls_js_ok)

section \<open>A client in use\<close>

definition no_options :: client_options where
  "no_options = \<lparr>op_baseUrl = None, op_timeoutMs = None, op_headersTimeoutMs = None, op_bodyIdleTimeoutMs = None,
     op_retry = \<lparr>ro_attempts = None, ro_baseDelayMs = None, ro_maxDelayMs = None, ro_maxRetryAfterMs = None,
       ro_retryNonIdempotent = None, ro_drainBytes = None\<rparr>,
     op_breaker = \<lparr>ov_windowMs = None, ov_bucketCount = None, ov_failureRateThreshold = None, ov_minimumThroughput = None,
       ov_openMs = None, ov_openJitterRatio = None, ov_halfOpenProbes = None, ov_halfOpenSuccessThreshold = None\<rparr>,
     op_bulkhead = \<lparr>ov_maxConcurrent = None, ov_maxQueue = None, ov_queueTimeoutMs = None\<rparr>\<rparr>"

definition demo_options :: client_options where
  "demo_options = no_options\<lparr>op_baseUrl := Some ''https://dep.test/v1/'',
     op_breaker := (op_breaker no_options)\<lparr>ov_minimumThroughput := Some 3\<rparr>\<rparr>"

definition client_parts :: "string + http_client \<times> breaker \<times> bulkhead \<Rightarrow> http_client \<times> breaker \<times> bulkhead" where
  "client_parts r = (case r of Inr parts \<Rightarrow> parts
     | Inl field \<Rightarrow> (\<lparr>ht_baseUrl = None, ht_timeoutMs = 0, ht_headersTimeoutMs = None, ht_bodyIdleTimeoutMs = None,
         ht_policy = DEFAULT_RETRY_POLICY\<rparr>, demo_breaker,
         \<lparr>bh_maxConcurrent = 1, bh_maxQueue = 0, bh_queueTimeoutMs = 1, bh_waiters = [], bh_inFlightCount = 0\<rparr>))"

definition demo_client :: "http_client \<times> breaker \<times> bulkhead" where
  "demo_client = client_parts (createHttpClient demo_options)"

definition demo_parser :: url_parser where
  "demo_parser = \<lparr>parse_url = (\<lambda>s. Some \<lparr>url_protocol = ''https:'', url_host = ''dep.test'', url_pathname = ''/v1/'', url_search = []\<rparr>),
     resolve_url = (\<lambda>r base. Some (base\<lparr>url_pathname := directory (url_pathname base) @ r\<rparr>))\<rparr>"

definition demo_init :: http_init where
  "demo_init = \<lparr>in_method = None, in_headers = None, in_body = NoBody, in_retry = None, in_timeoutMs = None,
     in_headersTimeoutMs = None, in_bodyIdleTimeoutMs = None\<rparr>"

definition demo_unavailable :: exchange where
  "demo_unavailable = \<lparr>ex_after = Some 10, ex_reply = Inr \<lparr>hr_status = 503, hr_headers = [], hr_url = [], hr_redirected = False,
     hr_body = Some \<lparr>bd_chunks = [(1, 20)], bd_end = Ends_after 0, bd_used = False\<rparr>\<rparr>\<rparr>"

text \<open>One attempt of a call that is answered with the status 503, up to the head of the loop again.\<close>

definition demo_attempt :: "nat \<Rightarrow> client_event list" where
  "demo_attempt i = [Fetch_done i 0 0, Drain_done i, Sleep_done i demo_unavailable]"

definition demo_run :: "http_client \<times> breaker \<times> bulkhead \<Rightarrow> client_event list \<Rightarrow> client_system" where
  "demo_run parts es = fold (client_do demo_parser (\<lambda>v now. None) (fst parts)) es (new_system (snd parts))"

definition demo_two_calls :: "client_event list" where
  "demo_two_calls = [Request 0 ''a'' demo_init False False 0, Request 1 ''b'' demo_init False False 0,
     Start_ladder 0 0 demo_unavailable, Start_ladder 1 0 demo_unavailable, Fetch_done 1 0 0]"

lemma demo_client_created: "createHttpClient demo_options = Inr (fst demo_client, fst (snd demo_client), snd (snd demo_client))"
proof -
  have "case createHttpClient demo_options of Inl field \<Rightarrow> False | Inr parts \<Rightarrow> True"
    by code_simp
  then show ?thesis
    by (auto simp: demo_client_def client_parts_def split: sum.splits)
qed

definition demo_call :: "client_event list \<Rightarrow> http_call" where
  "demo_call es = (case js_get (sy_calls (demo_run demo_client es)) 0 of Some c \<Rightarrow> c
     | None \<Rightarrow> \<lparr>ca_input = [], ca_init = demo_init, ca_signal = False, ca_aborted = False, ca_begunAt = 0, ca_stage = InQueue\<rparr>)"

lemma demo_run_eq:
  "demo_run demo_client es = fold (client_do demo_parser (\<lambda>v now. None) (fst demo_client)) es
     (new_system (fst (snd demo_client), snd (snd demo_client)))"
  by (simp add: demo_run_def)

lemma demo_call_found: "js_get (sy_calls (demo_run demo_client demo_two_calls)) 0 = Some (demo_call demo_two_calls)"
proof -
  have "js_get (sy_calls (demo_run demo_client demo_two_calls)) 0 \<noteq> None"
    by code_simp
  then show ?thesis
    by (auto simp: demo_call_def)
qed

section \<open>Properties\<close>

lemma stage_sent:
  assumes "stage_ok P t0 n st"
  shows "P = Inr p \<Longrightarrow> plan_ok p \<Longrightarrow> int n \<le> pl_maxAttempts p" "P = Inl err \<Longrightarrow> n = 0"
  using assms by (cases st; auto simp: stage_ok_def settled_ok_def plan_ok_def)+

lemma prepare_attempts:
  "prepare up h input init = Inr p
   \<Longrightarrow> pl_maxAttempts p = (if replayable init (call_policy h init) then rp_attempts (call_policy h init) else 1)"
  by (auto simp: prepare_def Let_def split: option.splits sum.splits)

text \<open>The requests that must not be repeated, as the comments of the source list them.\<close>

definition sent_once :: "http_init \<Rightarrow> retry_policy \<Rightarrow> bool" where
  "sent_once init policy \<longleftrightarrow> in_body init = StreamBody \<or> in_body init = AsyncIterableBody
     \<or> toUpperCase (default_to ''GET'' (in_method init)) \<notin> {''GET'', ''HEAD'', ''OPTIONS'', ''TRACE'', ''PUT'', ''DELETE''}
       \<and> \<not> rp_retryNonIdempotent policy \<and> headerValue init ''idempotency-key'' = None"

lemma sent_once_not_replayable: "sent_once init p \<Longrightarrow> \<not> replayable init p"
  by (auto simp: sent_once_def replayable_def isReplayableBody_def IDEMPOTENT_METHODS_def split: if_splits request_body.splits)

text \<open>
  C11: however its attempts end and whatever other calls do, a call is sent at most \<open>retry.attempts\<close>
  times; and a call whose body is a stream, or whose method is not idempotent and that carries no
  idempotency key under a policy that does not allow it, is sent at most once.
\<close>

theorem call_is_sent_within_its_attempts:
  assumes "createHttpClient opt = Inr (h, b, k)" "s = fold (client_do up pr h) es (new_system (b, k))"
    "js_get (sy_calls s) i = Some c"
  shows "int (fetches i s) \<le> max 1 (rp_attempts (call_policy h (ca_init c)))
    \<and> (sent_once (ca_init c) (call_policy h (ca_init c)) \<longrightarrow> fetches i s \<le> 1)"
proof -
  have inv: "client_ok h" "effort_ok up h s"
    using client_run [OF assms(1), of up pr es] assms(2) by (simp_all add: client_inv_def)
  note st = effort_stage [OF inv(2) assms(3)]
  show ?thesis
  proof (cases "plan_of up h c")
    case (Inl err)
    then show ?thesis
      using stage_sent(2) [OF st] by simp
  next
    case (Inr p)
    then show ?thesis
      using stage_sent(1) [OF st Inr prepare_plan_ok [OF inv(1) Inr]] prepare_attempts [OF Inr] sent_once_not_replayable
      by (auto split: if_splits)
  qed
qed

definition demo_post :: http_init where
  "demo_post = demo_init\<lparr>in_method := Some ''POST'', in_body := StreamBody\<rparr>"

definition demo_post_call :: "client_event list" where
  "demo_post_call = [Request 0 ''a'' demo_post False False 0, Start_ladder 0 0 demo_unavailable]"

theorem call_is_sent_within_its_attempts_witness:
  "sent_once demo_post (call_policy (fst demo_client) demo_post) \<and> fetches 0 (demo_run demo_client demo_post_call) \<le> 1"
proof -
  have once: "sent_once demo_post (call_policy (fst demo_client) demo_post)"
    by (simp add: sent_once_def demo_post_def)
  have "map_option ca_init (js_get (sy_calls (demo_run demo_client demo_post_call)) 0) = Some demo_post"
    by code_simp
  then obtain c where "js_get (sy_calls (demo_run demo_client demo_post_call)) 0 = Some c" "ca_init c = demo_post"
    by blast
  then show ?thesis
    using call_is_sent_within_its_attempts [OF demo_client_created demo_run_eq] once by metis
qed

text \<open>
  C26: a client with a base URL sends nothing outside the directory the base names: every address it hands
  to \<open>fetch\<close> has the scheme and host of the base and a path that begins with that directory.
\<close>

theorem requests_stay_within_the_base:
  assumes "createHttpClient opt = Inr (h, b, k)" "op_baseUrl opt = Some baseUrl"
    "(i, a) \<in> set (sy_wire (fold (client_do up pr h) es (new_system (b, k))))"
  shows "\<exists>base u rest. parse_url up baseUrl = Some base \<and> a = Resolved u \<and> url_protocol u = url_protocol base
    \<and> url_host u = url_host base \<and> url_pathname u = directory (url_pathname base) @ rest"
proof -
  let ?s = "fold (client_do up pr h) es (new_system (b, k))"
  have "effort_ok up h ?s"
    using client_run [OF assms(1), of up pr es] by (simp add: client_inv_def)
  then obtain c p where c: "plan_of up h c = Inr p" "a = pl_url p"
    using assms(3) by (force simp: effort_ok_def)
  have "ht_baseUrl h = Some baseUrl"
    using create_facts(4) [OF assms(1)] assms(2) by simp
  then obtain u where u: "resolveWithinBase up baseUrl (ca_input c) = Inr u" "a = Resolved u"
    using c by (auto simp: prepare_def Let_def map_sum_def split: option.splits sum.splits)
  then obtain base where base: "parse_url up baseUrl = Some base" "url_protocol u = url_protocol base" "url_host u = url_host base"
      "take (length (directory (url_pathname base))) (url_pathname u) = directory (url_pathname base)"
    by (auto simp: resolveWithinBase_def Let_def split: option.splits if_splits)
  then have "url_pathname u = directory (url_pathname base) @ drop (length (directory (url_pathname base))) (url_pathname u)"
    by (metis append_take_drop_id)
  then show ?thesis
    using base u(2) by blast
qed

theorem requests_stay_within_the_base_witness:
  "\<exists>a base u rest. (0, a) \<in> set (sy_wire (demo_run demo_client demo_two_calls))
     \<and> parse_url demo_parser ''https://dep.test/v1/'' = Some base \<and> a = Resolved u \<and> url_protocol u = url_protocol base
     \<and> url_host u = url_host base \<and> url_pathname u = directory (url_pathname base) @ rest"
proof -
  have "0 \<in> fst ` set (sy_wire (demo_run demo_client demo_two_calls))"
    by code_simp
  then obtain a where a: "(0, a) \<in> set (sy_wire (demo_run demo_client demo_two_calls))"
    by force
  have base: "op_baseUrl demo_options = Some ''https://dep.test/v1/''"
    by (simp add: demo_options_def)
  show ?thesis
    using requests_stay_within_the_base [OF demo_client_created base a [unfolded demo_run_eq]] a by blast
qed

lemma permits_filter:
  "\<forall>e \<in> set m. \<forall>p \<in> set (permit_of (ca_stage (snd e))). \<not> pm_settled p
   \<Longrightarrow> length (filter (\<lambda>p. Q p \<and> \<not> pm_settled p) (concat (map (\<lambda>e. permit_of (ca_stage (snd e))) m)))
    = length (filter (\<lambda>e. case ca_stage (snd e) of Fetching l p start ex \<Rightarrow> Q p | _ \<Rightarrow> False) m)"
proof (induction m)
  case (Cons e m)
  then show ?case
    by (cases "ca_stage (snd e)") auto
qed simp

lemma permits_unsettled:
  assumes "effort_ok up h s" "js_ok (sy_calls s)" "e \<in> set (sy_calls s)" "p \<in> set (permit_of (ca_stage (snd e)))"
  shows "\<not> pm_settled p"
proof -
  have "js_get (sy_calls s) (fst e) = Some (snd e)"
    using assms(2,3) by (simp add: js_ok_def)
  then show ?thesis
    using assms(4) effort_unsettled [OF assms(1)] by (cases "ca_stage (snd e)") auto
qed

text \<open>
  C13: while the circuit of a client is half-open, no more than \<open>halfOpenProbes\<close> of the requests on the
  wire are probes of the current episode, however the calls interleave, fail, wait or are given up.
\<close>

theorem probes_on_the_wire_bounded:
  assumes "createHttpClient opt = Inr (h, b, k)" "s = fold (client_do up pr h) es (new_system (b, k))"
    "cb_state (sy_breaker s) = HalfOpen"
  shows "int (length (filter (\<lambda>e. case ca_stage (snd e) of
      Fetching l p start ex \<Rightarrow> pm_issuedIn p = HalfOpen \<and> pm_generation p = cb_generation (sy_breaker s) | _ \<Rightarrow> False) (sy_calls s)))
    \<le> default_to 1 (ov_halfOpenProbes (op_breaker opt))"
proof -
  have inv: "effort_ok up h s" "circuit_ok (client_breaker_options (op_breaker opt)) s"
    using client_run [OF assms(1), of up pr es] assms(2) by (simp_all add: client_inv_def)
  have "js_ok (sy_calls s)"
    unfolding assms(2) by (rule calls_run_ok) (simp add: new_system_def)
  then have "length (filter (\<lambda>e. case ca_stage (snd e) of
      Fetching l p start ex \<Rightarrow> pm_issuedIn p = HalfOpen \<and> pm_generation p = cb_generation (sy_breaker s) | _ \<Rightarrow> False) (sy_calls s))
    = outstanding (sy_breaker s, permits s)"
    unfolding outstanding_def permits_def
    using permits_filter [where m = "sy_calls s" and Q = "\<lambda>p. pm_issuedIn p = HalfOpen \<and> pm_generation p = cb_generation (sy_breaker s)"]
      permits_unsettled [OF inv(1)] by (simp add: conj_assoc)
  then show ?thesis
    using inv(2) assms(3) by (auto simp: circuit_ok_def probe_inv_def client_breaker_options_def)
qed

definition demo_recovery :: "client_event list" where
  "demo_recovery = demo_two_calls @ demo_attempt 0 @ demo_attempt 0
     @ [Request 2 ''c'' demo_init False False 40000, Start_ladder 2 40000 demo_unavailable]"

theorem probes_on_the_wire_bounded_witness:
  "cb_state (sy_breaker (demo_run demo_client demo_recovery)) = HalfOpen
   \<and> int (length (filter (\<lambda>e. case ca_stage (snd e) of
       Fetching l p start ex \<Rightarrow> pm_issuedIn p = HalfOpen \<and> pm_generation p = cb_generation (sy_breaker (demo_run demo_client demo_recovery))
     | _ \<Rightarrow> False) (sy_calls (demo_run demo_client demo_recovery)))) \<le> default_to 1 (ov_halfOpenProbes (op_breaker demo_options))"
proof -
  have half: "cb_state (sy_breaker (demo_run demo_client demo_recovery)) = HalfOpen"
    by code_simp
  then show ?thesis
    using probes_on_the_wire_bounded [OF demo_client_created demo_run_eq half] by blast
qed

text \<open>
  C25: the calls between their admission and their return, those that wait out a backoff included, number
  at most \<open>maxConcurrent\<close>, and the bulkhead's own count is exactly their number: no path through a
  call keeps its slot or gives it up early.
\<close>

theorem calls_in_progress_hold_the_slots:
  assumes "createHttpClient opt = Inr (h, b, k)" "s = fold (client_do up pr h) es (new_system (b, k))"
  shows "bh_inFlightCount (fst (sy_bulkhead s)) = int (card {i. \<exists>c. js_get (sy_calls s) i = Some c \<and> active (ca_stage c)})
    \<and> bh_inFlightCount (fst (sy_bulkhead s)) \<le> bh_maxConcurrent (fst (sy_bulkhead s))"
proof -
  have held: "slots_held s"
    using client_run [OF assms(1), of up pr es] assms(2) by (simp add: client_inv_def effort_ok_def)
  then have "set (snd (sy_bulkhead s)) = {i. \<exists>c. js_get (sy_calls s) i = Some c \<and> active (ca_stage c)}"
    by (auto simp: slots_held_def)
  then show ?thesis
    using held distinct_card [of "snd (sy_bulkhead s)"] by (simp add: slots_held_def slots_ok_def)
qed

theorem calls_in_progress_hold_the_slots_witness:
  "card {i. \<exists>c. js_get (sy_calls (demo_run demo_client demo_two_calls)) i = Some c \<and> active (ca_stage c)} = 2
   \<and> 2 \<le> bh_maxConcurrent (fst (sy_bulkhead (demo_run demo_client demo_two_calls)))"
proof -
  have "bh_inFlightCount (fst (sy_bulkhead (demo_run demo_client demo_two_calls))) = 2"
    by code_simp
  then show ?thesis
    using calls_in_progress_hold_the_slots [OF demo_client_created demo_run_eq, of demo_two_calls] by linarith
qed

text \<open>
  C12: every call that has been admitted ends. Whatever the origin does with its attempts and whatever is
  drawn, a bounded number of resumptions settles it, and it settles no later than its attempts' deadlines
  and its longest waits between them allow.
\<close>

theorem every_call_settles_in_time:
  assumes "createHttpClient opt = Inr (h, b, k)" "s = fold (client_do up pr h) es (new_system (b, k))"
    "js_get (sy_calls s) i = Some c" "active (ca_stage c)" "plan_of up h c = Inr p"
    "3 * nat (pl_maxAttempts p) + 1 \<le> length us"
  shows "\<exists>c' r t. js_get (sy_calls (fold (resume up pr h i) us s)) i = Some c' \<and> ca_stage c' = Settled r t
    \<and> t \<le> ca_begunAt c' + (pl_maxAttempts p - 1) * (pl_deadlineMs p + longest_wait p) + pl_deadlineMs p"
proof -
  let ?opt = "client_breaker_options (op_breaker opt)"
  have inv: "client_inv up h ?opt s"
    using client_run [OF assms(1), of up pr es] assms(2) by simp
  have "effort_ok up h s"
    using inv by (simp add: client_inv_def)
  then have "rank (plan_of up h c) (ca_stage c) \<le> length us"
    using rank_bound [OF effort_stage [OF _ assms(3)] assms(4)] assms(5,6) by fastforce
  then obtain c' r t where c': "js_get (sy_calls (fold (resume up pr h i) us s)) i = Some c'" "ca_stage c' = Settled r t"
      "plan_of up h c' = Inr p" "client_inv up h ?opt (fold (resume up pr h i) us s)"
    using resumes_finish [OF inv assms(3,4)] assms(5) by metis
  have "effort_ok up h (fold (resume up pr h i) us s)"
    using c'(4) by (simp add: client_inv_def)
  then have "t \<le> ca_begunAt c' + call_budget p"
    using effort_stage [OF _ c'(1)] c'(2,3) by (fastforce simp: stage_ok_def settled_ok_def)
  then show ?thesis
    using c'(1,2) by (simp add: call_budget_def add.assoc)
qed

theorem every_call_settles_in_time_witness:
  "\<exists>p c' r t. plan_of demo_parser (fst demo_client) (demo_call demo_two_calls) = Inr p
     \<and> js_get (sy_calls (fold (resume demo_parser (\<lambda>v now. None) (fst demo_client) 0)
          (replicate 10 \<lparr>rs_exchange = demo_unavailable, rs_draw1 = 0, rs_draw2 = 0, rs_now = 0\<rparr>) (demo_run demo_client demo_two_calls))) 0 = Some c'
     \<and> ca_stage c' = Settled r t
     \<and> t \<le> ca_begunAt c' + (pl_maxAttempts p - 1) * (pl_deadlineMs p + longest_wait p) + pl_deadlineMs p"
proof -
  have "case plan_of demo_parser (fst demo_client) (demo_call demo_two_calls) of Inl err \<Rightarrow> False | Inr p \<Rightarrow> pl_maxAttempts p = 3"
    by code_simp
  then obtain p where p: "plan_of demo_parser (fst demo_client) (demo_call demo_two_calls) = Inr p" "pl_maxAttempts p = 3"
    by (auto split: sum.splits)
  have act: "active (ca_stage (demo_call demo_two_calls))"
    by code_simp
  have len: "3 * nat (pl_maxAttempts p) + 1 \<le> length (replicate 10 \<lparr>rs_exchange = demo_unavailable, rs_draw1 = 0, rs_draw2 = 0, rs_now = 0\<rparr>)"
    by (simp add: p(2))
  show ?thesis
    using every_call_settles_in_time [OF demo_client_created demo_run_eq demo_call_found act p(1) len] p(1) by blast
qed

text \<open>
  The circuit of a client stays closed as long as the client has sent fewer requests than
  \<open>minimumThroughput\<close>, whatever became of them. A call whose attempts are fewer cannot open it alone.
\<close>

lemma circuit_closed_below_minimum_throughput:
  assumes "createHttpClient opt = Inr (h, b, k)" "s = fold (client_do up pr h) es (new_system (b, k))"
    "int (length (sy_wire s)) < default_to 20 (ov_minimumThroughput (op_breaker opt))"
  shows "cb_state (sy_breaker s) = Closed"
  using client_run [OF assms(1), of up pr es] assms(2,3)
  by (auto simp: client_inv_def circuit_ok_def calm_def client_breaker_options_def)

section \<open>Responses that a ladder keeps\<close>

text \<open>
  A ladder that waits for its next attempt keeps only a response whose body has been read, and a call that sleeps has
  not been given up.
\<close>

definition body_read :: "http_response option \<Rightarrow> bool" where
  "body_read r \<longleftrightarrow> (\<forall>response body. r = Some response \<and> hr_body response = Some body \<longrightarrow> bd_used body)"

definition stage_read :: "bool \<Rightarrow> stage \<Rightarrow> bool" where
  "stage_read aborted st =
     (case st of
        Draining l t delayMs \<Rightarrow> body_read (ld_lastResponse l)
      | Sleeping l t \<Rightarrow> body_read (ld_lastResponse l) \<and> \<not> aborted
      | _ \<Rightarrow> True)"

definition reads_inv :: "client_system \<Rightarrow> bool" where
  "reads_inv s \<longleftrightarrow> (\<forall>i c. js_get (sy_calls s) i = Some c \<longrightarrow> stage_read (ca_aborted c) (ca_stage c))"

lemma stage_read_simps [simp]:
  "stage_read ab InQueue" "stage_read ab Ready" "stage_read ab (Fetching l p start ex)" "stage_read ab (Settled r t)" "stage_read ab (Returned r t)"
  "stage_read ab (Draining l u ms) = body_read (ld_lastResponse l)" "stage_read ab (Sleeping l t) = (body_read (ld_lastResponse l) \<and> \<not> ab)"
  by (simp_all add: stage_read_def)

lemma body_read_simps [simp]: "body_read None" "body_read (Some (drainForRetry r))"
  by (auto simp: body_read_def drainForRetry_def)

lemma reads_put: "reads_inv s \<Longrightarrow> stage_read (ca_aborted c) (ca_stage c) \<Longrightarrow> sy_calls s' = js_set i c (sy_calls s) \<Longrightarrow> reads_inv s'"
  by (auto simp: reads_inv_def split: if_splits)

lemma reads_enter: "reads_inv s \<Longrightarrow> stage_read (ca_aborted c) (snd r) \<Longrightarrow> reads_inv (enter i c r s)"
  by (erule reads_put [where c = "c\<lparr>ca_stage := snd r\<rparr>" and i = i]) (simp_all add: enter_def)

lemma reads_put_call: "reads_inv s \<Longrightarrow> stage_read (ca_aborted c) (ca_stage c) \<Longrightarrow> reads_inv (put_call i c (s\<lparr>sy_bulkhead := b\<rparr>))"
  by (erule reads_put [where c = c and i = i]) (simp_all add: put_call_def)

lemma reads_begin [simp]: "stage_read ab (snd (begin_attempt ab' now ex l b))"
  by (simp add: begin_attempt_def split: prod.split sum.split)

lemma reads_failed [simp]: "stage_read ab (snd (fetch_failed ab now x1 x2 err l p b))"
  by (simp add: fetch_failed_def start_sleep_def Let_def split: option.split prod.split)

lemma reads_received [simp]: "stage_read ab (snd (response_received pr now x1 x2 reply l p b))"
  by (simp add: response_received_def Let_def split: option.split prod.split)

lemma reads_drained: "body_read (ld_lastResponse l) \<Longrightarrow> stage_read ab (drained ab now ms l)"
  by (simp add: drained_def start_sleep_def)

lemma reads_abort:
  assumes "reads_inv s" "js_get (sy_calls s) i = Some c"
  shows "reads_inv (caller_abort i now x c s)"
proof -
  have read: "stage_read (ca_aborted c) (ca_stage c)"
    using assms by (simp add: reads_inv_def)
  have put: "reads_inv (put_call i (c\<lparr>ca_aborted := True\<rparr>) s)" if "stage_read True (ca_stage c)"
    using that by (intro reads_put [OF assms(1), of "c\<lparr>ca_aborted := True\<rparr>" _ i]) (simp_all add: put_call_def)
  show ?thesis
  proof (cases "ca_stage c")
    case (Draining l t ms)
    then show ?thesis
      using assms(1) read by (auto simp: caller_abort_def Let_def intro!: reads_enter reads_drained split: option.split)
  next
    case (Fetching l p start ex)
    then show ?thesis
      using assms(1) by (auto simp: caller_abort_def Let_def intro!: reads_enter split: option.split)
  qed (use assms(1) put in \<open>auto simp: caller_abort_def Let_def intro!: reads_enter reads_put_call\<close>)
qed

lemma reads_ready: "reads_inv s \<Longrightarrow> reads_inv (put_call j (c\<lparr>ca_stage := Ready\<rparr>) s)"
  by (erule reads_put [where c = "c\<lparr>ca_stage := Ready\<rparr>" and i = j]) (simp_all add: put_call_def)

lemma reads_release:
  assumes "reads_inv s"
  shows "reads_inv (release_slot i c s)"
proof (cases "ca_stage c")
  case (Settled r t)
  then show ?thesis
    using assms by (simp add: release_slot_def Let_def reads_put_call reads_ready split: option.split prod.split)
qed (simp_all add: release_slot_def assms)

lemma reads_request:
  assumes "reads_inv s"
  shows "reads_inv (request i input init signal aborted now s)"
  using assms by (cases "snd (Bulkhead.acquire i (signal \<and> aborted) now (fst (sy_bulkhead s)))")
    (simp_all add: request_def Let_def reads_put_call)

lemma reads_call:
  assumes "reads_inv s" "js_get (sy_calls s) i = Some c"
  shows "reads_inv (queue_timer i now c s)" "reads_inv (attemptLadder up h i now ex c s)" "reads_inv (fetch_done pr i x1 x2 c s)"
    "reads_inv (drain_done i c s)" "reads_inv (sleep_done i ex c s)"
proof -
  have read: "stage_read (ca_aborted c) (ca_stage c)"
    using assms by (simp add: reads_inv_def)
  show "reads_inv (queue_timer i now c s)"
    using assms(1) by (cases "ca_stage c") (simp_all add: queue_timer_def reads_put_call split: prod.split option.split)
  show "reads_inv (attemptLadder up h i now ex c s)"
    using assms(1) by (cases "ca_stage c"; cases "prepare up h (ca_input c) (ca_init c)") (simp_all add: attemptLadder_def reads_enter)
  show "reads_inv (fetch_done pr i x1 x2 c s)"
    using assms(1) by (cases "ca_stage c") (simp_all add: fetch_done_def reads_enter split: prod.split option.split sum.split)
  show "reads_inv (drain_done i c s)"
    using assms(1) read by (cases "ca_stage c") (simp_all add: drain_done_def reads_enter reads_drained split: option.split)
  show "reads_inv (sleep_done i ex c s)"
    using assms(1) by (cases "ca_stage c") (simp_all add: sleep_done_def reads_enter)
qed

lemma reads_do: "reads_inv s \<Longrightarrow> reads_inv (client_do up pr h ev s)"
  by (cases ev) (simp_all add: for_call_def reads_request reads_call reads_abort reads_release split: option.split)

interpretation reads: step_invariant "client_do up pr h" reads_inv for up pr h
  by unfold_locales (rule reads_do)

lemma reads_run: "reads_inv (fold (client_do up pr h) es (new_system r))"
  by (rule reads.run_keeps) (simp add: reads_inv_def new_system_def)

text \<open>
  C40: a response that a call hands back because the circuit has opened in the middle of its ladder has already been read.
  In every run of a client, if a call wakes for its next attempt with a response in hand and the breaker
  refuses it, the call settles with that response, and its body, if it has one, was drained for the
  retry that does not take place.
\<close>

theorem handed_back_response_is_already_read:
  assumes "createHttpClient opt = Inr (h, b, k)" "s = fold (client_do up pr h) es (new_system (b, k))"
    and "js_get (sy_calls s) i = Some c" "ca_stage c = Sleeping l now" "ld_lastResponse l = Some r"
    and "Circuit_Breaker.acquire now (sy_breaker s) = (b', Inl retryAfterMs)"
  shows "map_option ca_stage (js_get (sy_calls (client_do up pr h (Sleep_done i ex) s)) i) = Some (Settled (Inr r) now)
    \<and> (\<forall>body. hr_body r = Some body \<longrightarrow> bd_used body)"
proof -
  have "stage_ok (plan_of up h c) (ca_begunAt c) (fetches i s) (ca_stage c)"
    using client_run [OF assms(1), of up pr es] assms(2,3) by (intro effort_stage) (simp_all add: client_inv_def)
  then have fits: "int (ld_attempt l) < pl_maxAttempts (ld_plan l)"
    using assms(4) by (simp add: stage_ok_def)
  have "stage_read (ca_aborted c) (ca_stage c)"
    using reads_run [of up pr h es "(b, k)"] assms(2,3) by (simp add: reads_inv_def)
  then have read: "body_read (Some r)" "\<not> ca_aborted c"
    using assms(4,5) by simp_all
  have "snd (begin_attempt (ca_aborted c) now ex (next_attempt l) (sy_breaker s)) = Settled (Inr r) now"
    using fits read(2) assms(5,6) by (simp add: begin_attempt_def next_attempt_def)
  then show ?thesis
    using assms(3,4) read(1) by (simp add: for_call_def sleep_done_def enter_def body_read_def)
qed

definition demo_asleep :: "client_event list" where
  "demo_asleep = demo_two_calls @ demo_attempt 0 @ [Fetch_done 0 0 0, Drain_done 0]"

theorem handed_back_response_is_already_read_witness:
  "\<exists>r t body. map_option ca_stage (js_get (sy_calls (client_do demo_parser (\<lambda>v now. None) (fst demo_client) (Sleep_done 0 demo_unavailable)
       (demo_run demo_client demo_asleep))) 0) = Some (Settled (Inr r) t) \<and> hr_body r = Some body \<and> bd_used body"
proof -
  have "case map_option ca_stage (js_get (sy_calls (demo_run demo_client demo_asleep)) 0) of
      Some (Sleeping l now) \<Rightarrow> (case ld_lastResponse l of Some r \<Rightarrow> hr_body r \<noteq> None | None \<Rightarrow> False)
        \<and> (case snd (Circuit_Breaker.acquire now (sy_breaker (demo_run demo_client demo_asleep))) of Inl ms \<Rightarrow> True | Inr p \<Rightarrow> False)
    | _ \<Rightarrow> False"
    by code_simp
  then obtain c l now r body ms where c: "js_get (sy_calls (demo_run demo_client demo_asleep)) 0 = Some c" "ca_stage c = Sleeping l now"
    "ld_lastResponse l = Some r" "hr_body r = Some body" "snd (Circuit_Breaker.acquire now (sy_breaker (demo_run demo_client demo_asleep))) = Inl ms"
    by (auto split: option.splits stage.splits sum.splits)
  then have "Circuit_Breaker.acquire now (sy_breaker (demo_run demo_client demo_asleep))
      = (fst (Circuit_Breaker.acquire now (sy_breaker (demo_run demo_client demo_asleep))), Inl ms)"
    by (metis prod.collapse)
  from handed_back_response_is_already_read [OF demo_client_created demo_run_eq c(1-3) this] show ?thesis
    using c(4) by blast
qed

definition demo_env :: http_client_env where
  "demo_env = \<lparr>HTTP_CLIENT_TIMEOUT_MS = 5000, HTTP_CLIENT_HEADERS_TIMEOUT_MS = 2000, HTTP_CLIENT_BODY_IDLE_TIMEOUT_MS = 2000,
     HTTP_CLIENT_BULKHEAD_MAX_CONCURRENT = 32, HTTP_CLIENT_BULKHEAD_MAX_QUEUE = 64, HTTP_CLIENT_BULKHEAD_QUEUE_TIMEOUT_MS = 1000,
     HTTP_CLIENT_RETRY_ATTEMPTS = 3, HTTP_CLIENT_RETRY_BASE_DELAY_MS = 100, HTTP_CLIENT_RETRY_MAX_DELAY_MS = 2000,
     HTTP_CLIENT_MAX_RETRY_AFTER_MS = 20000, HTTP_CLIENT_DRAIN_BYTES = 65536, HTTP_CLIENT_BREAKER_WINDOW_MS = 10000,
     HTTP_CLIENT_BREAKER_BUCKETS = 10, HTTP_CLIENT_BREAKER_FAILURE_RATE = 1/2, HTTP_CLIENT_BREAKER_MIN_THROUGHPUT = 3,
     HTTP_CLIENT_BREAKER_OPEN_MS = 30000, HTTP_CLIENT_BREAKER_HALF_OPEN_PROBES = 1, HTTP_CLIENT_BREAKER_HALF_OPEN_SUCCESSES = 1\<rparr>"

definition demo_env_client :: "http_client \<times> breaker \<times> bulkhead" where
  "demo_env_client = client_parts (createDependencyClient demo_env no_options)"

lemma createHttpClient_ok:
  assumes "assertPolicy (spread_policy DEFAULT_RETRY_POLICY (op_retry opt)) = None"
    "assertDeadlines (default_to 5000 (op_timeoutMs opt)) (op_headersTimeoutMs opt) (op_bodyIdleTimeoutMs opt) = None"
    "createCircuitBreaker (client_breaker_options (op_breaker opt)) = Inr b" "client_bulkhead (op_bulkhead opt) = Inr k"
  shows "\<exists>parts. createHttpClient opt = Inr parts"
  using assms unfolding createHttpClient_def Let_def by (simp del: assertPolicy_ok)

text \<open>An accepted environment always gives a client.\<close>

lemma accepted_environment_gives_a_client:
  assumes "http_client_schema e" "http_client_refinement e"
  shows "\<exists>parts. createDependencyClient e no_options = Inr parts"
  unfolding createDependencyClient_def Let_def
  by (rule createHttpClient_ok)
    (use assms in \<open>simp_all add: http_client_schema_def http_client_refinement_def envHttpClientDefaults_def over_def no_options_def
      spread_policy_def default_to_def assertDeadlines_def createCircuitBreaker_def client_breaker_options_def client_bulkhead_def createBulkhead_def\<close>)

text \<open>
  An environment that passes every check, with a minimum throughput equal to the number of attempts,
  gives a client whose circuit a single call opens on its own.
\<close>

lemma one_call_opens_the_circuit_alone:
  "http_client_schema demo_env \<and> http_client_refinement demo_env
   \<and> createDependencyClient demo_env no_options = Inr demo_env_client
   \<and> cb_state (sy_breaker (demo_run demo_env_client
       ([Request 0 ''a'' demo_init False False 0, Start_ladder 0 0 demo_unavailable] @ demo_attempt 0 @ demo_attempt 0 @ demo_attempt 0))) = Open"
proof -
  have env: "http_client_schema demo_env" "http_client_refinement demo_env"
    by code_simp+
  moreover have "createDependencyClient demo_env no_options = Inr demo_env_client"
    using accepted_environment_gives_a_client [OF env] by (auto simp: demo_env_client_def client_parts_def)
  moreover have "cb_state (sy_breaker (demo_run demo_env_client
      ([Request 0 ''a'' demo_init False False 0, Start_ladder 0 0 demo_unavailable] @ demo_attempt 0 @ demo_attempt 0 @ demo_attempt 0))) = Open"
    by code_simp
  ultimately show ?thesis
    by blast
qed

end
