(* ===== verification/Content_Negotiation.thy ===== *)
theory Content_Negotiation
  imports Complex_Main Js_String "HOL-Library.Multiset" "HOL-Library.Code_Target_Nat"
begin

text \<open>
  Negotiation of the media type of an answer (\<open>src/http/accept.ts\<close>): the parser of the \<open>Accept\<close> field
  with its quoted strings, the precedence of media ranges, and the choice among what the server offers.
  The choice is the first offer of the greatest weight, and the order in which a client lists its ranges
  does not matter to it. A weight is the rational its at most three decimals denote.
\<close>

section \<open>Media types\<close>

text \<open>A server's offer is a range without wildcards and without a weight.\<close>

record media_range =
  mr_type :: string
  mr_subtype :: string
  mr_parameters :: "(string, string) js_map"
  mr_quality :: rat
  mr_weighted :: bool

definition breadth :: "media_range \<Rightarrow> nat" where
  "breadth r = (if mr_type r = ''*'' then 0 else if mr_subtype r = ''*'' then 1 else 2)"

definition moreSpecific :: "media_range \<Rightarrow> media_range \<Rightarrow> bool" where
  "moreSpecific candidate incumbent =
     (if breadth candidate \<noteq> breadth incumbent then breadth incumbent < breadth candidate
      else if length (mr_parameters candidate) \<noteq> length (mr_parameters incumbent)
      then length (mr_parameters incumbent) < length (mr_parameters candidate)
      else mr_quality candidate < mr_quality incumbent)"

definition matches :: "media_range \<Rightarrow> media_range \<Rightarrow> bool" where
  "matches r offer =
     (if mr_type r \<noteq> ''*'' \<and> mr_type r \<noteq> mr_type offer then False
      else if mr_type r \<noteq> ''*'' \<and> mr_subtype r \<noteq> ''*'' \<and> mr_subtype r \<noteq> mr_subtype offer then False
      else list_all (\<lambda>(name, v). js_get (mr_parameters offer) name = Some v) (mr_parameters r))"

section \<open>The parser\<close>

definition is_tchar :: "char \<Rightarrow> bool" where
  "is_tchar c \<longleftrightarrow> is_digit c \<or> 65 \<le> code c \<and> code c \<le> 90 \<or> 97 \<le> code c \<and> code c \<le> 122 \<or> c \<in> set ''!#$%&*+-.^_|~'' \<or> code c = 39 \<or> code c = 96"

definition isToken :: "string \<Rightarrow> bool" where
  "isToken v \<longleftrightarrow> v \<noteq> [] \<and> list_all is_tchar v"

definition parseQuality :: "string \<Rightarrow> rat option" where
  "parseQuality v =
     (if v = ''0'' then Some 0
      else if v = ''1'' then Some 1
      else case v of
        c # p # ds \<Rightarrow>
          if p \<noteq> CHR ''.'' \<or> ds = [] \<or> 3 < length ds then None
          else if c = CHR ''0'' \<and> list_all is_digit ds then Some (of_nat (of_digits ds) / 10 ^ length ds)
          else if c = CHR ''1'' \<and> list_all (\<lambda>d. d = CHR ''0'') ds then Some 1
          else None
      | _ \<Rightarrow> None)"

abbreviation DQUOTE :: char where "DQUOTE \<equiv> CHR 0x22"

abbreviation BACKSLASH :: char where "BACKSLASH \<equiv> CHR 0x5C"

text \<open>The loop of \<open>splitUnquoted\<close>, with the characters of the part in progress in \<open>part\<close>.\<close>

fun split_loop :: "char \<Rightarrow> bool \<Rightarrow> string \<Rightarrow> string \<Rightarrow> string list option" where
  "split_loop d quoted part [] = (if quoted then None else Some [part])"
| "split_loop d quoted part (c # cs) =
     (if quoted
      then if c = BACKSLASH
           then (case cs of [] \<Rightarrow> split_loop d True (part @ [c]) [] | e # es \<Rightarrow> split_loop d True (part @ [c, e]) es)
           else split_loop d (c \<noteq> DQUOTE) (part @ [c]) cs
      else if c = DQUOTE then split_loop d True (part @ [c]) cs
      else if c = d then map_option (\<lambda>parts. part # parts) (split_loop d False [] cs)
      else split_loop d False (part @ [c]) cs)"

definition splitUnquoted :: "string \<Rightarrow> char \<Rightarrow> string list option" where
  "splitUnquoted field d = split_loop d False [] field"

fun unquote :: "string \<Rightarrow> string option" where
  "unquote [] = None"
| "unquote (c # cs) =
     (if c = BACKSLASH then (case cs of [] \<Rightarrow> None | e # es \<Rightarrow> map_option (\<lambda>v. e # v) (unquote es))
      else if c = DQUOTE then (if cs = [] then Some [] else None)
      else map_option (\<lambda>v. c # v) (unquote cs))"

definition parseParameterValue :: "string \<Rightarrow> string option" where
  "parseParameterValue raw =
     (case raw of
        [] \<Rightarrow> None
      | c # cs \<Rightarrow> if c \<noteq> DQUOTE then (if isToken raw then Some raw else None) else unquote cs)"

text \<open>The loop over the parameters: the range so far, whose \<open>mr_weighted\<close> is \<open>weightSeen\<close>.\<close>

fun parse_parameters :: "string list \<Rightarrow> media_range \<Rightarrow> media_range option" where
  "parse_parameters [] r = Some r"
| "parse_parameters (segment # rest) r =
     (case index_of (CHR ''='') segment of
        None \<Rightarrow> None
      | Some equals \<Rightarrow>
          let name = toLowerCase (trim (take equals segment)); raw = trim (drop (equals + 1) segment) in
          if \<not> isToken name then None
          else if name = ''q''
          then (case parseQuality raw of
                  None \<Rightarrow> None
                | Some parsed \<Rightarrow> if mr_weighted r then None
                    else parse_parameters rest (r\<lparr>mr_quality := parsed, mr_weighted := True\<rparr>))
          else if mr_weighted r then parse_parameters rest r
          else (case parseParameterValue raw of
                  None \<Rightarrow> None
                | Some v \<Rightarrow> if js_has (mr_parameters r) name then None
                    else parse_parameters rest (r\<lparr>mr_parameters := js_set name v (mr_parameters r)\<rparr>)))"

definition parseMediaRange :: "string \<Rightarrow> media_range option" where
  "parseMediaRange member =
     (case splitUnquoted member (CHR '';'') of
        None \<Rightarrow> None
      | Some [] \<Rightarrow> None
      | Some (mediaType # rest) \<Rightarrow>
          (case index_of (CHR ''/'') mediaType of
             None \<Rightarrow> None
           | Some slash \<Rightarrow>
               let mtype = toLowerCase (trim (take slash mediaType));
                   subtype = toLowerCase (trim (drop (slash + 1) mediaType)) in
               if \<not> (mtype = ''*'' \<or> isToken mtype) then None
               else if \<not> (subtype = ''*'' \<or> isToken subtype) then None
               else if mtype = ''*'' \<and> subtype \<noteq> ''*'' then None
               else parse_parameters rest \<lparr>mr_type = mtype, mr_subtype = subtype, mr_parameters = [],
                      mr_quality = 1, mr_weighted = False\<rparr>))"

fun parse_members :: "string list \<Rightarrow> media_range list option" where
  "parse_members [] = Some []"
| "parse_members (member # rest) =
     (if trim member = [] then parse_members rest
      else case parseMediaRange (trim member) of
        None \<Rightarrow> None
      | Some r \<Rightarrow> map_option (\<lambda>rs. r # rs) (parse_members rest))"

definition parseAccept :: "string \<Rightarrow> media_range list option" where
  "parseAccept header =
     (case splitUnquoted header (CHR '','') of None \<Rightarrow> None | Some members \<Rightarrow> parse_members members)"

definition parseOffer :: "string \<Rightarrow> media_range option" where
  "parseOffer offer =
     (case parseMediaRange offer of
        None \<Rightarrow> None
      | Some parsed \<Rightarrow>
          if mr_type parsed = ''*'' \<or> mr_subtype parsed = ''*'' then None
          else if mr_weighted parsed then None else Some parsed)"

definition isMediaType :: "string \<Rightarrow> bool" where
  "isMediaType v \<longleftrightarrow> parseOffer v \<noteq> None"

section \<open>The choice\<close>

definition take_best :: "media_range \<Rightarrow> media_range \<Rightarrow> media_range option \<Rightarrow> media_range option" where
  "take_best offer r best =
     (if \<not> matches r offer then best
      else case best of None \<Rightarrow> Some r | Some b \<Rightarrow> if moreSpecific r b then Some r else best)"

definition qualityFor :: "media_range list \<Rightarrow> media_range \<Rightarrow> rat" where
  "qualityFor ranges offer = (case fold (take_best offer) ranges None of None \<Rightarrow> 0 | Some b \<Rightarrow> mr_quality b)"

definition weigh_offer :: "media_range list \<Rightarrow> string \<Rightarrow> string option \<times> rat \<Rightarrow> string option \<times> rat" where
  "weigh_offer ranges offer chosen =
     (case parseOffer offer of
        None \<Rightarrow> chosen
      | Some parsed \<Rightarrow>
          let quality = qualityFor ranges parsed in
          if snd chosen < quality then (Some offer, quality) else chosen)"

definition first_offer :: "string list \<Rightarrow> string option" where
  "first_offer offered = (case offered of [] \<Rightarrow> None | o1 # os \<Rightarrow> Some o1)"

definition selectMediaType :: "string option \<Rightarrow> string list \<Rightarrow> string option" where
  "selectMediaType header offered =
     (case header of
        None \<Rightarrow> first_offer offered
      | Some h \<Rightarrow>
          (case parseAccept h of
             None \<Rightarrow> first_offer offered
           | Some ranges \<Rightarrow> fst (fold (weigh_offer ranges) offered (None, 0))))"

section \<open>Splitting\<close>

lemma map_append_Nil: "map_option ((@) []) x = x"
  by (cases x) simp_all

text \<open>A text that splits leaves the splitter outside quotes, in the middle of its last part.\<close>

lemma split_append:
  "split_loop d quoted part s = Some parts
   \<Longrightarrow> parts \<noteq> [] \<and> split_loop d quoted part (s @ rest) = map_option (\<lambda>ps. butlast parts @ ps) (split_loop d False (last parts) rest)"
proof (induction d quoted part s arbitrary: parts rule: split_loop.induct)
  case (2 d quoted part c cs)
  note prems = "2.prems"
  consider "quoted" "c = BACKSLASH" | "quoted" "c \<noteq> BACKSLASH" | "\<not> quoted" "c = DQUOTE"
    | "\<not> quoted" "c \<noteq> DQUOTE" "c = d" | "\<not> quoted" "c \<noteq> DQUOTE" "c \<noteq> d"
    by blast
  then show ?case
  proof cases
    case 1
    then obtain e es where cs: "cs = e # es"
      using prems by (cases cs) auto
    show ?thesis
      using "2.IH"(2) [OF 1 cs, of parts] prems 1 cs by simp
  next
    case 2
    show ?thesis
      using "2.IH"(3) [OF 2, of parts] prems 2 by simp
  next
    case 3
    show ?thesis
      using "2.IH"(4) [OF 3, of parts] prems 3 by simp
  next
    case 4
    then obtain ps where ps: "split_loop d False [] cs = Some ps" "parts = part # ps"
      using prems by auto
    show ?thesis
      using "2.IH"(5) [OF 4 ps(1)] ps 4 by (auto simp: option.map_comp comp_def)
  next
    case 5
    show ?thesis
      using "2.IH"(6) [OF 5, of parts] prems 5 by simp
  qed
qed (auto simp: map_append_Nil split: if_splits)

lemma split_one: "splitUnquoted m d = Some [m] \<Longrightarrow> split_loop d False [] (m @ rest) = split_loop d False m rest"
  using split_append [of d False "[]" m "[m]" rest] by (simp add: splitUnquoted_def option.map_ident)

lemma split_members:
  assumes "d \<noteq> DQUOTE"
  shows "ms \<noteq> [] \<Longrightarrow> \<forall>m \<in> set ms. splitUnquoted m d = Some [m] \<Longrightarrow> splitUnquoted (join [d] ms) d = Some ms"
proof (induction "[d]" ms rule: join.induct)
  case (3 p q ps)
  then have "split_loop d False [] (join [d] (q # ps)) = Some (q # ps)"
    by (simp add: splitUnquoted_def)
  then show ?case
    using 3 split_one [of p d "[d] @ join [d] (q # ps)"] assms by (simp add: splitUnquoted_def)
qed simp_all

section \<open>Precedence\<close>

text \<open>The weight a list of ranges gives an offer: the one of a matching range that no matching range is more specific than.\<close>

definition speaks_for :: "media_range list \<Rightarrow> media_range \<Rightarrow> rat \<Rightarrow> bool" where
  "speaks_for ranges offer q \<longleftrightarrow>
     (if \<exists>r \<in> set ranges. matches r offer
      then \<exists>r \<in> set ranges. matches r offer \<and> mr_quality r = q \<and> (\<forall>r' \<in> set ranges. matches r' offer \<longrightarrow> \<not> moreSpecific r' r)
      else q = 0)"

lemma moreSpecific_trans: "\<not> moreSpecific r b \<Longrightarrow> moreSpecific c b \<Longrightarrow> \<not> moreSpecific r c"
  by (auto simp: moreSpecific_def split: if_splits)

lemma moreSpecific_tie: "\<not> moreSpecific a b \<Longrightarrow> \<not> moreSpecific b a \<Longrightarrow> mr_quality a = mr_quality b"
  by (auto simp: moreSpecific_def split: if_splits)

lemma not_moreSpecific_self [simp]: "\<not> moreSpecific r r"
  by (simp add: moreSpecific_def)

definition best_of :: "media_range \<Rightarrow> media_range set \<Rightarrow> media_range option \<Rightarrow> bool" where
  "best_of offer R best \<longleftrightarrow>
     (case best of None \<Rightarrow> \<forall>r \<in> R. \<not> matches r offer
      | Some b \<Rightarrow> b \<in> R \<and> matches b offer \<and> (\<forall>r \<in> R. matches r offer \<longrightarrow> \<not> moreSpecific r b))"

lemma take_best_step:
  assumes "best_of offer R best"
  shows "best_of offer (insert r R) (take_best offer r best)"
proof (cases "matches r offer")
  case True
  show ?thesis
  proof (cases best)
    case None
    then show ?thesis
      using assms True by (simp add: best_of_def take_best_def)
  next
    case (Some b)
    have b: "b \<in> R" "matches b offer" "\<And>c. c \<in> R \<Longrightarrow> matches c offer \<Longrightarrow> \<not> moreSpecific c b"
      using assms Some by (simp_all add: best_of_def)
    show ?thesis
    proof (cases "moreSpecific r b")
      case sp: True
      have "\<not> moreSpecific c r" if "c \<in> R" "matches c offer" for c
        by (rule moreSpecific_trans [OF b(3) [OF that] sp])
      then show ?thesis
        using True sp Some by (simp add: best_of_def take_best_def)
    qed (use True Some b in \<open>simp add: best_of_def take_best_def\<close>)
  qed
qed (use assms in \<open>auto simp: best_of_def take_best_def split: option.splits\<close>)

lemma fold_best: "best_of offer R best \<Longrightarrow> best_of offer (R \<union> set rs) (fold (take_best offer) rs best)"
proof (induction rs arbitrary: R best)
  case (Cons r rs)
  then show ?case
    using Cons.IH [OF take_best_step [OF Cons.prems]] by simp
qed simp

lemma qualityFor_speaks: "speaks_for ranges offer (qualityFor ranges offer)"
proof -
  have "best_of offer (set ranges) (fold (take_best offer) ranges None)"
    using fold_best [of offer "{}" None ranges] by (simp add: best_of_def)
  then show ?thesis
    by (auto simp: speaks_for_def qualityFor_def best_of_def split: option.splits)
qed

lemma speaks_for_unique:
  assumes "speaks_for ranges offer p" "speaks_for ranges' offer q" and same: "set ranges = set ranges'"
  shows "p = q"
proof (cases "\<exists>r \<in> set ranges. matches r offer")
  case True
  obtain r where r: "r \<in> set ranges" "matches r offer" "mr_quality r = p" "\<forall>r' \<in> set ranges. matches r' offer \<longrightarrow> \<not> moreSpecific r' r"
    using assms(1) True by (auto simp: speaks_for_def)
  obtain s where s: "s \<in> set ranges" "matches s offer" "mr_quality s = q" "\<forall>r' \<in> set ranges. matches r' offer \<longrightarrow> \<not> moreSpecific r' s"
    using assms(2) True unfolding speaks_for_def same by auto
  show ?thesis
    using moreSpecific_tie [of r s] r s by blast
next
  case False
  then show ?thesis
    using assms(1,2) unfolding speaks_for_def same by simp
qed

lemma qualityFor_set: "set ranges = set ranges' \<Longrightarrow> qualityFor ranges offer = qualityFor ranges' offer"
  by (rule speaks_for_unique [OF qualityFor_speaks qualityFor_speaks])

section \<open>The members of a field\<close>

lemma parse_members_none: "parse_members ms = None \<longleftrightarrow> (\<exists>m \<in> set ms. trim m \<noteq> [] \<and> parseMediaRange (trim m) = None)"
  by (induction ms) (auto split: option.splits)

lemma parse_members_set:
  "parse_members ms = Some rs \<Longrightarrow> set rs = {r. \<exists>m \<in> set ms. trim m \<noteq> [] \<and> parseMediaRange (trim m) = Some r}"
  by (induction ms arbitrary: rs) (auto split: option.splits if_splits)

lemma choose_cong:
  assumes "set rs = set rs'"
  shows "weigh_offer rs = weigh_offer rs'"
  unfolding weigh_offer_def qualityFor_set [OF assms] ..

lemma select_members:
  assumes "parse_members ms = r" "parse_members ms' = r'" "set ms = set ms'"
  shows "(case r of None \<Rightarrow> first_offer offered | Some ranges \<Rightarrow> fst (fold (weigh_offer ranges) offered (None, 0)))
    = (case r' of None \<Rightarrow> first_offer offered | Some ranges \<Rightarrow> fst (fold (weigh_offer ranges) offered (None, 0)))"
proof (cases r)
  case None
  then have "r' = None"
    using assms parse_members_none by metis
  then show ?thesis
    using None by simp
next
  case (Some rs)
  then obtain rs' where "r' = Some rs'"
    using assms parse_members_none [of ms] parse_members_none [of ms'] by (cases r') auto
  then show ?thesis
    using Some assms parse_members_set [of ms rs] parse_members_set [of ms' rs'] choose_cong [of rs rs'] by simp
qed

section \<open>The choice among the offers\<close>

definition weight :: "media_range list \<Rightarrow> string \<Rightarrow> rat" where
  "weight ranges offer = (case parseOffer offer of None \<Rightarrow> 0 | Some parsed \<Rightarrow> qualityFor ranges parsed)"

definition chosen_ok :: "media_range list \<Rightarrow> string list \<Rightarrow> string option \<times> rat \<Rightarrow> bool" where
  "chosen_ok ranges os c \<longleftrightarrow>
     (case c of
        (None, q) \<Rightarrow> q = 0 \<and> (\<forall>x \<in> set os. weight ranges x \<le> 0)
      | (Some x, q) \<Rightarrow> 0 < q \<and> weight ranges x = q
          \<and> (\<exists>xs ys. os = xs @ x # ys \<and> (\<forall>y \<in> set xs. weight ranges y < q) \<and> (\<forall>y \<in> set ys. weight ranges y \<le> q)))"

lemma choose_step: "chosen_ok ranges os c \<Longrightarrow> chosen_ok ranges (os @ [x]) (weigh_offer ranges x c)"
proof -
  assume ok: "chosen_ok ranges os c"
  obtain v q where c: "c = (v, q)" by fastforce
  have q: "0 \<le> q" "\<forall>y \<in> set os. weight ranges y \<le> q"
    using ok by (force simp: chosen_ok_def c split: option.splits)+
  show ?thesis
  proof (cases "q < weight ranges x")
    case True
    then have "weigh_offer ranges x c = (Some x, weight ranges x)"
      using q by (auto simp: weigh_offer_def weight_def c Let_def split: option.splits)
    moreover have "\<exists>xs ys. os @ [x] = xs @ x # ys \<and> (\<forall>y \<in> set xs. weight ranges y < weight ranges x) \<and> (\<forall>y \<in> set ys. weight ranges y \<le> weight ranges x)"
      using True q by (intro exI [of _ os] exI [of _ "[]"]) auto
    ultimately show ?thesis
      using True q by (simp add: chosen_ok_def)
  next
    case False
    then have eq: "weigh_offer ranges x c = c"
      by (auto simp: weigh_offer_def weight_def c Let_def split: option.splits)
    show ?thesis
    proof (cases v)
      case None
      then show ?thesis
        using ok False unfolding eq by (auto simp: chosen_ok_def c)
    next
      case (Some w)
      then obtain xs ys where "os = xs @ w # ys" "\<forall>y \<in> set xs. weight ranges y < q" "\<forall>y \<in> set ys. weight ranges y \<le> q"
        using ok by (auto simp: chosen_ok_def c)
      then have "\<exists>xs zs. os @ [x] = xs @ w # zs \<and> (\<forall>y \<in> set xs. weight ranges y < q) \<and> (\<forall>y \<in> set zs. weight ranges y \<le> q)"
        using False by (intro exI [of _ xs] exI [of _ "ys @ [x]"]) auto
      then show ?thesis
        using ok Some unfolding eq by (simp add: chosen_ok_def c)
    qed
  qed
qed

lemma choose_all: "chosen_ok ranges os c \<Longrightarrow> chosen_ok ranges (os @ xs) (fold (weigh_offer ranges) xs c)"
proof (induction xs arbitrary: os c)
  case (Cons x xs)
  then show ?case
    using Cons.IH [OF choose_step [OF Cons.prems]] by simp
qed simp

section \<open>Properties\<close>

text \<open>
  C19: the order in which a client lists its media ranges does not matter. For members without a comma
  outside quotes, any arrangement of them makes the server choose the same offer.
\<close>

theorem choice_ignores_the_order_of_the_ranges:
  assumes "\<forall>m \<in> set ms. splitUnquoted m (CHR '','') = Some [m]" "mset ms = mset ms'"
  shows "selectMediaType (Some (join '','' ms)) offered = selectMediaType (Some (join '','' ms')) offered"
proof (cases "ms = []")
  case False
  have same: "set ms = set ms'"
    by (rule mset_eq_setD [OF assms(2)])
  have "ms' \<noteq> []"
    using False same by auto
  have "parseAccept (join '','' ms) = parse_members ms" "parseAccept (join '','' ms') = parse_members ms'"
    using split_members [of "CHR '',''" ms] split_members [of "CHR '',''" ms'] assms(1) False same \<open>ms' \<noteq> []\<close>
    by (simp_all add: parseAccept_def)
  then show ?thesis
    using select_members [OF refl refl same] by (simp add: selectMediaType_def)
qed (use assms in simp)

theorem choice_ignores_the_order_of_the_ranges_witness:
  "selectMediaType (Some ''text/*;q=0.5,text/html;q=0,*/*;q=0.1'') [''text/html'', ''text/plain''] = Some ''text/plain''
   \<and> selectMediaType (Some ''*/*;q=0.1,text/html;q=0,text/*;q=0.5'') [''text/html'', ''text/plain''] = Some ''text/plain''"
proof -
  let ?ms = "[''text/*;q=0.5'', ''text/html;q=0'', ''*/*;q=0.1'']"
  have "\<forall>m \<in> set ?ms. splitUnquoted m (CHR '','') = Some [m]"
    by (simp add: splitUnquoted_def)
  then have "selectMediaType (Some (join '','' ?ms)) [''text/html'', ''text/plain'']
      = selectMediaType (Some (join '','' (rev ?ms))) [''text/html'', ''text/plain'']"
    by (rule choice_ignores_the_order_of_the_ranges) simp
  moreover have "selectMediaType (Some (join '','' ?ms)) [''text/html'', ''text/plain''] = Some ''text/plain''"
    by code_simp
  ultimately show ?thesis
    by simp
qed

text \<open>
  C30: of a field that can be read, the server chooses the first offer of the greatest weight, where the
  weight of an offer is that of the most specific range matching it; an offer with a weight of zero, or
  that no range matches, or that is no media type, is never chosen, and nothing is chosen only when all
  offers are such.
\<close>

theorem chosen_offer_is_the_first_best:
  assumes "parseAccept h = Some ranges"
  shows "(case selectMediaType (Some h) offered of
      None \<Rightarrow> \<forall>x \<in> set offered. weight ranges x \<le> 0
    | Some x \<Rightarrow> isMediaType x \<and> 0 < weight ranges x
        \<and> (\<exists>xs ys. offered = xs @ x # ys \<and> (\<forall>y \<in> set xs. weight ranges y < weight ranges x) \<and> (\<forall>y \<in> set ys. weight ranges y \<le> weight ranges x)))
    \<and> (\<forall>x p. parseOffer x = Some p \<longrightarrow> speaks_for ranges p (weight ranges x))"
proof -
  have "chosen_ok ranges offered (fold (weigh_offer ranges) offered (None, 0))"
    using choose_all [of ranges "[]" "(None, 0)" offered] by (simp add: chosen_ok_def)
  moreover have "isMediaType x" if "0 < weight ranges x" for x
    using that by (auto simp: weight_def isMediaType_def split: option.splits)
  moreover have "speaks_for ranges p (weight ranges x)" if "parseOffer x = Some p" for x p
    using that qualityFor_speaks by (simp add: weight_def)
  ultimately show ?thesis
    by (auto simp: selectMediaType_def assms chosen_ok_def split: prod.splits option.splits)
qed

theorem chosen_offer_is_the_first_best_witness:
  "\<exists>ranges. parseAccept ''text/plain;q=0.8, application/json'' = Some ranges \<and> 0 < weight ranges ''application/json''
     \<and> selectMediaType (Some ''text/plain;q=0.8, application/json'') [''text/plain'', ''application/json''] = Some ''application/json''"
proof -
  have "parseAccept ''text/plain;q=0.8, application/json'' \<noteq> None"
    by code_simp
  then obtain ranges where ranges: "parseAccept ''text/plain;q=0.8, application/json'' = Some ranges"
    by blast
  moreover have "selectMediaType (Some ''text/plain;q=0.8, application/json'') [''text/plain'', ''application/json''] = Some ''application/json''"
    by code_simp
  ultimately show ?thesis
    using chosen_offer_is_the_first_best [OF ranges, of "[''text/plain'', ''application/json'']"] by auto
qed

section \<open>Writing a media type\<close>

definition quote_value :: "string \<Rightarrow> string" where
  "quote_value v = DQUOTE # concat (map (\<lambda>c. if c = DQUOTE \<or> c = BACKSLASH then [BACKSLASH, c] else [c]) v) @ [DQUOTE]"

definition write_parameter :: "string \<times> string \<Rightarrow> string" where
  "write_parameter p = fst p @ ''='' @ quote_value (snd p)"

definition write_media_type :: "media_range \<Rightarrow> string" where
  "write_media_type r = join '';'' ((mr_type r @ ''/'' @ mr_subtype r) # map write_parameter (mr_parameters r))"

definition lower_token :: "string \<Rightarrow> bool" where
  "lower_token s \<longleftrightarrow> isToken s \<and> toLowerCase s = s"

definition plain_type :: "media_range \<Rightarrow> bool" where
  "plain_type r \<longleftrightarrow> lower_token (mr_type r) \<and> mr_type r \<noteq> ''*'' \<and> lower_token (mr_subtype r) \<and> mr_subtype r \<noteq> ''*''
     \<and> js_ok (mr_parameters r) \<and> (\<forall>n \<in> fst ` set (mr_parameters r). lower_token n \<and> n \<noteq> ''q'')
     \<and> mr_quality r = 1 \<and> \<not> mr_weighted r"

lemma tchar_plain: "is_tchar c \<Longrightarrow> c \<noteq> DQUOTE \<and> c \<noteq> CHR '';'' \<and> c \<noteq> CHR ''='' \<and> c \<noteq> CHR ''/'' \<and> c \<noteq> CHR '','' \<and> \<not> is_ws c"
  by (auto simp: is_tchar_def is_ws_def is_digit_def code_def)

lemma token_plain:
  assumes "isToken s" "c \<in> set s"
  shows "c \<noteq> DQUOTE \<and> c \<noteq> CHR '';'' \<and> c \<noteq> CHR ''='' \<and> c \<noteq> CHR ''/'' \<and> c \<noteq> CHR '','' \<and> \<not> is_ws c"
  using assms tchar_plain by (auto simp: isToken_def list_all_iff)

lemma token_trim: "isToken s \<Longrightarrow> trim s = s"
  using token_plain by (blast intro: trim_no_ws)

lemma unquote_quoted: "parseParameterValue (quote_value v) = Some v"
proof -
  have "unquote (concat (map (\<lambda>c. if c = DQUOTE \<or> c = BACKSLASH then [BACKSLASH, c] else [c]) v) @ [DQUOTE]) = Some v"
    by (induction v) auto
  then show ?thesis
    by (simp add: parseParameterValue_def quote_value_def)
qed

lemma split_plain: "\<forall>c \<in> set s. c \<noteq> DQUOTE \<and> c \<noteq> d \<Longrightarrow> split_loop d False part (s @ rest) = split_loop d False (part @ s) rest"
  by (induction s arbitrary: part) auto

lemma split_quoted:
  assumes "d \<noteq> DQUOTE"
  shows "split_loop d False part (quote_value v @ rest) = split_loop d False (part @ quote_value v) rest"
proof -
  have "split_loop d True q (concat (map (\<lambda>c. if c = DQUOTE \<or> c = BACKSLASH then [BACKSLASH, c] else [c]) v) @ DQUOTE # rest)
      = split_loop d False (q @ concat (map (\<lambda>c. if c = DQUOTE \<or> c = BACKSLASH then [BACKSLASH, c] else [c]) v) @ [DQUOTE]) rest" for q
    by (induction v arbitrary: q) auto
  then show ?thesis
    by (simp add: quote_value_def)
qed

lemma split_parameter:
  assumes "isToken (fst p)"
  shows "splitUnquoted (write_parameter p) (CHR '';'') = Some [write_parameter p]"
proof -
  have "\<forall>c \<in> set (fst p @ ''=''). c \<noteq> DQUOTE \<and> c \<noteq> CHR '';''"
    using token_plain [OF assms] by auto
  from split_plain [OF this, of "[]" "quote_value (snd p)"] show ?thesis
    using split_quoted [of "CHR '';''" "fst p @ ''=''" "snd p" "[]"] by (simp add: splitUnquoted_def write_parameter_def)
qed

lemma split_type:
  assumes "isToken t" "isToken u"
  shows "splitUnquoted (t @ ''/'' @ u) (CHR '';'') = Some [t @ ''/'' @ u]"
proof -
  have "\<forall>c \<in> set (t @ ''/'' @ u). c \<noteq> DQUOTE \<and> c \<noteq> CHR '';''"
    using token_plain [OF assms(1)] token_plain [OF assms(2)] by auto
  from split_plain [OF this, of "[]" "[]"] show ?thesis
    by (simp add: splitUnquoted_def)
qed

lemma trim_quoted: "trim (quote_value v) = quote_value v"
  by (rule trim_id) (simp add: quote_value_def is_ws_def code_def)

lemma parse_written_parameters:
  assumes "\<forall>n \<in> fst ` set ps. lower_token n \<and> n \<noteq> ''q''" "js_ok (mr_parameters r @ ps)" "\<not> mr_weighted r"
  shows "parse_parameters (map write_parameter ps) r = Some (r\<lparr>mr_parameters := mr_parameters r @ ps\<rparr>)"
  using assms
proof (induction ps arbitrary: r)
  case (Cons p ps)
  obtain n v where p: "p = (n, v)" by fastforce
  have n: "isToken n" "toLowerCase n = n" "n \<noteq> ''q''"
    using Cons.prems(1) by (simp_all add: p lower_token_def)
  have "CHR ''='' \<notin> set n"
    using token_plain [OF n(1)] by blast
  then have eq: "index_of (CHR ''='') (write_parameter p) = Some (length n)"
    using index_of_append [of "CHR ''=''" n "quote_value v"] by (simp add: write_parameter_def p)
  have new: "js_get (mr_parameters r) n = None"
    using Cons.prems(2) by (auto simp: js_ok_def p map_of_eq_None_iff)
  have "parse_parameters (map write_parameter ps) (r\<lparr>mr_parameters := mr_parameters r @ [p]\<rparr>)
      = Some (r\<lparr>mr_parameters := mr_parameters r @ p # ps\<rparr>)"
    using Cons.IH [of "r\<lparr>mr_parameters := mr_parameters r @ [p]\<rparr>"] Cons.prems by simp
  moreover have "take (length n) (write_parameter p) = n" "drop (Suc (length n)) (write_parameter p) = quote_value v"
    by (simp_all add: write_parameter_def p)
  ultimately show ?case
    using eq n new Cons.prems(3) by (simp add: p token_trim trim_quoted unquote_quoted js_set_new Let_def)
qed simp

text \<open>
  A media type with any parameter values at all, quoted as the grammar asks, is read back as it is,
  whatever separators, quotes and backslashes the values hold.
\<close>

lemma written_media_type_round_trip:
  assumes "plain_type r"
  shows "parseOffer (write_media_type r) = Some r"
proof -
  let ?t = "mr_type r @ ''/'' @ mr_subtype r"
  have t: "isToken (mr_type r)" "isToken (mr_subtype r)" "toLowerCase (mr_type r) = mr_type r" "toLowerCase (mr_subtype r) = mr_subtype r"
    using assms by (simp_all add: plain_type_def lower_token_def)
  have "\<forall>m \<in> set (?t # map write_parameter (mr_parameters r)). splitUnquoted m (CHR '';'') = Some [m]"
    using assms split_type [OF t(1,2)] split_parameter by (auto simp: plain_type_def lower_token_def)
  then have split: "splitUnquoted (write_media_type r) (CHR '';'') = Some (?t # map write_parameter (mr_parameters r))"
    unfolding write_media_type_def by (intro split_members) simp_all
  have "CHR ''/'' \<notin> set (mr_type r)"
    using token_plain [OF t(1)] by blast
  then have slash: "index_of (CHR ''/'') ?t = Some (length (mr_type r))"
    using index_of_append [of "CHR ''/''" "mr_type r" "mr_subtype r"] by simp
  have "parse_parameters (map write_parameter (mr_parameters r))
      \<lparr>mr_type = mr_type r, mr_subtype = mr_subtype r, mr_parameters = [], mr_quality = 1, mr_weighted = False\<rparr> = Some r"
    using assms by (subst parse_written_parameters) (auto simp: plain_type_def)
  then have "parseMediaRange (write_media_type r) = Some r"
    using slash t assms by (simp add: parseMediaRange_def split token_trim Let_def plain_type_def)
  then show ?thesis
    using assms by (simp add: parseOffer_def plain_type_def)
qed

definition demo_type :: media_range where
  "demo_type = \<lparr>mr_type = ''text'', mr_subtype = ''plain'', mr_parameters = [(''note'', ''a,b;c'' @ [DQUOTE, BACKSLASH])],
     mr_quality = 1, mr_weighted = False\<rparr>"

end
