(* ===== verification/Field_Encryption.thy ===== *)
theory Field_Encryption
  imports Js_String "HOL-Library.Word"
begin

text \<open>
  Envelope encryption of single column values (\<open>src/crypto/envelope.ts\<close>, \<open>keyring.ts\<close>,
  \<open>field-cipher.ts\<close>): the layout of the stored bytes, the ring of keys, and the cipher over both. AES-GCM
  and base 64 are parameters, random bytes are arguments. Strings are lists of Latin-1 characters.
\<close>

type_synonym byte = "8 word"

text \<open>
  \<open>Buffer.from(s, 'ascii')\<close> writes the character codes as they are; \<open>toString('ascii')\<close> clears the
  highest bit of every byte. \<open>Buffer.from(s, 'utf8')\<close> takes one byte below 128 and two from there on.
\<close>

definition from_ascii :: "string \<Rightarrow> byte list" where
  "from_ascii s = map (\<lambda>c. word_of_nat (code c)) s"

definition to_ascii :: "byte list \<Rightarrow> string" where
  "to_ascii bs = map (\<lambda>b. char_of (unat b mod 128)) bs"

definition utf8_char :: "char \<Rightarrow> byte list" where
  "utf8_char c =
     (if code c < 128 then [word_of_nat (code c)]
      else [word_of_nat (192 + code c div 64), word_of_nat (128 + code c mod 64)])"

definition from_utf8 :: "string \<Rightarrow> byte list" where
  "from_utf8 s = concat (map utf8_char s)"

section \<open>The envelope\<close>

definition ENVELOPE_FORMAT_VERSION :: nat where "ENVELOPE_FORMAT_VERSION = 1"

definition IV_BYTES :: nat where "IV_BYTES = 12"

definition TAG_BYTES :: nat where "TAG_BYTES = 16"

definition DATA_KEY_BYTES :: nat where "DATA_KEY_BYTES = 32"

definition HEADER_BYTES :: nat where "HEADER_BYTES = 2"

record envelope =
  ev_keyId :: string
  ev_wrapIv :: "byte list"
  ev_wrapTag :: "byte list"
  ev_wrappedKey :: "byte list"
  ev_iv :: "byte list"
  ev_tag :: "byte list"
  ev_ciphertext :: "byte list"

datatype field_error =
    EnvelopeFormatError string
  | ContextError string
  | UnknownKey string
  | WrapAuthentication
  | DataKeyLength nat
  | PayloadAuthentication

definition encodeEnvelope :: "envelope \<Rightarrow> field_error + byte list" where
  "encodeEnvelope e =
     (let keyId = from_ascii (ev_keyId e) in
      if length keyId = 0 \<or> 255 < length keyId then Inl (EnvelopeFormatError ''key id must be 1-255 bytes'')
      else Inr ([word_of_nat ENVELOPE_FORMAT_VERSION, word_of_nat (length keyId)] @ keyId @ ev_wrapIv e @ ev_wrapTag e
             @ ev_wrappedKey e @ ev_iv e @ ev_tag e @ ev_ciphertext e))"

definition decodeEnvelope :: "byte list \<Rightarrow> field_error + envelope" where
  "decodeEnvelope bytes =
     (if length bytes < HEADER_BYTES then Inl (EnvelopeFormatError ''shorter than the header'')
      else if unat (bytes ! 0) \<noteq> ENVELOPE_FORMAT_VERSION then Inl (EnvelopeFormatError ''format version is not supported'')
      else let keyIdLength = unat (bytes ! 1) in
        if keyIdLength = 0 then Inl (EnvelopeFormatError ''key id is empty'')
        else if length bytes < HEADER_BYTES + keyIdLength + IV_BYTES + TAG_BYTES + DATA_KEY_BYTES + IV_BYTES + TAG_BYTES
        then Inl (EnvelopeFormatError ''cannot hold the header'')
        else let b1 = drop HEADER_BYTES bytes; b2 = drop keyIdLength b1; b3 = drop IV_BYTES b2; b4 = drop TAG_BYTES b3;
                 b5 = drop DATA_KEY_BYTES b4; b6 = drop IV_BYTES b5 in
          Inr \<lparr>ev_keyId = to_ascii (take keyIdLength b1), ev_wrapIv = take IV_BYTES b2, ev_wrapTag = take TAG_BYTES b3,
               ev_wrappedKey = take DATA_KEY_BYTES b4, ev_iv = take IV_BYTES b5, ev_tag = take TAG_BYTES b6,
               ev_ciphertext = drop TAG_BYTES b6\<rparr>)"

definition envelopeKeyId :: "byte list \<Rightarrow> field_error + string" where
  "envelopeKeyId bytes = map_sum id ev_keyId (decodeEnvelope bytes)"

section \<open>The key ring\<close>

record keyring_entry =
  ke_id :: string
  ke_key :: "byte list"

record keyring =
  kr_active :: keyring_entry
  kr_byId :: "(string, keyring_entry) js_map"
  kr_ids :: "string list"

datatype keyring_error =
    No_separator nat
  | Bad_key_id nat
  | Not_base64 nat
  | Key_length nat nat
  | No_keys
  | Two_keys string
  | Active_not_held string

definition KEY_BYTES :: nat where "KEY_BYTES = 32"

definition KEY_ID_PATTERN :: "string \<Rightarrow> bool" where
  "KEY_ID_PATTERN s \<longleftrightarrow> 1 \<le> length s \<and> length s \<le> 32
     \<and> list_all (\<lambda>c. 65 \<le> code c \<and> code c \<le> 90 \<or> 97 \<le> code c \<and> code c \<le> 122 \<or> is_digit c \<or> c \<in> set ''_.-'') s"

text \<open>Base 64 as \<open>Buffer\<close> decodes and encodes it.\<close>

record base64 =
  b64_decode :: "string \<Rightarrow> byte list"
  b64_encode :: "byte list \<Rightarrow> string"

definition parseEntry :: "base64 \<Rightarrow> string \<Rightarrow> nat \<Rightarrow> keyring_error + keyring_entry" where
  "parseEntry b64 raw position =
     (case index_of (CHR '':'') raw of
        None \<Rightarrow> Inl (No_separator position)
      | Some separator \<Rightarrow>
          if separator = 0 then Inl (No_separator position)
          else let ident = take separator raw; encoded = drop (separator + 1) raw; key = b64_decode b64 encoded in
            if \<not> KEY_ID_PATTERN ident then Inl (Bad_key_id position)
            else if b64_encode b64 key \<noteq> encoded then Inl (Not_base64 position)
            else if length key \<noteq> KEY_BYTES then Inl (Key_length position (length key))
            else Inr \<lparr>ke_id = ident, ke_key = key\<rparr>)"

fun parse_entries :: "base64 \<Rightarrow> nat \<Rightarrow> string list \<Rightarrow> keyring_error + keyring_entry list" where
  "parse_entries b64 position [] = Inr []"
| "parse_entries b64 position (part # rest) =
     (case parseEntry b64 part position of
        Inl err \<Rightarrow> Inl err
      | Inr e \<Rightarrow> map_sum id (\<lambda>es. e # es) (parse_entries b64 (position + 1) rest))"

fun add_entries :: "keyring_entry list \<Rightarrow> (string, keyring_entry) js_map \<Rightarrow> keyring_error + (string, keyring_entry) js_map" where
  "add_entries [] byId = Inr byId"
| "add_entries (e # es) byId =
     (if js_has byId (ke_id e) then Inl (Two_keys (ke_id e)) else add_entries es (js_set (ke_id e) e byId))"

definition parseKeyring :: "base64 \<Rightarrow> string \<Rightarrow> string \<Rightarrow> keyring_error + keyring" where
  "parseKeyring b64 spec activeKeyId =
     (case parse_entries b64 0 (filter (\<lambda>part. 0 < length part) (map trim (split_on (CHR '','') spec))) of
        Inl err \<Rightarrow> Inl err
      | Inr entries \<Rightarrow>
          if entries = [] then Inl No_keys
          else (case add_entries entries [] of
                  Inl err \<Rightarrow> Inl err
                | Inr byId \<Rightarrow>
                    (case js_get byId activeKeyId of
                       None \<Rightarrow> Inl (Active_not_held activeKeyId)
                     | Some active_entry \<Rightarrow> Inr \<lparr>kr_active = active_entry, kr_byId = byId, kr_ids = map ke_id entries\<rparr>)))"

definition find_key :: "keyring \<Rightarrow> string \<Rightarrow> keyring_entry option" where
  "find_key ring keyId = js_get (kr_byId ring) keyId"

section \<open>The cipher\<close>

record field_context =
  fc_table :: string
  fc_column :: string
  fc_id :: string

text \<open>AES-256-GCM: \<open>gcm_seal\<close> gives ciphertext and tag, \<open>gcm_open\<close> is \<open>None\<close> where \<open>final\<close> throws.\<close>

record gcm =
  gcm_seal :: "byte list \<Rightarrow> byte list \<Rightarrow> byte list \<Rightarrow> byte list \<Rightarrow> byte list \<times> byte list"
  gcm_open :: "byte list \<Rightarrow> byte list \<Rightarrow> byte list \<Rightarrow> byte list \<Rightarrow> byte list \<Rightarrow> byte list option"

abbreviation NUL :: char where "NUL \<equiv> CHR 0x00"

definition check_part :: "string \<Rightarrow> string \<Rightarrow> field_error option" where
  "check_part name v =
     (if length v = 0 then Some (ContextError (name @ '' is empty''))
      else if NUL \<in> set v then Some (ContextError (name @ '' contains a NUL byte'')) else None)"

definition encodeFieldContext :: "field_context \<Rightarrow> field_error + byte list" where
  "encodeFieldContext c =
     (case check_part ''table'' (fc_table c) of Some err \<Rightarrow> Inl err
      | None \<Rightarrow> (case check_part ''column'' (fc_column c) of Some err \<Rightarrow> Inl err
        | None \<Rightarrow> (case check_part ''id'' (fc_id c) of Some err \<Rightarrow> Inl err
          | None \<Rightarrow> Inr (from_utf8 (fc_table c @ [NUL] @ fc_column c @ [NUL] @ fc_id c)))))"

definition wrapAad :: "string \<Rightarrow> byte list \<Rightarrow> byte list" where
  "wrapAad keyId context = from_utf8 (''dek'' @ [NUL] @ show_nat ENVELOPE_FORMAT_VERSION @ [NUL] @ keyId @ [NUL]) @ context"

definition payloadAad :: "byte list \<Rightarrow> byte list" where
  "payloadAad context = from_utf8 (''field'' @ [NUL]) @ context"

text \<open>The envelope of a data key wrapped under the active key, with the payload that goes with it.\<close>

definition wrapDataKey :: "gcm \<Rightarrow> keyring \<Rightarrow> byte list \<Rightarrow> byte list \<Rightarrow> byte list \<Rightarrow> byte list \<Rightarrow> byte list \<Rightarrow> byte list \<Rightarrow> envelope" where
  "wrapDataKey g ring wrapIv dataKey context iv tag ciphertext =
     (case gcm_seal g (ke_key (kr_active ring)) wrapIv (wrapAad (ke_id (kr_active ring)) context) dataKey of
        (wrappedKey, wrapTag) \<Rightarrow> \<lparr>ev_keyId = ke_id (kr_active ring), ev_wrapIv = wrapIv, ev_wrapTag = wrapTag,
           ev_wrappedKey = wrappedKey, ev_iv = iv, ev_tag = tag, ev_ciphertext = ciphertext\<rparr>)"

definition unwrapDataKey :: "gcm \<Rightarrow> keyring \<Rightarrow> envelope \<Rightarrow> byte list \<Rightarrow> field_error + byte list" where
  "unwrapDataKey g ring e context =
     (case find_key ring (ev_keyId e) of
        None \<Rightarrow> Inl (UnknownKey (ev_keyId e))
      | Some k \<Rightarrow>
          (case gcm_open g (ke_key k) (ev_wrapIv e) (wrapAad (ev_keyId e) context) (ev_wrappedKey e) (ev_wrapTag e) of
             None \<Rightarrow> Inl WrapAuthentication
           | Some dataKey \<Rightarrow>
               if length dataKey \<noteq> DATA_KEY_BYTES then Inl (DataKeyLength (length dataKey)) else Inr dataKey))"

definition decryptField :: "gcm \<Rightarrow> keyring \<Rightarrow> byte list \<Rightarrow> field_context \<Rightarrow> field_error + byte list" where
  "decryptField g ring stored c =
     (case encodeFieldContext c of
        Inl err \<Rightarrow> Inl err
      | Inr aad \<Rightarrow>
          (case decodeEnvelope stored of
             Inl err \<Rightarrow> Inl err
           | Inr e \<Rightarrow>
               (case unwrapDataKey g ring e aad of
                  Inl err \<Rightarrow> Inl err
                | Inr dataKey \<Rightarrow>
                    (case gcm_open g dataKey (ev_iv e) (payloadAad aad) (ev_ciphertext e) (ev_tag e) of
                       None \<Rightarrow> Inl PayloadAuthentication
                     | Some plaintext \<Rightarrow> Inr plaintext))))"

definition encrypt :: "gcm \<Rightarrow> keyring \<Rightarrow> byte list \<Rightarrow> byte list \<Rightarrow> byte list \<Rightarrow> byte list \<Rightarrow> field_context \<Rightarrow> field_error + byte list" where
  "encrypt g ring dataKey iv wrapIv plaintext c =
     (case encodeFieldContext c of
        Inl err \<Rightarrow> Inl err
      | Inr aad \<Rightarrow>
          (case gcm_seal g dataKey iv (payloadAad aad) plaintext of
             (ciphertext, tag) \<Rightarrow> encodeEnvelope (wrapDataKey g ring wrapIv dataKey aad iv tag ciphertext)))"

definition rewrap :: "gcm \<Rightarrow> keyring \<Rightarrow> byte list \<Rightarrow> byte list \<Rightarrow> field_context \<Rightarrow> field_error + byte list" where
  "rewrap g ring wrapIv stored c =
     (case encodeFieldContext c of
        Inl err \<Rightarrow> Inl err
      | Inr aad \<Rightarrow>
          (case decodeEnvelope stored of
             Inl err \<Rightarrow> Inl err
           | Inr e \<Rightarrow>
               (case unwrapDataKey g ring e aad of
                  Inl err \<Rightarrow> Inl err
                | Inr dataKey \<Rightarrow> encodeEnvelope (wrapDataKey g ring wrapIv dataKey aad (ev_iv e) (ev_tag e) (ev_ciphertext e)))))"

definition needsRewrap :: "keyring \<Rightarrow> byte list \<Rightarrow> field_error + bool" where
  "needsRewrap ring stored = map_sum id (\<lambda>e. ev_keyId e \<noteq> ke_id (kr_active ring)) (decodeEnvelope stored)"

section \<open>Bytes\<close>

lemma code_less: "code c < 256"
  by (simp add: code_def)

lemma unat_code [simp]: "unat (word_of_nat (code c) :: byte) = code c"
  using code_less [of c] by (simp add: unat_of_nat)

lemma char_of_code: "char_of (code c) = c"
  by (simp add: code_def)

lemma unat_small: "n \<le> 255 \<Longrightarrow> unat (word_of_nat n :: byte) = n"
  by (simp add: unat_of_nat)

lemma ascii_back: "\<forall>c \<in> set s. code c < 128 \<Longrightarrow> to_ascii (from_ascii s) = s"
  by (induction s) (simp_all add: to_ascii_def from_ascii_def char_of_code)

lemma length_ascii [simp]: "length (from_ascii s) = length s"
  by (simp add: from_ascii_def)

lemma utf8_first:
  "unat (hd (utf8_char c)) = (if code c < 128 then code c else 192 + code c div 64)"
  using code_less [of c] unat_small [of "192 + code c div 64"] by (simp add: utf8_char_def)

lemma utf8_char_inj:
  assumes "utf8_char c @ r = utf8_char d @ s"
  shows "c = d \<and> r = s"
proof -
  have "hd (utf8_char c) = hd (utf8_char d)"
    using assms by (auto simp: utf8_char_def split: if_splits)
  then have first: "(if code c < 128 then code c else 192 + code c div 64) = (if code d < 128 then code d else 192 + code d div 64)"
    by (metis utf8_first)
  show ?thesis
  proof (cases "code c < 128")
    case True
    then have "code d < 128"
      using first by (simp split: if_splits)
    then show ?thesis
      using True first assms by (simp add: utf8_char_def code_inject)
  next
    case False
    then have d: "\<not> code d < 128"
      using first by (auto split: if_splits)
    have "(word_of_nat (128 + code c mod 64) :: byte) = word_of_nat (128 + code d mod 64)" "r = s"
      using assms False d by (simp_all add: utf8_char_def)
    then have "unat (word_of_nat (128 + code c mod 64) :: byte) = unat (word_of_nat (128 + code d mod 64) :: byte)"
      by simp
    moreover have "128 + code c mod 64 \<le> 255" "128 + code d mod 64 \<le> 255"
      by simp_all
    ultimately have "128 + code c mod 64 = 128 + code d mod 64"
      by (simp only: unat_small)
    then have "code c mod 64 = code d mod 64"
      by simp
    moreover have "code c div 64 = code d div 64"
      using first False d by simp
    ultimately have "code c = code d"
      by (metis div_mult_mod_eq)
    then show ?thesis
      using \<open>r = s\<close> by (simp add: code_inject)
  qed
qed

lemma utf8_char_not_Nil [simp]: "utf8_char c \<noteq> []"
  by (simp add: utf8_char_def)

lemma from_utf8_inj: "from_utf8 s = from_utf8 t \<Longrightarrow> s = t"
proof (induction s arbitrary: t)
  case Nil
  then show ?case
    by (cases t) (simp_all add: from_utf8_def)
next
  case (Cons c s)
  then obtain d t' where t: "t = d # t'"
    by (cases t) (auto simp: from_utf8_def)
  have "c = d \<and> concat (map utf8_char s) = concat (map utf8_char t')"
    using Cons.prems utf8_char_inj [of c "concat (map utf8_char s)" d "concat (map utf8_char t')"] by (simp add: from_utf8_def t)
  then show ?case
    using Cons.IH [of t'] by (simp add: from_utf8_def t)
qed

section \<open>Envelopes\<close>

text \<open>The key ids that the ring admits, and envelopes of the right lengths.\<close>

definition ident_ok :: "string \<Rightarrow> bool" where
  "ident_ok s \<longleftrightarrow> 1 \<le> length s \<and> length s \<le> 255 \<and> (\<forall>c \<in> set s. code c < 128)"

definition envelope_ok :: "envelope \<Rightarrow> bool" where
  "envelope_ok e \<longleftrightarrow> ident_ok (ev_keyId e) \<and> length (ev_wrapIv e) = 12 \<and> length (ev_wrapTag e) = 16
     \<and> length (ev_wrappedKey e) = 32 \<and> length (ev_iv e) = 12 \<and> length (ev_tag e) = 16"

lemmas layout_sizes = IV_BYTES_def TAG_BYTES_def DATA_KEY_BYTES_def HEADER_BYTES_def ENVELOPE_FORMAT_VERSION_def

text \<open>The layout read from any bytes that have the key id of an envelope up to the bits that decoding clears.\<close>

lemma decode_layout:
  assumes ok: "envelope_ok e" and ident: "length ident = length (ev_keyId e)" "to_ascii ident = ev_keyId e"
  shows "decodeEnvelope ([word_of_nat ENVELOPE_FORMAT_VERSION, word_of_nat (length (ev_keyId e))] @ ident @ ev_wrapIv e @ ev_wrapTag e
    @ ev_wrappedKey e @ ev_iv e @ ev_tag e @ ev_ciphertext e) = Inr e"
proof -
  have "unat (word_of_nat (length (ev_keyId e)) :: byte) = length (ev_keyId e)" "ev_keyId e \<noteq> []"
    using ok by (auto simp: envelope_ok_def ident_ok_def unat_small)
  then show ?thesis
    using ok ident by (simp add: decodeEnvelope_def layout_sizes envelope_ok_def Let_def)
qed

lemma encode_ok:
  "envelope_ok e \<Longrightarrow> encodeEnvelope e = Inr ([word_of_nat ENVELOPE_FORMAT_VERSION, word_of_nat (length (ev_keyId e))] @ from_ascii (ev_keyId e)
     @ ev_wrapIv e @ ev_wrapTag e @ ev_wrappedKey e @ ev_iv e @ ev_tag e @ ev_ciphertext e)"
  by (auto simp: encodeEnvelope_def envelope_ok_def ident_ok_def Let_def simp flip: length_0_conv)

lemma layout_round_trip:
  assumes "envelope_ok e" "encodeEnvelope e = Inr stored"
  shows "decodeEnvelope stored = Inr e"
proof -
  have "to_ascii (from_ascii (ev_keyId e)) = ev_keyId e"
    using assms(1) by (intro ascii_back) (simp add: envelope_ok_def ident_ok_def)
  then show ?thesis
    using decode_layout [OF assms(1), of "from_ascii (ev_keyId e)"] encode_ok [OF assms(1)] assms(2) by simp
qed

lemma decoded_lengths:
  assumes "decodeEnvelope stored = Inr e"
  shows "length (ev_wrapIv e) = 12" "length (ev_wrapTag e) = 16" "length (ev_wrappedKey e) = 32" "length (ev_iv e) = 12" "length (ev_tag e) = 16"
  using assms by (auto simp: decodeEnvelope_def layout_sizes Let_def split: if_splits)

section \<open>The ring\<close>

definition ring_ok :: "keyring \<Rightarrow> bool" where
  "ring_ok ring \<longleftrightarrow> (\<forall>k e. js_get (kr_byId ring) k = Some e \<longrightarrow> ke_id e = k \<and> ident_ok k \<and> length (ke_key e) = 32)
     \<and> js_get (kr_byId ring) (ke_id (kr_active ring)) = Some (kr_active ring)"

lemma pattern_ident: "KEY_ID_PATTERN s \<Longrightarrow> ident_ok s"
  by (auto simp: KEY_ID_PATTERN_def ident_ok_def list_all_iff is_digit_def code_def)

lemma parse_entries_ok:
  "parse_entries b64 n parts = Inr es \<Longrightarrow> e \<in> set es \<Longrightarrow> ident_ok (ke_id e) \<and> length (ke_key e) = 32"
proof (induction b64 n parts arbitrary: es rule: parse_entries.induct)
  case (2 b64 n part rest)
  then obtain e0 es0 where es: "parseEntry b64 part n = Inr e0" "parse_entries b64 (n + 1) rest = Inr es0" "es = e0 # es0"
    by (auto split: sum.splits simp: map_sum_def)
  have "ident_ok (ke_id e0) \<and> length (ke_key e0) = 32"
    using es(1) pattern_ident by (auto simp: parseEntry_def KEY_BYTES_def Let_def split: option.splits if_splits)
  then show ?case
    using 2 es by auto
qed simp

lemma add_entries_ok:
  "add_entries es m = Inr byId \<Longrightarrow> js_get byId k = Some e \<Longrightarrow> js_get m k = Some e \<or> e \<in> set es \<and> ke_id e = k"
  by (induction es m rule: add_entries.induct) (auto split: if_splits)

text \<open>A ring that has been read holds keys of the right length under their own ids, the active one among them.\<close>

lemma parseKeyring_ok:
  assumes "parseKeyring b64 spec activeKeyId = Inr ring"
  shows "ring_ok ring \<and> ke_id (kr_active ring) = activeKeyId"
proof -
  obtain es byId a where es: "parse_entries b64 0 (filter (\<lambda>part. 0 < length part) (map trim (split_on (CHR '','') spec))) = Inr es"
    "add_entries es [] = Inr byId" "js_get byId activeKeyId = Some a" "ring = \<lparr>kr_active = a, kr_byId = byId, kr_ids = map ke_id es\<rparr>"
    using assms by (auto simp: parseKeyring_def split: sum.splits option.splits if_splits)
  have held: "ke_id e = k \<and> ident_ok k \<and> length (ke_key e) = 32" if "js_get byId k = Some e" for k e
    using add_entries_ok [OF es(2) that] parse_entries_ok [OF es(1)] by auto
  then show ?thesis
    using es(3,4) held [OF es(3)] by (simp add: ring_ok_def)
qed

section \<open>Contexts\<close>

lemma check_part_none: "check_part name v = None \<longleftrightarrow> v \<noteq> [] \<and> NUL \<notin> set v"
  by (simp add: check_part_def)

lemma context_parts:
  "encodeFieldContext c = Inr aad \<Longrightarrow> aad = from_utf8 (join [NUL] [fc_table c, fc_column c, fc_id c])
     \<and> NUL \<notin> set (fc_table c) \<and> NUL \<notin> set (fc_column c) \<and> NUL \<notin> set (fc_id c)"
  using check_part_none by (auto simp: encodeFieldContext_def split: option.splits)

lemma context_injective:
  assumes "encodeFieldContext c = Inr aad" "encodeFieldContext c' = Inr aad"
  shows "c = c'"
proof -
  have "join [NUL] [fc_table c, fc_column c, fc_id c] = join [NUL] [fc_table c', fc_column c', fc_id c']"
    using context_parts [OF assms(1)] context_parts [OF assms(2)] from_utf8_inj by blast
  then have "[fc_table c, fc_column c, fc_id c] = [fc_table c', fc_column c', fc_id c']"
    using context_parts [OF assms(1)] context_parts [OF assms(2)] by (intro join_inject [where c = NUL]) auto
  then show ?thesis
    by simp
qed

section \<open>Round trips\<close>

text \<open>
  What the cipher relies on of AES-256-GCM: opening what was sealed with the same key, nonce and additional data
  gives it back, the ciphertext is as long as the plaintext, and the tag has 16 bytes; and, for authenticity, that
  what was sealed with some additional data does not open with other data.
\<close>

definition gcm_ok :: "gcm \<Rightarrow> bool" where
  "gcm_ok g \<longleftrightarrow> (\<forall>k iv aad p. gcm_open g k iv aad (fst (gcm_seal g k iv aad p)) (snd (gcm_seal g k iv aad p)) = Some p
     \<and> length (fst (gcm_seal g k iv aad p)) = length p \<and> length (snd (gcm_seal g k iv aad p)) = 16)"

definition gcm_rejects :: "gcm \<Rightarrow> byte list \<Rightarrow> byte list \<Rightarrow> byte list \<Rightarrow> bool" where
  "gcm_rejects g k aad aad' \<longleftrightarrow> (aad \<noteq> aad' \<longrightarrow>
     (\<forall>iv p. gcm_open g k iv aad' (fst (gcm_seal g k iv aad p)) (snd (gcm_seal g k iv aad p)) = None))"

text \<open>A ring that still holds the key another ring writes with.\<close>

definition holds_key :: "keyring \<Rightarrow> keyring_entry \<Rightarrow> bool" where
  "holds_key ring k \<longleftrightarrow> map_option ke_key (find_key ring (ke_id k)) = Some (ke_key k)"

lemma gcm_opens: "gcm_ok g \<Longrightarrow> gcm_seal g k iv aad p = (ct, tag) \<Longrightarrow> gcm_open g k iv aad ct tag = Some p \<and> length ct = length p \<and> length tag = 16"
  by (metis gcm_ok_def fst_conv snd_conv)

lemma ring_holds_active: "ring_ok ring \<Longrightarrow> holds_key ring (kr_active ring)"
  by (simp add: ring_ok_def holds_key_def find_key_def)

lemma wrapped_parts [simp]:
  "ev_keyId (wrapDataKey g ring wrapIv dk aad iv tag ct) = ke_id (kr_active ring)"
  "ev_iv (wrapDataKey g ring wrapIv dk aad iv tag ct) = iv"
  "ev_tag (wrapDataKey g ring wrapIv dk aad iv tag ct) = tag"
  "ev_ciphertext (wrapDataKey g ring wrapIv dk aad iv tag ct) = ct"
  by (simp_all add: wrapDataKey_def split: prod.splits)

lemma wrapped_ok:
  assumes "gcm_ok g" "ring_ok ring" "length wrapIv = 12" "length dk = 32" "length iv = 12" "length tag = 16"
  shows "envelope_ok (wrapDataKey g ring wrapIv dk aad iv tag ct)"
proof -
  have "ident_ok (ke_id (kr_active ring))"
    using assms(2) unfolding ring_ok_def by blast
  then show ?thesis
    using assms gcm_opens [OF assms(1)] by (auto simp: wrapDataKey_def envelope_ok_def split: prod.splits)
qed

lemma unwrap_wrapped:
  assumes "gcm_ok g" "length dk = 32" "holds_key ring2 (kr_active ring)"
  shows "unwrapDataKey g ring2 (wrapDataKey g ring wrapIv dk aad iv tag ct) aad = Inr dk"
proof -
  obtain k where "find_key ring2 (ke_id (kr_active ring)) = Some k" "ke_key k = ke_key (kr_active ring)"
    using assms(3) by (auto simp: holds_key_def)
  then show ?thesis
    using assms(2) gcm_opens [OF assms(1)] by (auto simp: unwrapDataKey_def wrapDataKey_def DATA_KEY_BYTES_def split: prod.splits option.splits)
qed

text \<open>What is stored once the data key is wrapped, and how it reads back with any ring that holds the key.\<close>

lemma stored_reads_back:
  assumes g: "gcm_ok g" and ring: "ring_ok ring" and lens: "length wrapIv = 12" "length dk = 32" "length iv = 12" "length tag = 16"
    and c: "encodeFieldContext c = Inr aad" and payload: "gcm_open g dk iv (payloadAad aad) ct tag = Some p"
  obtains stored where "encodeEnvelope (wrapDataKey g ring wrapIv dk aad iv tag ct) = Inr stored"
    "decodeEnvelope stored = Inr (wrapDataKey g ring wrapIv dk aad iv tag ct)"
    "\<And>ring2. holds_key ring2 (kr_active ring) \<Longrightarrow> decryptField g ring2 stored c = Inr p"
    "needsRewrap ring stored = Inr False"
proof -
  have ok: "envelope_ok (wrapDataKey g ring wrapIv dk aad iv tag ct)"
    by (rule wrapped_ok [OF g ring lens])
  then obtain stored where enc: "encodeEnvelope (wrapDataKey g ring wrapIv dk aad iv tag ct) = Inr stored"
    using encode_ok by blast
  have dec: "decodeEnvelope stored = Inr (wrapDataKey g ring wrapIv dk aad iv tag ct)"
    by (rule layout_round_trip [OF ok enc])
  have "decryptField g ring2 stored c = Inr p" if "holds_key ring2 (kr_active ring)" for ring2
    using unwrap_wrapped [OF g lens(2) that] dec c payload by (simp add: decryptField_def)
  then show thesis
    using that enc dec by (simp add: needsRewrap_def)
qed

lemma encrypt_stores:
  assumes "gcm_ok g" "ring_ok ring" "length dk = 32" "length iv = 12" "length wrapIv = 12" "encodeFieldContext c = Inr aad"
  obtains stored tag ct where "encrypt g ring dk iv wrapIv p c = Inr stored"
    "decodeEnvelope stored = Inr (wrapDataKey g ring wrapIv dk aad iv tag ct)"
    "\<And>ring2. holds_key ring2 (kr_active ring) \<Longrightarrow> decryptField g ring2 stored c = Inr p"
    "needsRewrap ring stored = Inr False"
proof -
  obtain ct tag where s: "gcm_seal g dk iv (payloadAad aad) p = (ct, tag)"
    by fastforce
  then have o: "gcm_open g dk iv (payloadAad aad) ct tag = Some p" "length tag = 16"
    using gcm_opens [OF assms(1) s] by simp_all
  show thesis
  proof (rule stored_reads_back [OF assms(1,2,5,3,4) o(2) assms(6) o(1)])
    fix stored
    assume "encodeEnvelope (wrapDataKey g ring wrapIv dk aad iv tag ct) = Inr stored"
      "decodeEnvelope stored = Inr (wrapDataKey g ring wrapIv dk aad iv tag ct)"
      "\<And>ring2. holds_key ring2 (kr_active ring) \<Longrightarrow> decryptField g ring2 stored c = Inr p" "needsRewrap ring stored = Inr False"
    then show thesis
      using that [of stored ct tag] s assms(6) that by (simp add: encrypt_def)
  qed
qed

text \<open>
  C29: a value encrypted for a place decrypts there to itself, with every ring that holds the key it was written
  under, whichever key that ring now writes with; and the ring that wrote it does not ask for it to be rewrapped.
\<close>

theorem encrypted_field_round_trip:
  assumes "gcm_ok g" "ring_ok ring" "length dk = 32" "length iv = 12" "length wrapIv = 12"
    and "encodeFieldContext c = Inr aad" "holds_key ring2 (kr_active ring)"
  shows "\<exists>stored. encrypt g ring dk iv wrapIv p c = Inr stored \<and> decryptField g ring2 stored c = Inr p
    \<and> needsRewrap ring stored = Inr False"
  using encrypt_stores [OF assms(1-6)] assms(7) by metis

lemma decrypt_parts:
  assumes "decryptField g ring stored c = Inr p"
  obtains aad e dk where "encodeFieldContext c = Inr aad" "decodeEnvelope stored = Inr e" "unwrapDataKey g ring e aad = Inr dk"
    "length dk = 32" "gcm_open g dk (ev_iv e) (payloadAad aad) (ev_ciphertext e) (ev_tag e) = Some p"
proof -
  obtain aad e dk where *: "encodeFieldContext c = Inr aad" "decodeEnvelope stored = Inr e" "unwrapDataKey g ring e aad = Inr dk"
    "gcm_open g dk (ev_iv e) (payloadAad aad) (ev_ciphertext e) (ev_tag e) = Some p"
    using assms by (auto simp: decryptField_def split: sum.splits option.splits)
  then have "length dk = 32"
    by (auto simp: unwrapDataKey_def DATA_KEY_BYTES_def split: option.splits if_splits)
  then show thesis
    using that * by blast
qed

text \<open>
  C21: rewrapping a value that can be read always succeeds, and leaves its payload alone: nonce, tag and ciphertext
  are the bytes that were stored. The result no longer needs rewrapping, and reads as the same value with any ring
  that holds the active key, even one from which the key it was written under has been retired.
\<close>

theorem rewrap_moves_to_the_active_key:
  assumes "gcm_ok g" "ring_ok ring" "length wrapIv = 12" "decryptField g ring stored c = Inr p"
  shows "\<exists>stored' e e'. rewrap g ring wrapIv stored c = Inr stored'
    \<and> decodeEnvelope stored = Inr e \<and> decodeEnvelope stored' = Inr e'
    \<and> (ev_iv e', ev_tag e', ev_ciphertext e') = (ev_iv e, ev_tag e, ev_ciphertext e)
    \<and> needsRewrap ring stored' = Inr False
    \<and> (\<forall>ring2. holds_key ring2 (kr_active ring) \<longrightarrow> decryptField g ring2 stored' c = Inr p)"
proof -
  from assms(4) obtain aad e dk where parts: "encodeFieldContext c = Inr aad" "decodeEnvelope stored = Inr e"
    "unwrapDataKey g ring e aad = Inr dk" "length dk = 32" "gcm_open g dk (ev_iv e) (payloadAad aad) (ev_ciphertext e) (ev_tag e) = Some p"
    by (rule decrypt_parts)
  obtain stored' where s: "encodeEnvelope (wrapDataKey g ring wrapIv dk aad (ev_iv e) (ev_tag e) (ev_ciphertext e)) = Inr stored'"
    "decodeEnvelope stored' = Inr (wrapDataKey g ring wrapIv dk aad (ev_iv e) (ev_tag e) (ev_ciphertext e))"
    "\<And>ring2. holds_key ring2 (kr_active ring) \<Longrightarrow> decryptField g ring2 stored' c = Inr p" "needsRewrap ring stored' = Inr False"
    using stored_reads_back [OF assms(1-3) parts(4) decoded_lengths(4) [OF parts(2)] decoded_lengths(5) [OF parts(2)] parts(1,5)]
    by metis
  have "rewrap g ring wrapIv stored c = Inr stored'"
    using parts s(1) by (simp add: rewrap_def)
  then show ?thesis
    using parts(2) s by auto
qed

text \<open>
  C20: a value copied to another table, column or row does not decrypt there, provided that GCM refuses
  additional data other than what the data key was wrapped with: distinct places give distinct data.
\<close>

theorem moved_field_is_refused:
  assumes "gcm_ok g" "ring_ok ring" "length dk = 32" "length iv = 12" "length wrapIv = 12"
    and "encodeFieldContext c = Inr aad" "encodeFieldContext c' = Inr aad'" "c' \<noteq> c"
    and "gcm_rejects g (ke_key (kr_active ring)) (wrapAad (ke_id (kr_active ring)) aad) (wrapAad (ke_id (kr_active ring)) aad')"
    and "encrypt g ring dk iv wrapIv p c = Inr stored" "holds_key ring2 (kr_active ring)"
  shows "decryptField g ring2 stored c' = Inl WrapAuthentication"
proof -
  obtain tag ct where dec: "decodeEnvelope stored = Inr (wrapDataKey g ring wrapIv dk aad iv tag ct)"
    using encrypt_stores [OF assms(1-6), of p] assms(10) by (metis sum.inject(2))
  have "aad \<noteq> aad'"
    using context_injective [OF assms(7)] assms(6,8) by blast
  then have "wrapAad (ke_id (kr_active ring)) aad \<noteq> wrapAad (ke_id (kr_active ring)) aad'"
    by (simp add: wrapAad_def)
  moreover obtain k where "find_key ring2 (ke_id (kr_active ring)) = Some k" "ke_key k = ke_key (kr_active ring)"
    using assms(11) by (auto simp: holds_key_def)
  ultimately have "unwrapDataKey g ring2 (wrapDataKey g ring wrapIv dk aad iv tag ct) aad' = Inl WrapAuthentication"
    using assms(9) by (auto simp: unwrapDataKey_def wrapDataKey_def gcm_rejects_def split: prod.splits option.splits)
      (metis fst_conv snd_conv option.distinct(1))+
  then show ?thesis
    using assms(7) dec by (simp add: decryptField_def)
qed

section \<open>The bit of the key id that decoding drops\<close>

lemma high_bit_dropped: "unat (b + 128 :: byte) mod 128 = unat b mod 128"
proof -
  have "unat (b + 128 :: byte) = (unat b + 128) mod 256"
    by (simp add: unat_word_ariths)
  then show ?thesis
    by (simp add: mod_mod_cancel)
qed

lemma map_update_same: "f x = f (xs ! i) \<Longrightarrow> map f (xs[i := x]) = map f xs"
  by (metis list_update_id map_update)

lemma to_ascii_high_bit: "to_ascii (bs[i := bs ! i + 128]) = to_ascii bs"
  unfolding to_ascii_def by (rule map_update_same) (simp add: high_bit_dropped)

lemma decode_ignores_high_bits:
  assumes "2 \<le> i" "i < 2 + unat (stored ! 1)" "i < length stored"
  shows "decodeEnvelope (stored[i := stored ! i + 128]) = decodeEnvelope stored"
proof -
  define n where "n = unat (stored ! 1)"
  obtain j where j: "i = j + 2"
    using assms(1) by (metis add.commute le_Suc_ex)
  have ident: "to_ascii (take n (drop 2 (stored[i := stored ! i + 128]))) = to_ascii (take n (drop 2 stored))"
    using assms j to_ascii_high_bit [of "take n (drop 2 stored)" j] by (simp add: n_def drop_update_swap take_update_swap)
  show ?thesis
    using assms ident by (simp add: decodeEnvelope_def layout_sizes Let_def n_def)
qed

text \<open>
  The key id in the header is not authenticated to the bit. Turning the highest bit of any byte of it gives
  other bytes, which every operation takes for the value that was stored.
\<close>

lemma key_id_high_bit_is_ignored:
  assumes "2 \<le> i" "i < 2 + unat (stored ! 1)" "i < length stored"
  shows "stored[i := stored ! i + 128] \<noteq> stored
    \<and> decryptField g ring (stored[i := stored ! i + 128]) c = decryptField g ring stored c
    \<and> rewrap g ring wrapIv (stored[i := stored ! i + 128]) c = rewrap g ring wrapIv stored c
    \<and> needsRewrap ring (stored[i := stored ! i + 128]) = needsRewrap ring stored"
proof -
  have "stored[i := stored ! i + 128] ! i \<noteq> stored ! i"
    using assms(3) by simp
  then have "stored[i := stored ! i + 128] \<noteq> stored"
    by metis
  then show ?thesis
    unfolding decryptField_def rewrap_def needsRewrap_def decode_ignores_high_bits [OF assms] by simp
qed

section \<open>Witnesses\<close>

text \<open>
  A stand-in for GCM that leaves the text as it is and whose tag holds the length and the sums of key, nonce and
  additional data.
\<close>

definition demo_tag :: "byte list \<Rightarrow> byte list \<Rightarrow> byte list \<Rightarrow> byte list \<Rightarrow> byte list" where
  "demo_tag k iv aad p = [sum_list k, sum_list iv, sum_list aad, sum_list p] @ replicate 12 0"

definition demo_gcm :: gcm where
  "demo_gcm = \<lparr>gcm_seal = \<lambda>k iv aad p. (p, demo_tag k iv aad p),
     gcm_open = \<lambda>k iv aad ct tag. if tag = demo_tag k iv aad ct then Some ct else None\<rparr>"

definition demo_key :: "string \<Rightarrow> byte \<Rightarrow> keyring_entry" where
  "demo_key k b = \<lparr>ke_id = k, ke_key = replicate 32 b\<rparr>"

definition demo_ring :: "keyring_entry \<Rightarrow> keyring_entry list \<Rightarrow> keyring" where
  "demo_ring a es = \<lparr>kr_active = a, kr_byId = map (\<lambda>e. (ke_id e, e)) es, kr_ids = map ke_id es\<rparr>"

definition demo_k1 :: keyring_entry where "demo_k1 = demo_key ''k1'' 3"

definition demo_k2 :: keyring_entry where "demo_k2 = demo_key ''k2'' 5"

definition demo_place :: "string \<Rightarrow> field_context" where
  "demo_place i = \<lparr>fc_table = ''users'', fc_column = ''phone'', fc_id = i\<rparr>"

lemma demo_gcm_ok: "gcm_ok demo_gcm"
  by (simp add: gcm_ok_def demo_gcm_def demo_tag_def)

lemma demo_rings_ok: "ring_ok (demo_ring demo_k1 [demo_k1])" "ring_ok (demo_ring demo_k2 [demo_k1, demo_k2])"
  by (auto simp: ring_ok_def demo_ring_def demo_k1_def demo_k2_def demo_key_def ident_ok_def code_def split: if_splits)

lemma demo_holds: "holds_key (demo_ring demo_k2 [demo_k1, demo_k2]) demo_k1" "holds_key (demo_ring demo_k2 [demo_k2]) demo_k2"
  by code_simp+

theorem encrypted_field_round_trip_witness:
  "\<exists>stored. encrypt demo_gcm (demo_ring demo_k1 [demo_k1]) (replicate 32 7) (replicate 12 8) (replicate 12 9) [1, 2, 3] (demo_place ''42'') = Inr stored
    \<and> decryptField demo_gcm (demo_ring demo_k2 [demo_k1, demo_k2]) stored (demo_place ''42'') = Inr [1, 2, 3]
    \<and> needsRewrap (demo_ring demo_k1 [demo_k1]) stored = Inr False"
proof -
  have "encodeFieldContext (demo_place ''42'') = Inr (from_utf8 (''users'' @ [NUL] @ ''phone'' @ [NUL] @ ''42''))"
    by code_simp
  then show ?thesis
    using encrypted_field_round_trip [OF demo_gcm_ok demo_rings_ok(1), of "replicate 32 7" "replicate 12 8" "replicate 12 9"
        "demo_place ''42''" _ "demo_ring demo_k2 [demo_k1, demo_k2]" "[1, 2, 3]"] demo_holds(1)
    by (simp add: demo_ring_def)
qed

text \<open>A value that the first key wrote, as it is stored.\<close>

definition demo_stored :: "byte list" where
  "demo_stored = [1, 2, 107, 49] @ replicate 12 9 @ demo_tag (replicate 32 3) (replicate 12 9) (wrapAad ''k1'' (from_utf8 (join [NUL] [''users'', ''phone'', ''42'']))) (replicate 32 7)
     @ replicate 32 7 @ replicate 12 8 @ demo_tag (replicate 32 7) (replicate 12 8) (payloadAad (from_utf8 (join [NUL] [''users'', ''phone'', ''42'']))) [1, 2, 3] @ [1, 2, 3]"

lemma demo_encrypt:
  "encrypt demo_gcm (demo_ring demo_k1 [demo_k1]) (replicate 32 7) (replicate 12 8) (replicate 12 9) [1, 2, 3] (demo_place ''42'') = Inr demo_stored"
  by code_simp

lemma demo_decrypt: "decryptField demo_gcm (demo_ring demo_k2 [demo_k1, demo_k2]) demo_stored (demo_place ''42'') = Inr [1, 2, 3]"
  by code_simp

theorem rewrap_moves_to_the_active_key_witness:
  "\<exists>stored'. rewrap demo_gcm (demo_ring demo_k2 [demo_k1, demo_k2]) (replicate 12 4) demo_stored (demo_place ''42'') = Inr stored'
    \<and> decryptField demo_gcm (demo_ring demo_k2 [demo_k2]) stored' (demo_place ''42'') = Inr [1, 2, 3]"
proof -
  have "holds_key (demo_ring demo_k2 [demo_k2]) (kr_active (demo_ring demo_k2 [demo_k1, demo_k2]))"
    by code_simp
  then show ?thesis
    using rewrap_moves_to_the_active_key [OF demo_gcm_ok demo_rings_ok(2) _ demo_decrypt, of "replicate 12 4"] by auto
qed

theorem moved_field_is_refused_witness:
  "decryptField demo_gcm (demo_ring demo_k2 [demo_k1, demo_k2]) demo_stored (demo_place ''43'') = Inl WrapAuthentication"
proof -
  define aad where "aad = from_utf8 (join [NUL] [''users'', ''phone'', ''42''])"
  define aad' where "aad' = from_utf8 (join [NUL] [''users'', ''phone'', ''43''])"
  have c: "encodeFieldContext (demo_place ''42'') = Inr aad" "encodeFieldContext (demo_place ''43'') = Inr aad'"
    unfolding aad_def aad'_def by code_simp+
  have "sum_list (wrapAad ''k1'' aad) \<noteq> sum_list (wrapAad ''k1'' aad')"
    unfolding aad_def aad'_def by code_simp
  then have "gcm_rejects demo_gcm (ke_key (kr_active (demo_ring demo_k1 [demo_k1])))
      (wrapAad (ke_id (kr_active (demo_ring demo_k1 [demo_k1]))) aad) (wrapAad (ke_id (kr_active (demo_ring demo_k1 [demo_k1]))) aad')"
    by (simp add: gcm_rejects_def demo_gcm_def demo_tag_def demo_ring_def demo_k1_def demo_key_def)
  then show ?thesis
    using moved_field_is_refused [OF demo_gcm_ok demo_rings_ok(1) _ _ _ c _ _ demo_encrypt, of "demo_ring demo_k2 [demo_k1, demo_k2]"] demo_holds(1)
    by (simp add: demo_place_def demo_ring_def)
qed

end
