(* ===== verification/Response_Cache.thy ===== *)
theory Response_Cache
  imports Js_String Backoff
begin

text \<open>
  The decorators of a route (\<open>src/lib/route-decorators\<close>): the store of cached answers, least recently used
  first (\<open>cache-store.ts\<close>), the decorator that answers from it and shares runs in progress (\<open>with-cache.ts\<close>),
  and the one that repeats a failed operation (\<open>with-retry.ts\<close>). A call is cut at its awaits.
\<close>

section \<open>The store in memory\<close>

record 'v stored_entry =
  se_value :: 'v
  se_expiresAt :: int

record 'v memory_cache =
  mc_entries :: "(string, 'v stored_entry) js_map"
  mc_maxEntries :: nat

definition new_MemoryCacheStore :: "int \<Rightarrow> string + 'v memory_cache" where
  "new_MemoryCacheStore maxEntries =
     (if maxEntries < 1 then Inl ''MemoryCacheStore: maxEntries must be an integer >= 1''
      else Inr \<lparr>mc_entries = [], mc_maxEntries = nat maxEntries\<rparr>)"

definition live_size :: "int \<Rightarrow> 'v memory_cache \<Rightarrow> nat" where
  "live_size now s = length (filter (\<lambda>(k, e). now < se_expiresAt e) (mc_entries s))"

definition cache_get :: "string \<Rightarrow> int \<Rightarrow> 'v memory_cache \<Rightarrow> 'v memory_cache \<times> 'v option" where
  "cache_get key now s =
     (case js_get (mc_entries s) key of
        None \<Rightarrow> (s, None)
      | Some e \<Rightarrow>
          if se_expiresAt e \<le> now then (s\<lparr>mc_entries := js_delete key (mc_entries s)\<rparr>, None)
          else (s\<lparr>mc_entries := js_set key e (js_delete key (mc_entries s))\<rparr>, Some (se_value e)))"

text \<open>The first loop of \<open>evictIfNeeded\<close> visits the entries in order and drops expired ones while there are too many.\<close>

fun evict_expired :: "nat \<Rightarrow> int \<Rightarrow> (string, 'v stored_entry) js_map \<Rightarrow> (string, 'v stored_entry) js_map \<Rightarrow> (string, 'v stored_entry) js_map" where
  "evict_expired maxEntries now [] m = m"
| "evict_expired maxEntries now ((key, e) # rest) m =
     (if length m \<le> maxEntries then m
      else evict_expired maxEntries now rest (if se_expiresAt e \<le> now then js_delete key m else m))"

text \<open>The second takes the oldest until few enough are left.\<close>

function evict_oldest :: "nat \<Rightarrow> (string, 'v stored_entry) js_map \<Rightarrow> (string, 'v stored_entry) js_map" where
  "evict_oldest maxEntries [] = []"
| "evict_oldest maxEntries ((key, e) # rest) =
     (if maxEntries < length ((key, e) # rest) then evict_oldest maxEntries (js_delete key ((key, e) # rest))
      else (key, e) # rest)"
  by pat_completeness auto

termination
  by (relation "measure (\<lambda>(mx, m). length m)") (simp_all add: AList.length_delete_le le_imp_less_Suc)

definition evictIfNeeded :: "int \<Rightarrow> 'v memory_cache \<Rightarrow> 'v memory_cache" where
  "evictIfNeeded now s =
     (if length (mc_entries s) \<le> mc_maxEntries s then s
      else s\<lparr>mc_entries := evict_oldest (mc_maxEntries s) (evict_expired (mc_maxEntries s) now (mc_entries s) (mc_entries s))\<rparr>)"

text \<open>\<open>None\<close> is the \<open>RangeError\<close>.\<close>

definition cache_set :: "string \<Rightarrow> 'v \<Rightarrow> int \<Rightarrow> int \<Rightarrow> 'v memory_cache \<Rightarrow> 'v memory_cache option" where
  "cache_set key v ttlMs now s =
     (if ttlMs \<le> 0 then None
      else Some (evictIfNeeded now
        (s\<lparr>mc_entries := js_set key \<lparr>se_value = v, se_expiresAt = now + ttlMs\<rparr> (js_delete key (mc_entries s))\<rparr>)))"

definition cache_delete :: "string \<Rightarrow> 'v memory_cache \<Rightarrow> 'v memory_cache" where
  "cache_delete key s = s\<lparr>mc_entries := js_delete key (mc_entries s)\<rparr>"

definition cache_clear :: "'v memory_cache \<Rightarrow> 'v memory_cache" where
  "cache_clear s = s\<lparr>mc_entries := []\<rparr>"

text \<open>The interface \<open>CacheStore\<close>.\<close>

record ('s, 'v) cache_ops =
  op_get :: "string \<Rightarrow> int \<Rightarrow> 's \<Rightarrow> 's \<times> 'v option"
  op_set :: "string \<Rightarrow> 'v \<Rightarrow> int \<Rightarrow> int \<Rightarrow> 's \<Rightarrow> 's option"
  op_delete :: "string \<Rightarrow> 's \<Rightarrow> 's"
  op_clear :: "'s \<Rightarrow> 's"

definition memory_ops :: "('v memory_cache, 'v) cache_ops" where
  "memory_ops = \<lparr>op_get = cache_get, op_set = cache_set, op_delete = cache_delete, op_clear = cache_clear\<rparr>"

section \<open>The caching decorator\<close>

datatype cache_outcome = Hit | Miss | Coalesced | Bypass

record route_request =
  rq_userId :: "string option"
  rq_method :: string
  rq_originalUrl :: string

definition CACHEABLE_METHODS :: "string list" where
  "CACHEABLE_METHODS = [''GET'', ''HEAD'']"

definition principal :: "route_request \<Rightarrow> string" where
  "principal req = (case rq_userId req of None \<Rightarrow> ''anonymous'' | Some u \<Rightarrow> u)"

definition defaultCacheKey :: "route_request \<Rightarrow> string" where
  "defaultCacheKey req =
     principal req @ '':'' @ toUpperCase (rq_method req) @ '':'' @ rq_originalUrl req"

record cache_options =
  ca_ttlMs :: int
  ca_namespace :: string
  ca_key :: "route_request \<Rightarrow> string"

definition withCache_options :: "cache_options \<Rightarrow> string + cache_options" where
  "withCache_options opts =
     (if ca_ttlMs opts \<le> 0 then Inl ''withCache: ttlMs must be a finite positive number'' else Inr opts)"

definition cacheKey :: "cache_options \<Rightarrow> route_request \<Rightarrow> string" where
  "cacheKey opts req = ca_namespace opts @ '':'' @ ca_key opts req"

text \<open>
  Where a call is: it awaits what the store has answered (\<open>Looked\<close>), its own run of the operation
  (\<open>Running\<close>), \<open>store.set\<close> after it (\<open>Storing\<close>), \<open>finally\<close> after a failure (\<open>Failing\<close>), the run of another call
  (\<open>Joined\<close>), or the operation without the cache (\<open>Passing\<close>).
\<close>

datatype 'e cache_failure = OperationFailed 'e | StoreFailed

datatype ('v, 'e) call_stage =
    Looked "'v option"
  | Running
  | Storing 'v
  | Failing "'e cache_failure"
  | Joined nat
  | Passing
  | Answered "'e cache_failure + 'v"

record ('v, 'e) cached_call =
  cl_request :: route_request
  cl_meta :: "cache_outcome option"
  cl_stage :: "('v, 'e) call_stage"

record ('s, 'v, 'e) route_cache =
  rc_store :: 's
  rc_inFlight :: "(string, nat) js_map"
  rc_calls :: "(nat, ('v, 'e) cached_call) js_map"

definition put_call :: "nat \<Rightarrow> ('v, 'e) cached_call \<Rightarrow> ('s, 'v, 'e) route_cache \<Rightarrow> ('s, 'v, 'e) route_cache" where
  "put_call c cl st = st\<lparr>rc_calls := js_set c cl (rc_calls st)\<rparr>"

text \<open>A request up to its first await: the operation itself, or \<open>store.get\<close>.\<close>

definition arrive :: "('s, 'v) cache_ops \<Rightarrow> cache_options \<Rightarrow> nat \<Rightarrow> route_request \<Rightarrow> int \<Rightarrow> ('s, 'v, 'e) route_cache \<Rightarrow> ('s, 'v, 'e) route_cache" where
  "arrive ops opts c req now st =
     (if js_has (rc_calls st) c then st
      else if toUpperCase (rq_method req) \<notin> set CACHEABLE_METHODS
      then put_call c \<lparr>cl_request = req, cl_meta = Some Bypass, cl_stage = Passing\<rparr> st
      else (case op_get ops (cacheKey opts req) now (rc_store st) of
              (s, hit) \<Rightarrow> put_call c \<lparr>cl_request = req, cl_meta = None, cl_stage = Looked hit\<rparr> (st\<lparr>rc_store := s\<rparr>)))"

text \<open>After \<open>store.get\<close>: the hit, the run in progress for the key, or a run of its own.\<close>

definition looked_up :: "cache_options \<Rightarrow> nat \<Rightarrow> ('v, 'e) cached_call \<Rightarrow> 'v option \<Rightarrow> ('s, 'v, 'e) route_cache \<Rightarrow> ('s, 'v, 'e) route_cache" where
  "looked_up opts c cl hit st =
     (case hit of
        Some v \<Rightarrow> put_call c (cl\<lparr>cl_meta := Some Hit, cl_stage := Answered (Inr v)\<rparr>) st
      | None \<Rightarrow>
          (case js_get (rc_inFlight st) (cacheKey opts (cl_request cl)) of
             Some w \<Rightarrow> put_call c (cl\<lparr>cl_meta := Some Coalesced, cl_stage := Joined w\<rparr>) st
           | None \<Rightarrow> put_call c (cl\<lparr>cl_meta := Some Miss, cl_stage := Running\<rparr>)
               (st\<lparr>rc_inFlight := js_set (cacheKey opts (cl_request cl)) c (rc_inFlight st)\<rparr>)))"

text \<open>The operation of a call settles: a result is stored, a failure goes to \<open>finally\<close>.\<close>

definition operation_settled :: "('s, 'v) cache_ops \<Rightarrow> cache_options \<Rightarrow> nat \<Rightarrow> ('v, 'e) cached_call \<Rightarrow> 'e + 'v \<Rightarrow> int \<Rightarrow> ('s, 'v, 'e) route_cache \<Rightarrow> ('s, 'v, 'e) route_cache" where
  "operation_settled ops opts c cl result now st =
     (case cl_stage cl of
        Passing \<Rightarrow> put_call c (cl\<lparr>cl_stage := Answered (map_sum OperationFailed id result)\<rparr>) st
      | Running \<Rightarrow>
          (case result of
             Inl err \<Rightarrow> put_call c (cl\<lparr>cl_stage := Failing (OperationFailed err)\<rparr>) st
           | Inr v \<Rightarrow>
               (case op_set ops (cacheKey opts (cl_request cl)) v (ca_ttlMs opts) now (rc_store st) of
                  None \<Rightarrow> put_call c (cl\<lparr>cl_stage := Failing StoreFailed\<rparr>) st
                | Some s \<Rightarrow> put_call c (cl\<lparr>cl_stage := Storing v\<rparr>) (st\<lparr>rc_store := s\<rparr>)))
      | _ \<Rightarrow> st)"

text \<open>\<open>finally\<close> forgets the run and settles it.\<close>

definition finish_run :: "cache_options \<Rightarrow> nat \<Rightarrow> ('v, 'e) cached_call \<Rightarrow> 'e cache_failure + 'v \<Rightarrow> ('s, 'v, 'e) route_cache \<Rightarrow> ('s, 'v, 'e) route_cache" where
  "finish_run opts c cl result st =
     put_call c (cl\<lparr>cl_stage := Answered result\<rparr>) (st\<lparr>rc_inFlight := js_delete (cacheKey opts (cl_request cl)) (rc_inFlight st)\<rparr>)"

text \<open>The next step of a call that nothing outside holds up.\<close>

definition resume :: "cache_options \<Rightarrow> nat \<Rightarrow> ('v, 'e) cached_call \<Rightarrow> ('s, 'v, 'e) route_cache \<Rightarrow> ('s, 'v, 'e) route_cache" where
  "resume opts c cl st =
     (case cl_stage cl of
        Looked hit \<Rightarrow> looked_up opts c cl hit st
      | Storing v \<Rightarrow> finish_run opts c cl (Inr v) st
      | Failing err \<Rightarrow> finish_run opts c cl (Inl err) st
      | Joined w \<Rightarrow>
          (case map_option cl_stage (js_get (rc_calls st) w) of
             Some (Answered result) \<Rightarrow> put_call c (cl\<lparr>cl_stage := Answered result\<rparr>) st
           | _ \<Rightarrow> st)
      | _ \<Rightarrow> st)"

datatype ('v, 'e) cache_event =
    Arrive nat route_request int
  | OperationSettled nat "'e + 'v" int
  | Resume nat
  | ClearStore
  | DeleteKey string

definition with_call :: "nat \<Rightarrow> (('v, 'e) cached_call \<Rightarrow> ('s, 'v, 'e) route_cache \<Rightarrow> ('s, 'v, 'e) route_cache) \<Rightarrow> ('s, 'v, 'e) route_cache \<Rightarrow> ('s, 'v, 'e) route_cache" where
  "with_call c f st = (case js_get (rc_calls st) c of None \<Rightarrow> st | Some cl \<Rightarrow> f cl st)"

text \<open>Calls, operations and the other users of the store take turns.\<close>

fun cache_step :: "('s, 'v) cache_ops \<Rightarrow> cache_options \<Rightarrow> ('v, 'e) cache_event \<Rightarrow> ('s, 'v, 'e) route_cache \<Rightarrow> ('s, 'v, 'e) route_cache" where
  "cache_step ops opts (Arrive c req now) st = arrive ops opts c req now st"
| "cache_step ops opts (OperationSettled c result now) st = with_call c (\<lambda>cl. operation_settled ops opts c cl result now) st"
| "cache_step ops opts (Resume c) st = with_call c (resume opts c) st"
| "cache_step ops opts ClearStore st = st\<lparr>rc_store := op_clear ops (rc_store st)\<rparr>"
| "cache_step ops opts (DeleteKey key) st = st\<lparr>rc_store := op_delete ops key (rc_store st)\<rparr>"

definition fresh_route :: "'s \<Rightarrow> ('s, 'v, 'e) route_cache" where
  "fresh_route s = \<lparr>rc_store = s, rc_inFlight = [], rc_calls = []\<rparr>"

abbreviation cache_run :: "('s, 'v) cache_ops \<Rightarrow> cache_options \<Rightarrow> 's \<Rightarrow> ('v, 'e) cache_event list \<Rightarrow> ('s, 'v, 'e) route_cache" where
  "cache_run ops opts s es \<equiv> fold (cache_step ops opts) es (fresh_route s)"

section \<open>The retrying decorator\<close>

text \<open>
  What the outside decides about an attempt: what the operation does, whether the signal is aborted
  before it and after it, and whether the wait after it is cut short. \<open>Inl None\<close> is the reason of the abort.
\<close>

record ('v, 'e) route_attempt =
  ra_aborted_before :: bool
  ra_result :: "'e + 'v"
  ra_aborted_after :: bool
  ra_sleep_aborted :: bool

definition IDEMPOTENT_METHODS :: "string list" where
  "IDEMPOTENT_METHODS = [''GET'', ''HEAD'', ''OPTIONS'', ''PUT'', ''DELETE'']"

text \<open>\<open>Some\<close> is the status of an \<open>AppError\<close>.\<close>

definition isTransientError :: "nat option \<Rightarrow> bool" where
  "isTransientError err = (case err of Some status \<Rightarrow> 500 \<le> status | None \<Rightarrow> True)"

record 'e retry_options =
  ro_attempts :: nat
  ro_isRetryable :: "'e \<Rightarrow> bool"
  ro_retryNonIdempotent :: bool

definition withRetry_options :: "'e retry_options \<Rightarrow> string + 'e retry_options" where
  "withRetry_options opts =
     (if ro_attempts opts < 1 then Inl ''withRetry: attempts must be an integer >= 1'' else Inr opts)"

definition max_attempts :: "'e retry_options \<Rightarrow> string \<Rightarrow> nat" where
  "max_attempts opts verb =
     (if ro_retryNonIdempotent opts \<or> toUpperCase verb \<in> set IDEMPOTENT_METHODS then ro_attempts opts else 1)"

text \<open>The loop, with the number of times the operation was called and the entry \<open>attempts\<close> of \<open>meta\<close>.\<close>

function retry_loop :: "'e retry_options \<Rightarrow> nat \<Rightarrow> (nat \<Rightarrow> ('v, 'e) route_attempt) \<Rightarrow> nat \<Rightarrow> nat \<Rightarrow> ('e option + 'v) \<times> nat \<times> nat option" where
  "retry_loop opts maxAttempts world attempt calls =
     (if ra_aborted_before (world attempt) then (Inl None, calls, None)
      else case ra_result (world attempt) of
        Inr v \<Rightarrow> (Inr v, calls + 1, if 1 < attempt then Some attempt else None)
      | Inl err \<Rightarrow>
          if maxAttempts \<le> attempt \<or> ra_aborted_after (world attempt) \<or> \<not> ro_isRetryable opts err
          then (Inl (Some err), calls + 1, None)
          else if ra_sleep_aborted (world attempt) then (Inl None, calls + 1, None)
          else retry_loop opts maxAttempts world (attempt + 1) (calls + 1))"
  by pat_completeness auto

termination
  by (relation "measure (\<lambda>(opts, mx, world, attempt, calls). mx - attempt)") auto

definition withRetry :: "'e retry_options \<Rightarrow> string \<Rightarrow> (nat \<Rightarrow> ('v, 'e) route_attempt) \<Rightarrow> ('e option + 'v) \<times> nat \<times> nat option" where
  "withRetry opts verb world = retry_loop opts (max_attempts opts verb) world 1 0"

declare retry_loop.simps [simp del]

section \<open>What the store keeps\<close>

definition cache_ok :: "'v memory_cache \<Rightarrow> bool" where
  "cache_ok s \<longleftrightarrow> js_ok (mc_entries s) \<and> 1 \<le> mc_maxEntries s \<and> length (mc_entries s) \<le> mc_maxEntries s"

lemma new_cache_ok: "new_MemoryCacheStore n = Inr s \<Longrightarrow> cache_ok s \<and> mc_entries s = []"
  by (auto simp: new_MemoryCacheStore_def cache_ok_def split: if_splits)

lemma js_delete_shrinks: "length (js_delete k m) \<le> length m"
  by (rule AList.length_delete_le)

lemma evict_expired_ok: "js_ok m \<Longrightarrow> js_ok (evict_expired mx now l m)"
  by (induction mx now l m rule: evict_expired.induct) simp_all

lemma evict_oldest_ok: "js_ok m \<Longrightarrow> js_ok (evict_oldest mx m) \<and> length (evict_oldest mx m) \<le> mx \<or> m = []"
proof (induction mx m rule: evict_oldest.induct)
  case (2 mx key e rest)
  show ?case
  proof (cases "mx < length ((key, e) # rest)")
    case True
    then have "js_ok (js_delete key ((key, e) # rest))"
      using 2(2) by (intro js_ok_delete)
    then show ?thesis
      using 2(1) True by (cases "js_delete key ((key, e) # rest)") auto
  next
    case False
    then show ?thesis
      using 2(2) by simp
  qed
qed simp

lemma js_get_deleted: "js_get (js_delete k' m) k = Some e \<Longrightarrow> js_get m k = Some e"
  unfolding js_get_delete by (cases "k = k'") simp_all

lemma evict_expired_only: "js_get (evict_expired mx now l m) k = Some e \<Longrightarrow> js_get m k = Some e"
proof (induction mx now l m rule: evict_expired.induct)
  case (2 mx now key e' rest m)
  then show ?case
    using js_get_deleted [of key m k e] by (cases "length m \<le> mx"; cases "se_expiresAt e' \<le> now") (simp_all del: js_get_delete)
qed simp

lemma evict_oldest_only: "js_get (evict_oldest mx m) k = Some e \<Longrightarrow> js_get m k = Some e"
proof (induction mx m rule: evict_oldest.induct)
  case (2 mx key e' rest)
  show ?case
  proof (cases "mx < length ((key, e') # rest)")
    case True
    then have "js_get (evict_oldest mx (js_delete key ((key, e') # rest))) k = Some e"
      using 2(2) by simp
    from 2(1) [OF True this] show ?thesis
      by (rule js_get_deleted)
  next
    case False
    then show ?thesis
      using 2(2) by simp
  qed
qed simp

lemma evictIfNeeded_only: "js_get (mc_entries (evictIfNeeded now s)) k = Some e \<Longrightarrow> js_get (mc_entries s) k = Some e"
  using evict_expired_only [OF evict_oldest_only] by (auto simp: evictIfNeeded_def split: if_splits)

lemma evictIfNeeded_ok:
  assumes "js_ok (mc_entries s)" "1 \<le> mc_maxEntries s"
  shows "cache_ok (evictIfNeeded now s) \<and> mc_maxEntries (evictIfNeeded now s) = mc_maxEntries s"
proof (cases "length (mc_entries s) \<le> mc_maxEntries s")
  case True
  then show ?thesis
    using assms by (simp add: evictIfNeeded_def cache_ok_def)
next
  case False
  have "js_ok (evict_expired (mc_maxEntries s) now (mc_entries s) (mc_entries s))"
    by (rule evict_expired_ok [OF assms(1)])
  from evict_oldest_ok [OF this, of "mc_maxEntries s"] show ?thesis
    using False assms by (auto simp: evictIfNeeded_def cache_ok_def)
qed

lemma js_reinsert_length: "js_get m k = Some e \<Longrightarrow> length (js_set k e' (js_delete k m)) \<le> length m"
  using length_js_delete_less [of m k e] by (simp add: length_js_set)

lemma cache_get_ok: "cache_ok s \<Longrightarrow> cache_ok (fst (cache_get k now s)) \<and> mc_maxEntries (fst (cache_get k now s)) = mc_maxEntries s"
proof (cases "js_get (mc_entries s) k")
  case (Some e)
  assume "cache_ok s"
  then show ?thesis
    using Some js_delete_shrinks [of k "mc_entries s"] js_reinsert_length [OF Some, of e] by (simp add: cache_get_def cache_ok_def)
qed (simp add: cache_get_def)

lemma cache_set_ok:
  assumes "cache_ok s" "cache_set k v ttl now s = Some s'"
  shows "cache_ok s' \<and> mc_maxEntries s' = mc_maxEntries s"
  using assms evictIfNeeded_ok [of "s\<lparr>mc_entries := js_set k \<lparr>se_value = v, se_expiresAt = now + ttl\<rparr> (js_delete k (mc_entries s))\<rparr>" now]
  by (auto simp: cache_set_def cache_ok_def split: if_splits)

lemma cache_drop_ok: "cache_ok s \<Longrightarrow> cache_ok (cache_delete k s)" "cache_ok s \<Longrightarrow> cache_ok (cache_clear s)"
  using js_delete_shrinks [of k "mc_entries s"] by (auto simp: cache_delete_def cache_clear_def cache_ok_def)

text \<open>A key that is held, with the keys used since it was used itself.\<close>

definition kept :: "string \<Rightarrow> 'v stored_entry \<Rightarrow> string set \<Rightarrow> (string, 'v stored_entry) js_map \<Rightarrow> bool" where
  "kept k e used m \<longleftrightarrow> (\<exists>xs ys. m = xs @ (k, e) # ys \<and> k \<notin> fst ` set xs \<and> fst ` set ys \<subseteq> used)"

lemma kept_get: "kept k e used m \<Longrightarrow> js_get m k = Some e"
  by (auto simp: kept_def map_add_Some_iff map_of_eq_None_iff)

lemma kept_delete: "kept k e used m \<Longrightarrow> k' \<noteq> k \<Longrightarrow> kept k e used (js_delete k' m)"
proof -
  assume "kept k e used m" "k' \<noteq> k"
  then obtain xs ys where "m = xs @ (k, e) # ys" "k \<notin> fst ` set xs" "fst ` set ys \<subseteq> used"
    by (auto simp: kept_def)
  then have "js_delete k' m = js_delete k' xs @ (k, e) # js_delete k' ys" "k \<notin> fst ` set (js_delete k' xs)" "fst ` set (js_delete k' ys) \<subseteq> used"
    using \<open>k' \<noteq> k\<close> by (auto simp: AList.delete_eq)
  then show ?thesis
    unfolding kept_def by blast
qed

lemma keptI: "k \<notin> fst ` set xs \<Longrightarrow> fst ` set ys \<subseteq> used \<Longrightarrow> kept k e used (xs @ (k, e) # ys)"
  unfolding kept_def by blast

lemma kept_snoc:
  assumes "kept k e used m"
  shows "kept k e (insert k' used) (m @ [(k', e')])"
proof -
  obtain xs ys where "m = xs @ (k, e) # ys" "k \<notin> fst ` set xs" "fst ` set ys \<subseteq> used"
    using assms by (auto simp: kept_def)
  then show ?thesis
    using keptI [of k xs "ys @ [(k', e')]" "insert k' used" e] by auto
qed

lemma reinserted: "js_set k e (js_delete k m) = js_delete k m @ [(k, e)]"
  by (rule js_set_new) simp

lemma kept_used: "kept k e used m \<Longrightarrow> k' \<noteq> k \<Longrightarrow> kept k e (insert k' used) (js_set k' e' (js_delete k' m))"
  unfolding reinserted by (intro kept_snoc kept_delete)

lemma kept_fresh: "kept k e used (js_set k e (js_delete k m))"
  unfolding reinserted by (rule keptI) (auto simp: AList.delete_eq)

lemma kept_evict_expired:
  "kept k e used m \<Longrightarrow> \<not> se_expiresAt e \<le> now \<Longrightarrow> \<forall>e'. (k, e') \<in> set l \<longrightarrow> e' = e \<Longrightarrow> kept k e used (evict_expired mx now l m)"
proof (induction mx now l m rule: evict_expired.induct)
  case (2 mx now key e' rest m)
  then show ?case
    by (cases "key = k") (auto simp: kept_delete)
qed simp

lemma kept_evict_oldest:
  "finite used \<Longrightarrow> card used < mx \<Longrightarrow> kept k e used m \<Longrightarrow> js_ok m \<Longrightarrow> kept k e used (evict_oldest mx m)"
proof (induction mx m rule: evict_oldest.induct)
  case (2 mx key e' rest)
  show ?case
  proof (cases "mx < length ((key, e') # rest)")
    case True
    have "key \<noteq> k"
    proof
      assume "key = k"
      then have "fst ` set rest \<subseteq> used"
        using 2(4) by (auto simp: kept_def Cons_eq_append_conv)
      then have "card (set (map fst rest)) \<le> card used"
        using 2(2) by (intro card_mono) auto
      moreover have "card (set (map fst rest)) = length rest"
        using 2(5) distinct_card [of "map fst rest"] by (simp add: js_ok_def)
      ultimately show False
        using True 2(3) by simp
    qed
    then have "kept k e used (js_delete key ((key, e') # rest))" "js_ok (js_delete key ((key, e') # rest))"
      using kept_delete [OF 2(4)] js_ok_delete [OF 2(5)] by blast+
    then show ?thesis
      using 2(1) [OF True 2(2,3)] True by simp
  next
    case False
    then show ?thesis
      using 2(4) by simp
  qed
qed (simp add: kept_def)

text \<open>The calls of a store, and the keys they use.\<close>

datatype 'v store_call =
    GetKey string int
  | SetKey string 'v int int
  | DropKey string

primrec do_call :: "'v store_call \<Rightarrow> 'v memory_cache \<Rightarrow> 'v memory_cache" where
  "do_call (GetKey k now) s = fst (cache_get k now s)"
| "do_call (SetKey k v ttl now) s = (case cache_set k v ttl now s of None \<Rightarrow> s | Some s' \<Rightarrow> s')"
| "do_call (DropKey k) s = cache_delete k s"

primrec call_key :: "'v store_call \<Rightarrow> string" where
  "call_key (GetKey k now) = k"
| "call_key (SetKey k v ttl now) = k"
| "call_key (DropKey k) = k"

primrec call_before :: "int \<Rightarrow> 'v store_call \<Rightarrow> bool" where
  "call_before t (GetKey k now) \<longleftrightarrow> now < t"
| "call_before t (SetKey k v ttl now) \<longleftrightarrow> now < t"
| "call_before t (DropKey k) \<longleftrightarrow> True"

lemma do_call_ok: "cache_ok s \<Longrightarrow> cache_ok (do_call c s) \<and> mc_maxEntries (do_call c s) = mc_maxEntries s"
  using cache_get_ok [of s] cache_set_ok [of s] cache_drop_ok(1) [of s] by (cases c) (auto simp: cache_delete_def split: option.splits)

lemma kept_evictIfNeeded:
  assumes "kept k e used (mc_entries s)" "js_ok (mc_entries s)" "now < se_expiresAt e" "finite used" "card used < mc_maxEntries s"
  shows "kept k e used (mc_entries (evictIfNeeded now s))"
proof -
  have "\<forall>e'. (k, e') \<in> set (mc_entries s) \<longrightarrow> e' = e"
    using kept_get [OF assms(1)] assms(2) by (metis js_ok_def map_of_is_SomeI option.inject)
  then have "kept k e used (evict_expired (mc_maxEntries s) now (mc_entries s) (mc_entries s))"
    using assms(3) by (intro kept_evict_expired [OF assms(1)]) simp_all
  then show ?thesis
    using kept_evict_oldest [OF assms(4,5) _ evict_expired_ok [OF assms(2)]] assms(1) by (simp add: evictIfNeeded_def)
qed

lemma kept_more: "kept k e used m \<Longrightarrow> kept k e (insert k' used) m"
  unfolding kept_def by blast

lemma kept_call:
  assumes "kept k e used (mc_entries s)" "cache_ok s" "call_before (se_expiresAt e) c" "call_key c \<noteq> k"
    and "finite used" "card (insert (call_key c) used) < mc_maxEntries s"
  shows "kept k e (insert (call_key c) used) (mc_entries (do_call c s))"
proof (cases c)
  case (GetKey k' now)
  then have "k' \<noteq> k"
    using assms(4) by simp
  note steps = kept_more [OF assms(1), of k'] kept_more [OF kept_delete [OF assms(1) this], of k'] kept_used [OF assms(1) this]
  show ?thesis
    using GetKey steps by (simp add: cache_get_def split: option.splits)
next
  case (SetKey k' v ttl now)
  define s' where "s' = s\<lparr>mc_entries := js_set k' \<lparr>se_value = v, se_expiresAt = now + ttl\<rparr> (js_delete k' (mc_entries s))\<rparr>"
  have "kept k e (insert k' used) (mc_entries s')" "js_ok (mc_entries s')" "mc_maxEntries s' = mc_maxEntries s"
    using assms(2,4) SetKey kept_used [OF assms(1), of k'] by (simp_all add: s'_def cache_ok_def)
  then have "kept k e (insert k' used) (mc_entries (evictIfNeeded now s'))"
    using assms(3,5,6) SetKey by (intro kept_evictIfNeeded) simp_all
  then show ?thesis
    using SetKey kept_more [OF assms(1), of k'] by (simp add: cache_set_def s'_def)
next
  case (DropKey k')
  then show ?thesis
    using assms(4) kept_more [OF kept_delete [OF assms(1)], of k' k'] by (simp add: cache_delete_def)
qed

lemma kept_calls:
  "kept k e used (mc_entries s) \<Longrightarrow> cache_ok s \<Longrightarrow> \<forall>c \<in> set cs. call_before (se_expiresAt e) c \<and> call_key c \<noteq> k \<Longrightarrow> finite used
     \<Longrightarrow> card (call_key ` set cs \<union> used) < mc_maxEntries s \<Longrightarrow> js_get (mc_entries (fold do_call cs s)) k = Some e"
proof (induction cs arbitrary: s used)
  case Nil
  then show ?case
    by (simp add: kept_get)
next
  case (Cons c cs)
  have "card (insert (call_key c) used) \<le> card (call_key ` set (c # cs) \<union> used)"
    using Cons.prems(4) by (intro card_mono) auto
  then have "kept k e (insert (call_key c) used) (mc_entries (do_call c s))"
    using Cons.prems by (intro kept_call) simp_all
  then show ?case
    using Cons.IH [of "insert (call_key c) used" "do_call c s"] Cons.prems do_call_ok [OF Cons.prems(2), of c] by simp
qed

lemma calls_keep_ok: "cache_ok s \<Longrightarrow> cache_ok (fold do_call cs s) \<and> mc_maxEntries (fold do_call cs s) = mc_maxEntries s"
  by (induction cs arbitrary: s) (simp_all add: do_call_ok)

text \<open>
  C31: the cache forgets the least recently used entry first. An entry that has just been read stays readable until
  it expires while fewer other keys than the store has places are used, however often they are written and read;
  and the store never holds more entries than it may.
\<close>

theorem recently_used_entry_is_kept:
  assumes "cache_ok s" "js_get (mc_entries s) k = Some e" "t < se_expiresAt e"
    and "\<forall>c \<in> set cs. call_before (se_expiresAt e) c \<and> call_key c \<noteq> k" "card (call_key ` set cs) < mc_maxEntries s"
    and "now < se_expiresAt e"
  shows "snd (cache_get k now (fold do_call cs (fst (cache_get k t s)))) = Some (se_value e)
    \<and> length (mc_entries (fold do_call cs (fst (cache_get k t s)))) \<le> mc_maxEntries s"
proof -
  have ok: "cache_ok (fst (cache_get k t s))" "mc_maxEntries (fst (cache_get k t s)) = mc_maxEntries s"
    using cache_get_ok [OF assms(1)] by simp_all
  have "kept k e {} (mc_entries (fst (cache_get k t s)))"
    using assms(2,3) by (simp add: cache_get_def kept_fresh)
  then have "js_get (mc_entries (fold do_call cs (fst (cache_get k t s)))) k = Some e"
    using kept_calls [OF _ ok(1) assms(4)] assms(5) ok(2) by simp
  then show ?thesis
    using calls_keep_ok [OF ok(1), of cs] ok(2) assms(6) by (simp add: cache_get_def cache_ok_def)
qed

lemma stored_entry_is_read:
  assumes "cache_ok s" "cache_set k v ttl now s = Some s'"
  shows "js_get (mc_entries s') k = Some \<lparr>se_value = v, se_expiresAt = now + ttl\<rparr>"
proof -
  define e where "e = \<lparr>se_value = v, se_expiresAt = now + ttl\<rparr>"
  have "kept k e {} (mc_entries (evictIfNeeded now (s\<lparr>mc_entries := js_set k e (js_delete k (mc_entries s))\<rparr>)))"
    using assms by (intro kept_evictIfNeeded) (simp_all add: e_def kept_fresh cache_ok_def cache_set_def split: if_splits)
  then show ?thesis
    using assms(2) kept_get by (fastforce simp: cache_set_def e_def split: if_splits)
qed

section \<open>The contract of a cache\<close>

text \<open>
  What the decorator needs of a \<open>CacheStore\<close>: it answers only what it holds and what has not expired, and
  comes to hold nothing but what it is given. It may forget.
\<close>

locale response_store =
  fixes held :: "'s \<Rightarrow> string \<Rightarrow> ('v \<times> int) option"
    and ops :: "('s, 'v) cache_ops"
  assumes get_answer: "op_get ops k now s = (s', Some v) \<Longrightarrow> \<exists>x. held s k = Some (v, x) \<and> now < x"
    and get_held: "op_get ops k now s = (s', hit) \<Longrightarrow> held s' k' = Some y \<Longrightarrow> held s k' = Some y"
    and set_held: "op_set ops k v ttl now s = Some s' \<Longrightarrow> held s' k' = Some y
      \<Longrightarrow> k' = k \<and> y = (v, now + ttl) \<or> k' \<noteq> k \<and> held s k' = Some y"
    and delete_held: "held (op_delete ops k s) k' = Some y \<Longrightarrow> k' \<noteq> k \<and> held s k' = Some y"
    and clear_held: "held (op_clear ops s) k' = None"

definition memory_held :: "'v memory_cache \<Rightarrow> string \<Rightarrow> ('v \<times> int) option" where
  "memory_held s k = map_option (\<lambda>e. (se_value e, se_expiresAt e)) (js_get (mc_entries s) k)"

lemma memory_set_held:
  assumes "cache_set k v ttl now s = Some s'" "memory_held s' k' = Some y"
  shows "k' = k \<and> y = (v, now + ttl) \<or> k' \<noteq> k \<and> memory_held s k' = Some y"
proof -
  have "s' = evictIfNeeded now (s\<lparr>mc_entries := js_set k \<lparr>se_value = v, se_expiresAt = now + ttl\<rparr> (js_delete k (mc_entries s))\<rparr>)"
    using assms(1) by (simp add: cache_set_def split: if_splits)
  moreover obtain e where "js_get (mc_entries s') k' = Some e" "y = (se_value e, se_expiresAt e)"
    using assms(2) by (auto simp: memory_held_def)
  ultimately have "js_get (js_set k \<lparr>se_value = v, se_expiresAt = now + ttl\<rparr> (js_delete k (mc_entries s))) k' = Some e" "y = (se_value e, se_expiresAt e)"
    using evictIfNeeded_only [of now "s\<lparr>mc_entries := js_set k \<lparr>se_value = v, se_expiresAt = now + ttl\<rparr> (js_delete k (mc_entries s))\<rparr>" k' e] by simp_all
  then show ?thesis
    by (cases "k' = k") (auto simp: memory_held_def)
qed

interpretation lru: response_store memory_held memory_ops
proof (unfold_locales, goal_cases)
  case (1 k now s s' v)
  then show ?case
    by (auto simp: memory_ops_def memory_held_def cache_get_def split: option.splits if_splits)
next
  case (2 k now s s' hit k' y)
  then show ?case
    by (auto simp: memory_ops_def memory_held_def cache_get_def split: option.splits if_splits)
next
  case (3 k v ttl now s s' k' y)
  then show ?case
    using memory_set_held [of k v ttl now s s' k' y] by (simp add: memory_ops_def)
next
  case (4 k s k' y)
  then show ?case
    by (auto simp: memory_ops_def memory_held_def cache_delete_def split: if_splits)
next
  case (5 s k')
  then show ?case
    by (simp add: memory_ops_def memory_held_def cache_clear_def)
qed

section \<open>Runs in progress\<close>

fun in_progress :: "('v, 'e) call_stage \<Rightarrow> bool" where
  "in_progress Running = True"
| "in_progress (Storing v) = True"
| "in_progress (Failing err) = True"
| "in_progress _ = False"

fun run_over :: "('v, 'e) call_stage \<Rightarrow> bool" where
  "run_over (Answered r) = True"
| "run_over _ = False"

abbreviation call_in :: "('s, 'v, 'e) route_cache \<Rightarrow> nat \<Rightarrow> ('v, 'e) cached_call option" where
  "call_in st c \<equiv> js_get (rc_calls st) c"

text \<open>
  The map of runs holds exactly the calls that are running their operation, under their keys; and who has joined a run
  has joined one of its own key, in progress or over.
\<close>

definition flight_inv :: "cache_options \<Rightarrow> ('s, 'v, 'e) route_cache \<Rightarrow> bool" where
  "flight_inv opts st \<longleftrightarrow>
     (\<forall>k w. js_get (rc_inFlight st) k = Some w \<longleftrightarrow>
        (\<exists>cl. call_in st w = Some cl \<and> cacheKey opts (cl_request cl) = k \<and> in_progress (cl_stage cl)))
     \<and> (\<forall>c cl w. call_in st c = Some cl \<and> cl_stage cl = Joined w \<longrightarrow>
        (\<exists>cw. call_in st w = Some cw \<and> cacheKey opts (cl_request cw) = cacheKey opts (cl_request cl)
           \<and> (in_progress (cl_stage cw) \<or> run_over (cl_stage cw))))"

lemma flight_inFlight:
  "flight_inv opts st \<Longrightarrow> js_get (rc_inFlight st) k = Some w \<longleftrightarrow>
     (\<exists>cl. call_in st w = Some cl \<and> cacheKey opts (cl_request cl) = k \<and> in_progress (cl_stage cl))"
  unfolding flight_inv_def by blast

lemma flight_joined:
  "flight_inv opts st \<Longrightarrow> call_in st c = Some cl \<Longrightarrow> cl_stage cl = Joined w \<Longrightarrow>
     \<exists>cw. call_in st w = Some cw \<and> cacheKey opts (cl_request cw) = cacheKey opts (cl_request cl)
       \<and> (in_progress (cl_stage cw) \<or> run_over (cl_stage cw))"
  unfolding flight_inv_def by blast

lemma call_in_put [simp]: "call_in (put_call c cl st) c' = (if c' = c then Some cl else call_in st c')"
  by (simp add: put_call_def)

lemma put_fields [simp]: "rc_inFlight (put_call c cl st) = rc_inFlight st" "rc_store (put_call c cl st) = rc_store st"
  by (simp_all add: put_call_def)

lemma flight_store [simp]: "flight_inv opts (st\<lparr>rc_store := s\<rparr>) = flight_inv opts st"
  by (simp add: flight_inv_def)

lemma put_store: "put_call c cl (st\<lparr>rc_store := s\<rparr>) = (put_call c cl st)\<lparr>rc_store := s\<rparr>"
  by (simp add: put_call_def)

text \<open>A call moves on; \<open>fl\<close> is the map of runs afterwards.\<close>

lemma flight_put:
  assumes inv: "flight_inv opts st"
    and fl: "\<forall>k w. js_get fl k = Some w \<longleftrightarrow> (if w = c then in_progress (cl_stage cl') \<and> cacheKey opts (cl_request cl') = k else js_get (rc_inFlight st) k = Some w)"
    and onward: "\<forall>cl. call_in st c = Some cl \<longrightarrow> cl_request cl' = cl_request cl
        \<and> (in_progress (cl_stage cl) \<or> run_over (cl_stage cl) \<longrightarrow> in_progress (cl_stage cl') \<or> run_over (cl_stage cl'))"
    and joins: "\<forall>w. cl_stage cl' = Joined w \<longrightarrow> w \<noteq> c \<and> (\<exists>cw. call_in st w = Some cw \<and> cacheKey opts (cl_request cw) = cacheKey opts (cl_request cl')
        \<and> (in_progress (cl_stage cw) \<or> run_over (cl_stage cw)))"
  shows "flight_inv opts (put_call c cl' (st\<lparr>rc_inFlight := fl\<rparr>))"
proof -
  have "js_get (rc_inFlight (put_call c cl' (st\<lparr>rc_inFlight := fl\<rparr>))) k = Some w \<longleftrightarrow> (\<exists>cl. call_in (put_call c cl' (st\<lparr>rc_inFlight := fl\<rparr>)) w = Some cl \<and> cacheKey opts (cl_request cl) = k \<and> in_progress (cl_stage cl))" for k w
    using fl flight_inFlight [OF inv, of k w] by auto
  moreover have "\<exists>cw. call_in (put_call c cl' (st\<lparr>rc_inFlight := fl\<rparr>)) w = Some cw \<and> cacheKey opts (cl_request cw) = cacheKey opts (cl_request cl)
       \<and> (in_progress (cl_stage cw) \<or> run_over (cl_stage cw))"
    if j: "call_in (put_call c cl' (st\<lparr>rc_inFlight := fl\<rparr>)) d = Some cl" "cl_stage cl = Joined w" for d cl w
  proof (cases "d = c")
    case True
    then show ?thesis
      using j joins by auto
  next
    case False
    then obtain cw where "call_in st w = Some cw" "cacheKey opts (cl_request cw) = cacheKey opts (cl_request cl)" "in_progress (cl_stage cw) \<or> run_over (cl_stage cw)"
      using j flight_joined [OF inv, of d cl w] by auto
    then show ?thesis
      using onward by auto
  qed
  ultimately show ?thesis
    unfolding flight_inv_def by blast
qed

lemma flight_put_same:
  assumes "flight_inv opts st" "call_in st c = Some cl" "cl_request cl' = cl_request cl" "in_progress (cl_stage cl') = in_progress (cl_stage cl)"
    and "run_over (cl_stage cl) \<longrightarrow> run_over (cl_stage cl')"
    and "\<forall>w. cl_stage cl' = Joined w \<longrightarrow> w \<noteq> c \<and> (\<exists>cw. call_in st w = Some cw \<and> cacheKey opts (cl_request cw) = cacheKey opts (cl_request cl)
        \<and> (in_progress (cl_stage cw) \<or> run_over (cl_stage cw)))"
  shows "flight_inv opts (put_call c cl' st)"
proof -
  have "flight_inv opts (put_call c cl' (st\<lparr>rc_inFlight := rc_inFlight st\<rparr>))"
  proof (rule flight_put [OF assms(1)])
    show "\<forall>k w. js_get (rc_inFlight st) k = Some w \<longleftrightarrow>
        (if w = c then in_progress (cl_stage cl') \<and> cacheKey opts (cl_request cl') = k else js_get (rc_inFlight st) k = Some w)"
      using assms(2-4) flight_inFlight [OF assms(1)] by auto
  qed (use assms in auto)
  then show ?thesis
    by simp
qed

lemma flight_new:
  assumes "flight_inv opts st" "call_in st c = None" "\<not> in_progress (cl_stage cl')" "\<forall>w. cl_stage cl' \<noteq> Joined w"
  shows "flight_inv opts (put_call c cl' st)"
proof -
  have "flight_inv opts (put_call c cl' (st\<lparr>rc_inFlight := rc_inFlight st\<rparr>))"
  proof (rule flight_put [OF assms(1)])
    show "\<forall>k w. js_get (rc_inFlight st) k = Some w \<longleftrightarrow>
        (if w = c then in_progress (cl_stage cl') \<and> cacheKey opts (cl_request cl') = k else js_get (rc_inFlight st) k = Some w)"
      using assms(2,3) flight_inFlight [OF assms(1)] by auto
  qed (use assms in auto)
  then show ?thesis
    by simp
qed

lemma flight_arrive:
  assumes "flight_inv opts st"
  shows "flight_inv opts (arrive ops opts c req now st)"
proof (cases "call_in st c")
  case None
  then show ?thesis
    using flight_new [OF assms None] by (simp add: arrive_def put_store split: prod.split)
qed (simp add: arrive_def assms)

lemma flight_looked_up:
  assumes "flight_inv opts st" "call_in st c = Some cl" "cl_stage cl = Looked hit"
  shows "flight_inv opts (looked_up opts c cl hit st)"
proof (cases hit)
  case (Some v)
  then show ?thesis
    using assms(3) flight_put_same [OF assms(1,2), of "cl\<lparr>cl_meta := Some Hit, cl_stage := Answered (Inr v)\<rparr>"] by (simp add: looked_up_def)
next
  case None
  show ?thesis
  proof (cases "js_get (rc_inFlight st) (cacheKey opts (cl_request cl))")
    case (Some w)
    then obtain cw where "call_in st w = Some cw" "cacheKey opts (cl_request cw) = cacheKey opts (cl_request cl)" "in_progress (cl_stage cw)"
      using flight_inFlight [OF assms(1)] by blast
    moreover have "w \<noteq> c"
      using assms(2,3) calculation by auto
    ultimately show ?thesis
      using assms(3) None Some flight_put_same [OF assms(1,2), of "cl\<lparr>cl_meta := Some Coalesced, cl_stage := Joined w\<rparr>"] by (simp add: looked_up_def)
  next
    case free: None
    have idle: "js_get (rc_inFlight st) k \<noteq> Some c" for k
      unfolding flight_inFlight [OF assms(1)] using assms(2,3) by simp
    have "flight_inv opts (put_call c (cl\<lparr>cl_meta := Some Miss, cl_stage := Running\<rparr>)
        (st\<lparr>rc_inFlight := js_set (cacheKey opts (cl_request cl)) c (rc_inFlight st)\<rparr>))"
    proof (rule flight_put [OF assms(1)])
      show "\<forall>k w. js_get (js_set (cacheKey opts (cl_request cl)) c (rc_inFlight st)) k = Some w \<longleftrightarrow>
          (if w = c then in_progress (cl_stage (cl\<lparr>cl_meta := Some Miss, cl_stage := Running\<rparr>)) \<and> cacheKey opts (cl_request (cl\<lparr>cl_meta := Some Miss, cl_stage := Running\<rparr>)) = k
           else js_get (rc_inFlight st) k = Some w)"
        using free idle by auto
    qed (use assms in auto)
    then show ?thesis
      using None free by (simp add: looked_up_def)
  qed
qed

lemma flight_operation_settled:
  assumes "flight_inv opts st" "call_in st c = Some cl"
  shows "flight_inv opts (operation_settled ops opts c cl result now st)"
proof -
  have put: "flight_inv opts (put_call c (cl\<lparr>cl_stage := s\<rparr>) st)"
    if "in_progress s = in_progress (cl_stage cl)" "run_over (cl_stage cl) \<longrightarrow> run_over s" "\<forall>w. s \<noteq> Joined w" for s
    using that by (intro flight_put_same [OF assms]) simp_all
  have put': "flight_inv opts (put_call c (cl\<lparr>cl_stage := s\<rparr>) (st\<lparr>rc_store := st'\<rparr>))"
    if "in_progress s = in_progress (cl_stage cl)" "run_over (cl_stage cl) \<longrightarrow> run_over s" "\<forall>w. s \<noteq> Joined w" for s st'
    using put [OF that] by (simp add: put_store)
  show ?thesis
  proof (cases "cl_stage cl")
    case Running
    then show ?thesis
      by (auto simp: operation_settled_def split: sum.split option.split intro!: put put')
  next
    case Passing
    then show ?thesis
      by (simp add: operation_settled_def put)
  qed (simp_all add: operation_settled_def assms(1))
qed

lemma flight_finish_run:
  assumes "flight_inv opts st" "call_in st c = Some cl" "in_progress (cl_stage cl)"
  shows "flight_inv opts (finish_run opts c cl r st)"
  unfolding finish_run_def
proof (rule flight_put [OF assms(1)])
  have own: "js_get (rc_inFlight st) (cacheKey opts (cl_request cl)) = Some c"
    unfolding flight_inFlight [OF assms(1)] using assms(2,3) by simp
  have only: "js_get (rc_inFlight st) k \<noteq> Some c" if "k \<noteq> cacheKey opts (cl_request cl)" for k
    using that assms(2) unfolding flight_inFlight [OF assms(1)] by auto
  show "\<forall>k w. js_get (js_delete (cacheKey opts (cl_request cl)) (rc_inFlight st)) k = Some w \<longleftrightarrow>
      (if w = c then in_progress (cl_stage (cl\<lparr>cl_stage := Answered r\<rparr>)) \<and> cacheKey opts (cl_request (cl\<lparr>cl_stage := Answered r\<rparr>)) = k
       else js_get (rc_inFlight st) k = Some w)"
    using own only by auto
qed (use assms in auto)

lemma flight_resume:
  assumes "flight_inv opts st" "call_in st c = Some cl"
  shows "flight_inv opts (resume opts c cl st)"
proof (cases "cl_stage cl")
  case (Looked hit)
  then show ?thesis
    using flight_looked_up [OF assms] by (simp add: resume_def)
next
  case (Joined w)
  have "flight_inv opts (put_call c (cl\<lparr>cl_stage := Answered r\<rparr>) st)" for r
    using Joined by (intro flight_put_same [OF assms]) simp_all
  then show ?thesis
    using Joined assms(1) by (simp add: resume_def split: option.split call_stage.split)
next
  case (Storing v)
  then show ?thesis
    using flight_finish_run [OF assms] by (simp add: resume_def)
next
  case (Failing err)
  then show ?thesis
    using flight_finish_run [OF assms] by (simp add: resume_def)
qed (simp_all add: resume_def assms(1))

lemma flight_step: "flight_inv opts st \<Longrightarrow> flight_inv opts (cache_step ops opts ev st)"
  by (cases ev) (simp_all add: with_call_def flight_arrive flight_operation_settled flight_resume split: option.split)

interpretation flights: step_invariant "cache_step ops opts" "flight_inv opts" for ops opts
  by unfold_locales (rule flight_step)

lemma flight_fresh: "flight_inv opts (fresh_route s)"
  by (simp add: flight_inv_def fresh_route_def)

lemma flight_run: "flight_inv opts (cache_run ops opts s es)"
  by (rule flights.run_keeps [OF flight_fresh])

text \<open>
  C16: simultaneous requests for a cold key share one run. In every interleaving there is at most one run of the
  operation per key, the run that the map of runs names; and every call that has joined a run has joined one of its own
  key that is still in progress or has an answer for it.
\<close>

theorem one_run_per_key:
  assumes "call_in (cache_run ops opts s es) c = Some cl" "in_progress (cl_stage cl)"
  shows "js_get (rc_inFlight (cache_run ops opts s es)) (cacheKey opts (cl_request cl)) = Some c
    \<and> (\<forall>d cd. call_in (cache_run ops opts s es) d = Some cd \<and> in_progress (cl_stage cd) \<and> cacheKey opts (cl_request cd) = cacheKey opts (cl_request cl) \<longrightarrow> d = c)"
proof -
  have named: "js_get (rc_inFlight (cache_run ops opts s es)) (cacheKey opts (cl_request cd)) = Some d"
    if "call_in (cache_run ops opts s es) d = Some cd" "in_progress (cl_stage cd)" for d cd
    unfolding flight_inFlight [OF flight_run] using that by simp
  show ?thesis
    using named [OF assms] named by fastforce
qed

section \<open>Where an answer comes from\<close>

text \<open>
  In the run \<open>es\<close> the operation, run for the request \<open>rq\<close>, gave \<open>v\<close> at time \<open>t\<close>, and \<open>later\<close> is what has happened since.
\<close>

definition produced :: "('s, 'v) cache_ops \<Rightarrow> cache_options \<Rightarrow> 's \<Rightarrow> ('v, 'e) cache_event list \<Rightarrow> route_request \<Rightarrow> 'v \<Rightarrow> int \<Rightarrow> ('v, 'e) cache_event list \<Rightarrow> bool" where
  "produced ops opts s es rq v t later \<longleftrightarrow> (\<exists>before w cl. es = before @ OperationSettled w (Inr v) t # later
     \<and> call_in (cache_run ops opts s before) w = Some cl \<and> cl_stage cl = Running \<and> cl_request cl = rq)"

definition untouched :: "string \<Rightarrow> ('v, 'e) cache_event list \<Rightarrow> bool" where
  "untouched k later \<longleftrightarrow> ClearStore \<notin> set later \<and> DeleteKey k \<notin> set later"

definition gave :: "('s, 'v) cache_ops \<Rightarrow> cache_options \<Rightarrow> 's \<Rightarrow> ('v, 'e) cache_event list \<Rightarrow> route_request \<Rightarrow> 'v \<Rightarrow> bool" where
  "gave ops opts s es rq v \<longleftrightarrow> (\<exists>rq' t later. produced ops opts s es rq' v t later \<and> cacheKey opts rq' = cacheKey opts rq)"

definition hit_from :: "('s, 'v) cache_ops \<Rightarrow> cache_options \<Rightarrow> 's \<Rightarrow> ('v, 'e) cache_event list \<Rightarrow> nat \<Rightarrow> route_request \<Rightarrow> 'v \<Rightarrow> bool" where
  "hit_from ops opts s es c rq v \<longleftrightarrow> (\<exists>before now after rq' t later. es = before @ Arrive c rq now # after
     \<and> produced ops opts s before rq' v t later \<and> cacheKey opts rq' = cacheKey opts rq
     \<and> now < t + ca_ttlMs opts \<and> untouched (cacheKey opts rq) later)"

definition call_sound :: "('s, 'v) cache_ops \<Rightarrow> cache_options \<Rightarrow> 's \<Rightarrow> ('v, 'e) cache_event list \<Rightarrow> nat \<Rightarrow> ('v, 'e) cached_call \<Rightarrow> bool" where
  "call_sound ops opts s es c cl \<longleftrightarrow>
     (case cl_stage cl of
        Looked hit \<Rightarrow> cl_meta cl = None \<and> (case hit of None \<Rightarrow> True | Some v \<Rightarrow> hit_from ops opts s es c (cl_request cl) v)
      | Running \<Rightarrow> cl_meta cl = Some Miss
      | Storing v \<Rightarrow> cl_meta cl = Some Miss \<and> gave ops opts s es (cl_request cl) v
      | Failing err \<Rightarrow> cl_meta cl = Some Miss
      | Joined w \<Rightarrow> cl_meta cl = Some Coalesced \<and> (\<exists>cw. call_in (cache_run ops opts s es) w = Some cw \<and> cl_meta cw = Some Miss
          \<and> cacheKey opts (cl_request cw) = cacheKey opts (cl_request cl))
      | Passing \<Rightarrow> cl_meta cl = Some Bypass
      | Answered (Inr v) \<Rightarrow> cl_meta cl = Some Hit \<and> hit_from ops opts s es c (cl_request cl) v
          \<or> cl_meta cl \<in> {Some Miss, Some Coalesced} \<and> gave ops opts s es (cl_request cl) v \<or> cl_meta cl = Some Bypass
      | Answered (Inl err) \<Rightarrow> cl_meta cl \<in> {Some Miss, Some Coalesced, Some Bypass})"

definition calls_sound :: "('s, 'v) cache_ops \<Rightarrow> cache_options \<Rightarrow> 's \<Rightarrow> ('v, 'e) cache_event list \<Rightarrow> bool" where
  "calls_sound ops opts s es \<longleftrightarrow> (\<forall>c cl. call_in (cache_run ops opts s es) c = Some cl \<longrightarrow> call_sound ops opts s es c cl)"

lemma produced_snoc: "produced ops opts s es rq v t later \<Longrightarrow> produced ops opts s (es @ [ev]) rq v t (later @ [ev])"
  by (auto simp: produced_def)

lemma gave_snoc: "gave ops opts s es rq v \<Longrightarrow> gave ops opts s (es @ [ev]) rq v"
  unfolding gave_def by (blast dest: produced_snoc)

lemma hit_from_snoc: "hit_from ops opts s es c rq v \<Longrightarrow> hit_from ops opts s (es @ [ev]) c rq v"
  unfolding hit_from_def by (elim exE conjE) (rule exI, rule exI, rule exI [of _ "_ @ [ev]"], auto)

text \<open>No step changes the request of a call, and only a lookup that ends gives it its outcome.\<close>

definition calls_kept :: "('s, 'v, 'e) route_cache \<Rightarrow> ('s, 'v, 'e) route_cache \<Rightarrow> bool" where
  "calls_kept st st' \<longleftrightarrow> (\<forall>w cw. call_in st w = Some cw \<longrightarrow> (\<exists>cw'. call_in st' w = Some cw' \<and> cl_request cw' = cl_request cw
     \<and> (cl_meta cw' = cl_meta cw \<or> (\<exists>h. cl_stage cw = Looked h))))"

lemma kept_same: "rc_calls st' = rc_calls st \<Longrightarrow> calls_kept st st'"
  by (simp add: calls_kept_def)

lemma kept_put:
  assumes "\<And>cl. call_in st c = Some cl \<Longrightarrow> cl_request cl' = cl_request cl \<and> (cl_meta cl' = cl_meta cl \<or> (\<exists>h. cl_stage cl = Looked h))"
    and "rc_calls st' = rc_calls st"
  shows "calls_kept st (put_call c cl' st')"
  using assms unfolding calls_kept_def call_in_put by force

lemma kept_looked_up: "call_in st c = Some cl \<Longrightarrow> cl_stage cl = Looked hit \<Longrightarrow> calls_kept st (looked_up opts c cl hit st)"
  by (cases hit) (auto simp: looked_up_def split: option.split intro!: kept_put)

lemma step_keeps_calls: "calls_kept st (cache_step ops opts ev st)"
proof (cases ev)
  case (Arrive c req now)
  then show ?thesis
    by (auto simp: arrive_def kept_same split: prod.split intro!: kept_put)
next
  case (OperationSettled c result t)
  have "calls_kept st (operation_settled ops opts c cl result t st)" if "call_in st c = Some cl" for cl
    using that by (cases "cl_stage cl"; cases result) (auto simp: operation_settled_def kept_same split: option.split intro!: kept_put)
  then show ?thesis
    using OperationSettled by (auto simp: with_call_def kept_same split: option.split)
next
  case (Resume c)
  have "calls_kept st (resume opts c cl st)" if "call_in st c = Some cl" for cl
    using that by (cases "cl_stage cl") (auto simp: resume_def finish_run_def kept_same split: option.split call_stage.split intro!: kept_put kept_looked_up)
  then show ?thesis
    using Resume by (auto simp: with_call_def kept_same split: option.split)
qed (simp_all add: kept_same)

lemmas step_keeps_call = step_keeps_calls [unfolded calls_kept_def, rule_format]

lemma sound_snoc:
  assumes "calls_sound ops opts s es" "call_sound ops opts s es c cl"
  shows "call_sound ops opts s (es @ [ev]) c cl"
proof (cases "cl_stage cl")
  case (Looked hit)
  then show ?thesis
    using assms(2) by (auto simp: call_sound_def intro: hit_from_snoc split: option.splits)
next
  case (Storing v)
  then show ?thesis
    using assms(2) by (auto simp: call_sound_def intro: gave_snoc)
next
  case (Joined w)
  then obtain cw where cw: "call_in (cache_run ops opts s es) w = Some cw" "cl_meta cw = Some Miss" "cacheKey opts (cl_request cw) = cacheKey opts (cl_request cl)" "cl_meta cl = Some Coalesced"
    using assms(2) Joined by (auto simp: call_sound_def)
  have "call_sound ops opts s es w cw"
    using assms(1) cw(1) unfolding calls_sound_def by blast
  then have "cl_stage cw \<noteq> Looked h" for h
    using cw(2) by (auto simp: call_sound_def)
  then show ?thesis
    using step_keeps_call [OF cw(1), of ops opts ev] cw Joined by (auto simp: call_sound_def)
next
  case (Answered r)
  then show ?thesis
    using assms(2) by (cases r) (auto simp: call_sound_def intro: hit_from_snoc gave_snoc)
qed (use assms(2) in \<open>simp_all add: call_sound_def\<close>)

lemma sound_put:
  assumes "calls_sound ops opts s es" "rc_calls (cache_step ops opts ev (cache_run ops opts s es)) = rc_calls (put_call c cl (cache_run ops opts s es))"
    and "call_sound ops opts s (es @ [ev]) c cl"
  shows "calls_sound ops opts s (es @ [ev])"
  unfolding calls_sound_def
proof (intro allI impI)
  fix d cd
  assume "call_in (cache_run ops opts s (es @ [ev])) d = Some cd"
  then have "(if d = c then Some cl else call_in (cache_run ops opts s es) d) = Some cd"
    using assms(2) call_in_put [of c cl "cache_run ops opts s es" d] by simp
  then show "call_sound ops opts s (es @ [ev]) d cd"
    using assms(3) sound_snoc [OF assms(1)] assms(1) by (auto simp: calls_sound_def split: if_splits)
qed

lemma sound_same:
  assumes "calls_sound ops opts s es" "rc_calls (cache_step ops opts ev (cache_run ops opts s es)) = rc_calls (cache_run ops opts s es)"
  shows "calls_sound ops opts s (es @ [ev])"
  using assms sound_snoc [OF assms(1)] by (auto simp: calls_sound_def)

lemma gave_key: "gave ops opts s es rq v \<Longrightarrow> cacheKey opts rq' = cacheKey opts rq \<Longrightarrow> gave ops opts s es rq' v"
  by (simp add: gave_def)

lemma soundD: "calls_sound ops opts s es \<Longrightarrow> call_in (cache_run ops opts s es) c = Some cl \<Longrightarrow> call_sound ops opts s es c cl"
  by (simp add: calls_sound_def)

lemma gave_settled:
  assumes "call_in (cache_run ops opts s es) c = Some cl" "cl_stage cl = Running"
  shows "gave ops opts s (es @ [OperationSettled c (Inr v) t]) (cl_request cl) v"
proof -
  have "produced ops opts s (es @ [OperationSettled c (Inr v) t]) (cl_request cl) v t []"
    using assms by (auto simp: produced_def)
  then show ?thesis
    by (auto simp: gave_def)
qed

lemma sound_operation_settled:
  assumes "calls_sound ops opts s es"
  shows "calls_sound ops opts s (es @ [OperationSettled c result t])"
proof (cases "call_in (cache_run ops opts s es) c")
  case None
  then show ?thesis
    by (intro sound_same [OF assms]) (simp add: with_call_def)
next
  case (Some cl)
  have cl: "call_sound ops opts s es c cl"
    by (rule soundD [OF assms Some])
  have put: ?thesis
    if "rc_calls (operation_settled ops opts c cl result t (cache_run ops opts s es)) = rc_calls (put_call c (cl\<lparr>cl_stage := stage\<rparr>) (cache_run ops opts s es))"
      "call_sound ops opts s (es @ [OperationSettled c result t]) c (cl\<lparr>cl_stage := stage\<rparr>)" for stage
    using that Some by (intro sound_put [OF assms]) (simp_all add: with_call_def)
  have same: ?thesis if "operation_settled ops opts c cl result t (cache_run ops opts s es) = cache_run ops opts s es"
    using that Some by (intro sound_same [OF assms]) (simp add: with_call_def)
  show ?thesis
  proof (cases "cl_stage cl")
    case Passing
    then show ?thesis
      using cl by (intro put [of "Answered (map_sum OperationFailed id result)"]) (cases result, simp_all add: operation_settled_def call_sound_def)+
  next
    case running: Running
    show ?thesis
    proof (cases result)
      case (Inl err)
      then show ?thesis
        using running cl by (intro put [of "Failing (OperationFailed err)"]) (simp_all add: operation_settled_def call_sound_def)
    next
      case (Inr v)
      show ?thesis
      proof (cases "op_set ops (cacheKey opts (cl_request cl)) v (ca_ttlMs opts) t (rc_store (cache_run ops opts s es))")
        case None
        then show ?thesis
          using running Inr cl by (intro put [of "Failing StoreFailed"]) (simp_all add: operation_settled_def call_sound_def)
      next
        case stored: (Some s')
        then show ?thesis
          using running Inr cl gave_settled [OF Some running, of v t]
          by (intro put [of "Storing v"]) (simp_all add: operation_settled_def call_sound_def put_store)
      qed
    qed
  qed (simp_all add: same operation_settled_def)
qed

lemma sound_resume_put:
  assumes "calls_sound ops opts s es" "call_in (cache_run ops opts s es) c = Some cl"
    and "rc_calls (resume opts c cl (cache_run ops opts s es)) = rc_calls (put_call c cl' (cache_run ops opts s es))"
    and "call_sound ops opts s (es @ [Resume c]) c cl'"
  shows "calls_sound ops opts s (es @ [Resume c])"
  using assms(2-4) by (intro sound_put [OF assms(1)]) (simp_all add: with_call_def)

lemma sound_join:
  assumes "calls_sound ops opts s es" "js_get (rc_inFlight (cache_run ops opts s es)) k = Some w"
  shows "\<exists>cw. call_in (cache_run ops opts s (es @ [ev])) w = Some cw \<and> cl_meta cw = Some Miss \<and> cacheKey opts (cl_request cw) = k"
proof -
  obtain cw where cw: "call_in (cache_run ops opts s es) w = Some cw" "cacheKey opts (cl_request cw) = k" "in_progress (cl_stage cw)"
    using assms(2) unfolding flight_inFlight [OF flight_run] by blast
  have "cl_meta cw = Some Miss"
    using soundD [OF assms(1) cw(1)] cw(3) by (cases "cl_stage cw") (simp_all add: call_sound_def)
  moreover have "cl_stage cw \<noteq> Looked h" for h
    using cw(3) by auto
  ultimately show ?thesis
    using step_keeps_call [OF cw(1), of ops opts ev] cw(2) by auto
qed

lemma sound_resume_looked:
  assumes "calls_sound ops opts s es" "call_in (cache_run ops opts s es) c = Some cl" "cl_stage cl = Looked hit"
  shows "calls_sound ops opts s (es @ [Resume c])"
proof (cases hit)
  case (Some v)
  have "call_sound ops opts s (es @ [Resume c]) c cl"
    by (rule sound_snoc [OF assms(1) soundD [OF assms(1,2)]])
  then show ?thesis
    using assms(3) Some by (intro sound_resume_put [OF assms(1,2), of "cl\<lparr>cl_meta := Some Hit, cl_stage := Answered (Inr v)\<rparr>"])
      (simp_all add: resume_def looked_up_def call_sound_def)
next
  case miss: None
  show ?thesis
  proof (cases "js_get (rc_inFlight (cache_run ops opts s es)) (cacheKey opts (cl_request cl))")
    case None
    then show ?thesis
      using assms(3) miss by (intro sound_resume_put [OF assms(1,2), of "cl\<lparr>cl_meta := Some Miss, cl_stage := Running\<rparr>"])
        (simp_all add: resume_def looked_up_def call_sound_def put_call_def)
  next
    case (Some w)
    then show ?thesis
      using assms(3) miss sound_join [OF assms(1) Some, of "Resume c"]
      by (intro sound_resume_put [OF assms(1,2), of "cl\<lparr>cl_meta := Some Coalesced, cl_stage := Joined w\<rparr>"])
        (simp_all add: resume_def looked_up_def call_sound_def)
  qed
qed

lemma sound_resume_joined:
  assumes "calls_sound ops opts s es" "call_in (cache_run ops opts s es) c = Some cl" "cl_stage cl = Joined w"
  shows "calls_sound ops opts s (es @ [Resume c])"
proof -
  obtain cw where cw: "call_in (cache_run ops opts s es) w = Some cw" "cl_meta cw = Some Miss"
    "cacheKey opts (cl_request cw) = cacheKey opts (cl_request cl)" "cl_meta cl = Some Coalesced"
    using soundD [OF assms(1,2)] assms(3) by (auto simp: call_sound_def)
  have same: ?thesis if "resume opts c cl (cache_run ops opts s es) = cache_run ops opts s es"
    using that assms(2) by (intro sound_same [OF assms(1)]) (simp add: with_call_def)
  show ?thesis
  proof (cases "cl_stage cw")
    case (Answered r)
    have "call_sound ops opts s (es @ [Resume c]) w cw"
      by (rule sound_snoc [OF assms(1) soundD [OF assms(1) cw(1)]])
    then have "call_sound ops opts s (es @ [Resume c]) c (cl\<lparr>cl_stage := Answered r\<rparr>)"
      using Answered cw(2,4) gave_key [OF _ cw(3) [symmetric]] by (cases r) (simp_all add: call_sound_def)
    then show ?thesis
      using assms(3) cw(1) Answered by (intro sound_resume_put [OF assms(1,2), of "cl\<lparr>cl_stage := Answered r\<rparr>"]) (simp_all add: resume_def)
  qed (use assms(3) cw(1) in \<open>simp_all add: same resume_def\<close>)
qed

lemma sound_resume:
  assumes "calls_sound ops opts s es"
  shows "calls_sound ops opts s (es @ [Resume c])"
proof (cases "call_in (cache_run ops opts s es) c")
  case None
  then show ?thesis
    by (intro sound_same [OF assms]) (simp add: with_call_def)
next
  case (Some cl)
  have cl: "call_sound ops opts s (es @ [Resume c]) c cl"
    by (rule sound_snoc [OF assms soundD [OF assms Some]])
  have same: ?thesis if "resume opts c cl (cache_run ops opts s es) = cache_run ops opts s es"
    using that Some by (intro sound_same [OF assms]) (simp add: with_call_def)
  have finish: ?thesis if "resume opts c cl (cache_run ops opts s es) = finish_run opts c cl r (cache_run ops opts s es)"
      "call_sound ops opts s (es @ [Resume c]) c (cl\<lparr>cl_stage := Answered r\<rparr>)" for r
    using that by (intro sound_resume_put [OF assms Some, of "cl\<lparr>cl_stage := Answered r\<rparr>"]) (simp_all add: finish_run_def put_call_def)
  show ?thesis
  proof (cases "cl_stage cl")
    case (Storing v)
    then show ?thesis
      using cl by (intro finish [of "Inr v"]) (simp_all add: resume_def call_sound_def)
  next
    case (Failing err)
    then show ?thesis
      using cl by (intro finish [of "Inl err"]) (simp_all add: resume_def call_sound_def)
  qed (simp_all add: same resume_def sound_resume_looked [OF assms Some] sound_resume_joined [OF assms Some])
qed

lemma resume_store: "rc_store (resume opts c cl st) = rc_store st"
  by (simp add: resume_def looked_up_def finish_run_def split: option.split call_stage.split)

lemma operation_settled_store:
  assumes "rc_store (operation_settled ops opts c cl result t st) \<noteq> rc_store st"
  obtains v s where "cl_stage cl = Running" "result = Inr v"
    "op_set ops (cacheKey opts (cl_request cl)) v (ca_ttlMs opts) t (rc_store st) = Some s" "rc_store (operation_settled ops opts c cl result t st) = s"
proof (cases "cl_stage cl")
  case Running
  then obtain v where v: "result = Inr v"
    using assms by (cases result) (simp_all add: operation_settled_def)
  show thesis
    using that [OF Running v] assms Running v
    by (cases "op_set ops (cacheKey opts (cl_request cl)) v (ca_ttlMs opts) t (rc_store st)") (simp_all add: operation_settled_def)
qed (use assms in \<open>simp_all add: operation_settled_def\<close>)

context response_store
begin

lemma store_step:
  assumes "held (rc_store (cache_step ops opts ev st)) k = Some (v, x)"
  shows "held (rc_store st) k = Some (v, x) \<and> ev \<noteq> ClearStore \<and> ev \<noteq> DeleteKey k
    \<or> (\<exists>c cl t. ev = OperationSettled c (Inr v) t \<and> call_in st c = Some cl \<and> cl_stage cl = Running
        \<and> cacheKey opts (cl_request cl) = k \<and> x = t + ca_ttlMs opts)"
proof (cases ev)
  case (Arrive c req now)
  obtain s' hit where get: "op_get ops (cacheKey opts req) now (rc_store st) = (s', hit)"
    by fastforce
  have "rc_store (cache_step ops opts ev st) \<in> {rc_store st, s'}"
    using Arrive get by (simp add: arrive_def)
  then show ?thesis
    using Arrive assms get_held [OF get, of k "(v, x)"] by auto
next
  case (OperationSettled c result t)
  show ?thesis
  proof (cases "rc_store (cache_step ops opts ev st) = rc_store st")
    case False
    then obtain cl where "call_in st c = Some cl" "rc_store (operation_settled ops opts c cl result t st) \<noteq> rc_store st"
      using OperationSettled by (cases "call_in st c") (simp_all add: with_call_def)
    moreover from this(2) obtain u s' where s': "cl_stage cl = Running" "result = Inr u"
      "op_set ops (cacheKey opts (cl_request cl)) u (ca_ttlMs opts) t (rc_store st) = Some s'" "rc_store (operation_settled ops opts c cl result t st) = s'"
      by (rule operation_settled_store)
    ultimately show ?thesis
      using OperationSettled assms set_held [OF s'(3), of k "(v, x)"] by (auto simp: with_call_def)
  qed (use OperationSettled assms in simp)
next
  case (Resume c)
  then show ?thesis
    using assms by (simp add: with_call_def resume_store split: option.splits)
next
  case ClearStore
  then show ?thesis
    using assms clear_held by simp
next
  case (DeleteKey k')
  then show ?thesis
    using assms delete_held [of k' "rc_store st" k "(v, x)"] by auto
qed

text \<open>What the store holds is what the operation gave, and nothing has been invalidated since.\<close>

lemma store_from:
  assumes "\<forall>k. held s k = None"
  shows "held (rc_store (cache_run ops opts s es)) k = Some (v, x) \<Longrightarrow>
    \<exists>rq t later. produced ops opts s es rq v t later \<and> cacheKey opts rq = k \<and> x = t + ca_ttlMs opts \<and> untouched k later"
proof (induction es rule: rev_induct)
  case Nil
  then show ?case
    using assms by (simp add: fresh_route_def)
next
  case (snoc ev es)
  from snoc.prems have "held (rc_store (cache_step ops opts ev (cache_run ops opts s es))) k = Some (v, x)"
    by simp
  from store_step [OF this] show ?case
  proof (elim disjE exE conjE)
    assume ev: "held (rc_store (cache_run ops opts s es)) k = Some (v, x)" "ev \<noteq> ClearStore" "ev \<noteq> DeleteKey k"
    from snoc.IH [OF ev(1)] obtain rq t later where
      p: "produced ops opts s es rq v t later" "cacheKey opts rq = k" "x = t + ca_ttlMs opts" "untouched k later"
      by blast
    then show ?thesis
      using ev(2,3) produced_snoc [OF p(1), of ev]
      by (intro exI [of _ rq] exI [of _ t] exI [of _ "later @ [ev]"]) (simp add: untouched_def)
  next
    fix c cl t
    assume "ev = OperationSettled c (Inr v) t" "call_in (cache_run ops opts s es) c = Some cl" "cl_stage cl = Running"
      "cacheKey opts (cl_request cl) = k" "x = t + ca_ttlMs opts"
    then have "produced ops opts s (es @ [ev]) (cl_request cl) v t []"
      by (auto simp: produced_def)
    then show ?thesis
      using \<open>cacheKey opts (cl_request cl) = k\<close> \<open>x = t + ca_ttlMs opts\<close>
      by (intro exI [of _ "cl_request cl"] exI [of _ t] exI [of _ "[]"]) (simp add: untouched_def)
  qed
qed

lemma sound_arrive:
  assumes "\<forall>k. held s k = None" "calls_sound ops opts s es"
  shows "calls_sound ops opts s (es @ [Arrive c rq now])"
proof (cases "call_in (cache_run ops opts s es) c = None")
  case new: True
  show ?thesis
  proof (cases "toUpperCase (rq_method rq) \<in> set CACHEABLE_METHODS")
    case True
    obtain s' hit where get: "op_get ops (cacheKey opts rq) now (rc_store (cache_run ops opts s es)) = (s', hit)"
      by fastforce
    have "hit_from ops opts s (es @ [Arrive c rq now]) c rq v" if v: "hit = Some v" for v
    proof -
      obtain x where x: "held (rc_store (cache_run ops opts s es)) (cacheKey opts rq) = Some (v, x)" "now < x"
        using get_answer get v by blast
      then obtain rq' t later where "produced ops opts s es rq' v t later" "cacheKey opts rq' = cacheKey opts rq" "now < t + ca_ttlMs opts" "untouched (cacheKey opts rq) later"
        using store_from [OF assms(1)] by blast
      then show ?thesis
        unfolding hit_from_def by blast
    qed
    then show ?thesis
      using new True get by (intro sound_put [OF assms(2), of _ c "\<lparr>cl_request = rq, cl_meta = None, cl_stage = Looked hit\<rparr>"])
        (simp_all add: arrive_def call_sound_def put_store split: option.split)
  next
    case False
    then show ?thesis
      using new by (intro sound_put [OF assms(2), of _ c "\<lparr>cl_request = rq, cl_meta = Some Bypass, cl_stage = Passing\<rparr>"])
        (simp_all add: arrive_def call_sound_def)
  qed
next
  case False
  then show ?thesis
    by (intro sound_same [OF assms(2)]) (simp add: arrive_def)
qed

lemma sound_run:
  assumes "\<forall>k. held s k = None"
  shows "calls_sound ops opts s es"
proof (induction es rule: rev_induct)
  case Nil
  then show ?case
    by (simp add: calls_sound_def fresh_route_def)
next
  case (snoc ev es)
  then show ?case
    by (cases ev) (simp_all add: sound_arrive [OF assms] sound_operation_settled sound_resume sound_same)
qed

end

section \<open>What callers get\<close>

lemma new_cache_empty: "new_MemoryCacheStore n = Inr s \<Longrightarrow> \<forall>k. memory_held s k = None"
  by (auto simp: new_MemoryCacheStore_def memory_held_def split: if_splits)

text \<open>
  C18: what is answered from the cache is recent. If a call gets a hit, some call with the same key ran the operation with
  that result, less than the time to live before the request arrived, and the store was neither cleared nor
  the key deleted between the end of that run and the request. So a failure is never answered from the cache.
\<close>

theorem cached_answer_is_recent:
  assumes "new_MemoryCacheStore n = Inr s"
    and "call_in (cache_run memory_ops opts s es) c = Some cl" "cl_meta cl = Some Hit" "cl_stage cl = Answered r"
  shows "\<exists>v before now after rq t later. r = Inr v \<and> es = before @ Arrive c (cl_request cl) now # after
    \<and> produced memory_ops opts s before rq v t later \<and> cacheKey opts rq = cacheKey opts (cl_request cl)
    \<and> now < t + ca_ttlMs opts \<and> untouched (cacheKey opts (cl_request cl)) later"
proof -
  have "call_sound memory_ops opts s es c cl"
    by (rule soundD [OF lru.sound_run [OF new_cache_empty [OF assms(1)]] assms(2)])
  then obtain v where "r = Inr v" "hit_from memory_ops opts s es c (cl_request cl) v"
    using assms(3,4) by (cases r) (auto simp: call_sound_def)
  then show ?thesis
    unfolding hit_from_def by blast
qed

text \<open>
  The default key joins its parts with colons and escapes nothing. Its parts can be told apart when no user id has a colon
  and none reads as the name of the anonymous bucket.
\<close>

definition principal_ok :: "route_request \<Rightarrow> bool" where
  "principal_ok rq \<longleftrightarrow> (case rq_userId rq of None \<Rightarrow> True | Some u \<Rightarrow> CHR '':'' \<notin> set u \<and> u \<noteq> ''anonymous'')"

definition method_ok :: "route_request \<Rightarrow> bool" where
  "method_ok rq \<longleftrightarrow> toUpperCase (rq_method rq) \<in> set CACHEABLE_METHODS"

lemma principal_free: "principal_ok rq \<Longrightarrow> CHR '':'' \<notin> set (principal rq)"
  by (cases "rq_userId rq") (simp_all add: principal_ok_def principal_def)

lemma principal_inj: "principal_ok rq \<Longrightarrow> principal_ok rq' \<Longrightarrow> principal rq = principal rq' \<Longrightarrow> rq_userId rq = rq_userId rq'"
  by (cases "rq_userId rq"; cases "rq_userId rq'") (simp_all add: principal_ok_def principal_def)

lemma verb_free:
  assumes "method_ok rq"
  shows "CHR '':'' \<notin> set (toUpperCase (rq_method rq))"
proof -
  have "\<forall>verb \<in> set CACHEABLE_METHODS. CHR '':'' \<notin> set verb"
    by code_simp
  then show ?thesis
    using assms unfolding method_ok_def by blast
qed

lemma key_injective:
  assumes "ca_key opts = defaultCacheKey" "cacheKey opts rq = cacheKey opts rq'" "principal_ok rq" "principal_ok rq'" "method_ok rq" "method_ok rq'"
  shows "rq_userId rq = rq_userId rq' \<and> toUpperCase (rq_method rq) = toUpperCase (rq_method rq') \<and> rq_originalUrl rq = rq_originalUrl rq'"
proof -
  have "principal rq @ CHR '':'' # (toUpperCase (rq_method rq) @ CHR '':'' # rq_originalUrl rq)
      = principal rq' @ CHR '':'' # (toUpperCase (rq_method rq') @ CHR '':'' # rq_originalUrl rq')"
    using assms(1,2) by (simp add: cacheKey_def defaultCacheKey_def principal_def)
  note cut = cut_first [OF this principal_free [OF assms(3)] principal_free [OF assms(4)]]
  show ?thesis
    using principal_inj [OF assms(3,4) conjunct1 [OF cut]] cut_first [OF conjunct2 [OF cut] verb_free [OF assms(5)] verb_free [OF assms(6)]] by simp
qed

text \<open>
  The condition is needed. A user whose id is \<open>anonymous\<close> has the keys of the requests without a user; and if an id continues
  that of another user with a verb and the start of a path, each key of the one is a key of the other.
\<close>

lemma keys_of_anonymous_user:
  "defaultCacheKey \<lparr>rq_userId = Some ''anonymous'', rq_method = verb, rq_originalUrl = url\<rparr> =
     defaultCacheKey \<lparr>rq_userId = None, rq_method = verb, rq_originalUrl = url\<rparr>"
  by (simp add: defaultCacheKey_def principal_def)

lemma keys_of_continued_user:
  "defaultCacheKey \<lparr>rq_userId = Some (u @ '':'' @ toUpperCase verb @ '':'' @ path), rq_method = verb', rq_originalUrl = url\<rparr> =
     defaultCacheKey \<lparr>rq_userId = Some u, rq_method = verb, rq_originalUrl = path @ '':'' @ toUpperCase verb' @ '':'' @ url\<rparr>"
  by (simp add: defaultCacheKey_def principal_def)

lemma produced_prefix: "produced ops opts s es rq v t later \<Longrightarrow> produced ops opts s (es @ es') rq v t (later @ es')"
  by (auto simp: produced_def)

lemma others_untouched:
  "d \<noteq> c \<Longrightarrow> call_in (operation_settled ops opts d cd result t st) c = call_in st c"
  "d \<noteq> c \<Longrightarrow> call_in (resume opts d cd st) c = call_in st c"
proof -
  show "d \<noteq> c \<Longrightarrow> call_in (operation_settled ops opts d cd result t st) c = call_in st c"
    by (cases "cl_stage cd"; cases result) (simp_all add: operation_settled_def split: option.split)
  show "d \<noteq> c \<Longrightarrow> call_in (resume opts d cd st) c = call_in st c"
    by (cases "cl_stage cd") (simp_all add: resume_def looked_up_def finish_run_def split: option.split call_stage.split)
qed

lemma new_call:
  assumes "call_in st c = None" "call_in (cache_step ops opts ev st) c = Some cl"
  shows "(\<exists>now. ev = Arrive c (cl_request cl) now) \<and> (method_ok (cl_request cl) \<or> cl_meta cl = Some Bypass)"
proof (cases ev)
  case (Arrive d req now)
  then show ?thesis
    using assms by (auto simp: arrive_def method_ok_def split: if_splits prod.splits)
next
  case (OperationSettled d result t)
  then show ?thesis
    using assms by (cases "d = c"; cases "call_in st d") (simp_all add: with_call_def others_untouched)
next
  case (Resume d)
  then show ?thesis
    using assms by (cases "d = c"; cases "call_in st d") (simp_all add: with_call_def others_untouched)
qed (use assms in simp_all)

text \<open>The request of a call is one that has arrived.\<close>

lemma call_arrived: "call_in (cache_run ops opts s es) c = Some cl \<Longrightarrow> \<exists>now. Arrive c (cl_request cl) now \<in> set es"
proof (induction es arbitrary: cl rule: rev_induct)
  case Nil
  then show ?case
    by (simp add: fresh_route_def)
next
  case (snoc ev es)
  show ?case
  proof (cases "call_in (cache_run ops opts s es) c")
    case None
    then have "\<exists>now. ev = Arrive c (cl_request cl) now"
      using snoc.prems new_call [of "cache_run ops opts s es" c] by simp
    then show ?thesis
      by auto
  next
    case (Some cl')
    then show ?thesis
      using snoc step_keeps_call [OF Some, of ops opts ev] by auto
  qed
qed

lemma run_has_verb:
  fixes es :: "('v, 'e) cache_event list"
  assumes "\<And>es :: ('v, 'e) cache_event list. calls_sound ops opts s es"
  shows "call_in (cache_run ops opts s es) c = Some cl \<Longrightarrow> method_ok (cl_request cl) \<or> cl_meta cl = Some Bypass"
proof (induction es arbitrary: cl rule: rev_induct)
  case Nil
  then show ?case
    by (simp add: fresh_route_def)
next
  case (snoc ev es)
  show ?case
  proof (cases "call_in (cache_run ops opts s es) c")
    case None
    then show ?thesis
      using snoc.prems new_call [of "cache_run ops opts s es" c ops opts ev cl] by simp
  next
    case (Some cl')
    have "cl_stage cl' = Looked h \<Longrightarrow> cl_meta cl' = None" for h
      using soundD [OF assms Some] by (simp add: call_sound_def)
    then show ?thesis
      using snoc.prems snoc.IH [OF Some] step_keeps_call [OF Some, of ops opts ev] by auto
  qed
qed

lemma produced_by_verb:
  fixes es :: "('v, 'e) cache_event list"
  assumes "\<And>es :: ('v, 'e) cache_event list. calls_sound ops opts s es" "produced ops opts s es rq v t later"
  shows "method_ok rq"
proof -
  obtain before :: "('v, 'e) cache_event list" and w cl where cl: "call_in (cache_run ops opts s before) w = Some cl" "cl_stage cl = Running" "cl_request cl = rq"
    using assms(2) unfolding produced_def by blast
  have "cl_meta cl = Some Miss"
    using soundD [OF assms(1) cl(1)] cl(2) by (simp add: call_sound_def)
  then show ?thesis
    using run_has_verb [OF assms(1) cl(1)] cl(3) by simp
qed

lemma produced_arrived:
  assumes "produced ops opts s es rq v t later"
  shows "\<exists>c now. Arrive c rq now \<in> set es"
proof -
  obtain before w cl where p: "es = before @ OperationSettled w (Inr v) t # later" "call_in (cache_run ops opts s before) w = Some cl" "cl_request cl = rq"
    using assms unfolding produced_def by blast
  then show ?thesis
    using call_arrived [OF p(2)] by auto
qed

text \<open>
  C17: no user is answered with what was computed for another. Whatever a call that went through the cache answers, be it
  a hit, its own run or one that it joined, the operation was run with that result for a request with the same
  key. With the default key, if the user ids of the two requests have no colon and are not the word \<open>anonymous\<close>, that request was of
  the same user (or, for an anonymous request, an anonymous one), the same verb and the same URL. Without
  that condition on the ids the keys of two users can coincide (\<open>keys_of_anonymous_user\<close>, \<open>keys_of_continued_user\<close>).
\<close>

theorem answers_stay_with_their_user:
  fixes es :: "('a, 'b) cache_event list"
  assumes "new_MemoryCacheStore n = Inr s"
    and "call_in (cache_run memory_ops opts s es) c = Some cl" "cl_meta cl \<noteq> Some Bypass" "cl_stage cl = Answered (Inr v)"
  shows "\<exists>rq t later. produced memory_ops opts s es rq v t later \<and> cacheKey opts rq = cacheKey opts (cl_request cl)
    \<and> (ca_key opts = defaultCacheKey \<and> principal_ok rq \<and> principal_ok (cl_request cl) \<longrightarrow>
         rq_userId rq = rq_userId (cl_request cl) \<and> toUpperCase (rq_method rq) = toUpperCase (rq_method (cl_request cl))
         \<and> rq_originalUrl rq = rq_originalUrl (cl_request cl))"
proof -
  have sound: "calls_sound memory_ops opts s es'" for es' :: "('a, 'b) cache_event list"
    by (rule lru.sound_run [OF new_cache_empty [OF assms(1)]])
  have cl: "call_sound memory_ops opts s es c cl"
    by (rule soundD [OF sound assms(2)])
  have "gave memory_ops opts s es (cl_request cl) v"
  proof (cases "cl_meta cl = Some Hit")
    case True
    then have "hit_from memory_ops opts s es c (cl_request cl) v"
      using cl assms(4) by (simp add: call_sound_def)
    then show ?thesis
      unfolding hit_from_def gave_def by (blast intro: produced_prefix)
  next
    case False
    then show ?thesis
      using cl assms(3,4) by (simp add: call_sound_def)
  qed
  then obtain rq t later where p: "produced memory_ops opts s es rq v t later" "cacheKey opts rq = cacheKey opts (cl_request cl)"
    by (auto simp: gave_def)
  moreover have "method_ok rq" "method_ok (cl_request cl)"
    using produced_by_verb [OF sound p(1)] run_has_verb [OF sound assms(2)] assms(3) by simp_all
  ultimately show ?thesis
    using key_injective [OF _ p(2)] by blast
qed

section \<open>Clearing under a run in progress\<close>

lemma cache_drop_max: "mc_maxEntries (cache_delete k s) = mc_maxEntries s" "mc_maxEntries (cache_clear s) = mc_maxEntries s"
  by (simp_all add: cache_delete_def cache_clear_def)

lemma run_cache_ok:
  assumes "new_MemoryCacheStore n = Inr s"
  shows "cache_ok (rc_store (cache_run memory_ops opts s es)) \<and> mc_maxEntries (rc_store (cache_run memory_ops opts s es)) = nat n"
proof (induction es rule: rev_induct)
  case Nil
  then show ?case
    using new_cache_ok [OF assms] assms by (auto simp: fresh_route_def new_MemoryCacheStore_def split: if_splits)
next
  case (snoc ev es)
  let ?st = "cache_run memory_ops opts s es"
  show ?case
  proof (cases ev)
    case (Arrive c rq now)
    then show ?thesis
      using snoc cache_get_ok [of "rc_store ?st" "cacheKey opts rq" now]
      by (simp add: arrive_def memory_ops_def case_prod_beta)
  next
    case (OperationSettled c result t)
    show ?thesis
    proof (cases "call_in ?st c")
      case (Some cl)
      show ?thesis
      proof (cases "rc_store (operation_settled memory_ops opts c cl result t ?st) = rc_store ?st")
        case False
        then obtain v s' where "op_set memory_ops (cacheKey opts (cl_request cl)) v (ca_ttlMs opts) t (rc_store ?st) = Some s'"
          "rc_store (operation_settled memory_ops opts c cl result t ?st) = s'"
          by (rule operation_settled_store)
        then show ?thesis
          using OperationSettled Some snoc cache_set_ok [of "rc_store ?st"] by (simp add: with_call_def memory_ops_def)
      qed (use OperationSettled Some snoc in \<open>simp add: with_call_def\<close>)
    qed (use OperationSettled snoc in \<open>simp add: with_call_def\<close>)
  next
    case (Resume c)
    then show ?thesis
      using snoc by (simp add: with_call_def resume_store split: option.split)
  qed (use snoc in \<open>simp_all add: memory_ops_def cache_drop_ok cache_drop_max\<close>)
qed

text \<open>The keys of the requests of a run, and what leaves the entry of a key alone until the time \<open>x\<close>.\<close>

definition keys_requested :: "cache_options \<Rightarrow> ('v, 'e) cache_event list \<Rightarrow> string set" where
  "keys_requested opts es = set (concat (map (\<lambda>ev. case ev of Arrive c rq now \<Rightarrow> [cacheKey opts rq] | _ \<Rightarrow> []) es))"

fun leaves_entry :: "cache_options \<Rightarrow> string \<Rightarrow> int \<Rightarrow> ('v, 'e) cache_event list \<Rightarrow> ('v, 'e) cache_event \<Rightarrow> bool" where
  "leaves_entry opts k x es (Arrive c rq now) = (now < x)"
| "leaves_entry opts k x es (OperationSettled d result t) =
     list_all (\<lambda>ev. case ev of Arrive c rq now \<Rightarrow> c = d \<longrightarrow> cacheKey opts rq \<noteq> k | _ \<Rightarrow> True) es"
| "leaves_entry opts k x es (Resume c) = True"
| "leaves_entry opts k x es ClearStore = False"
| "leaves_entry opts k x es (DeleteKey k') = (k' \<noteq> k)"

definition undisturbed :: "cache_options \<Rightarrow> string \<Rightarrow> int \<Rightarrow> ('v, 'e) cache_event list \<Rightarrow> ('v, 'e) cache_event list \<Rightarrow> bool" where
  "undisturbed opts k x es later \<longleftrightarrow> list_all (leaves_entry opts k x es) later"

lemma key_requested: "Arrive c rq now \<in> set es \<Longrightarrow> cacheKey opts rq \<in> keys_requested opts es"
  by (force simp: keys_requested_def)

lemma keys_requested_append [simp]: "keys_requested opts (es @ es') = keys_requested opts es \<union> keys_requested opts es'"
  by (simp add: keys_requested_def)

lemma keys_finite [simp]: "finite (keys_requested opts es)"
  unfolding keys_requested_def by (rule finite_set)

lemma stored_keys_requested:
  assumes "new_MemoryCacheStore n = Inr s"
  shows "fst ` set (mc_entries (rc_store (cache_run memory_ops opts s es))) \<subseteq> keys_requested opts es"
proof
  fix k
  assume "k \<in> fst ` set (mc_entries (rc_store (cache_run memory_ops opts s es)))"
  then obtain e where "js_get (mc_entries (rc_store (cache_run memory_ops opts s es))) k = Some e"
    by (metis map_of_eq_None_iff not_None_eq)
  then have "memory_held (rc_store (cache_run memory_ops opts s es)) k = Some (se_value e, se_expiresAt e)"
    by (simp add: memory_held_def)
  from lru.store_from [OF new_cache_empty [OF assms] this]
  obtain rq t later where p: "produced memory_ops opts s es rq (se_value e) t later" "cacheKey opts rq = k"
    by blast
  then obtain c now where "Arrive c rq now \<in> set es"
    using produced_arrived [OF p(1)] by blast
  then show "k \<in> keys_requested opts es"
    using key_requested p(2) by metis
qed

text \<open>A store with room for every key that is asked for evicts nothing.\<close>

lemma no_eviction:
  assumes "new_MemoryCacheStore n = Inr s" "int (card (keys_requested opts es)) \<le> n" "k \<in> keys_requested opts es"
    "cache_set k v ttl t (rc_store (cache_run memory_ops opts s es)) = Some s'"
  shows "mc_entries s' = js_set k \<lparr>se_value = v, se_expiresAt = t + ttl\<rparr> (js_delete k (mc_entries (rc_store (cache_run memory_ops opts s es))))"
proof -
  let ?m = "mc_entries (rc_store (cache_run memory_ops opts s es))"
  let ?m' = "js_set k \<lparr>se_value = v, se_expiresAt = t + ttl\<rparr> (js_delete k ?m)"
  have ok: "js_ok ?m" and mx: "mc_maxEntries (rc_store (cache_run memory_ops opts s es)) = nat n"
    using run_cache_ok [OF assms(1), of opts es] by (simp_all add: cache_ok_def)
  have ok': "js_ok ?m'"
    using ok by simp
  have "fst ` set ?m' \<subseteq> keys_requested opts es"
    unfolding reinserted using stored_keys_requested [OF assms(1), of opts es] assms(3) by (auto simp: AList.delete_eq)
  then have "card (fst ` set ?m') \<le> card (keys_requested opts es)"
    by (intro card_mono) simp_all
  moreover have "card (fst ` set ?m') = length ?m'"
    using distinct_card [of "map fst ?m'"] ok' by (simp add: js_ok_def)
  ultimately have "length ?m' \<le> nat n"
    using assms(2) by linarith
  then show ?thesis
    using assms(4) mx by (auto simp: cache_set_def evictIfNeeded_def split: if_splits)
qed

lemma entry_stays:
  assumes "new_MemoryCacheStore n = Inr s" "int (card (keys_requested opts es)) \<le> n"
    and "undisturbed opts k (se_expiresAt e) es [ev]"
    and "js_get (mc_entries (rc_store (cache_run memory_ops opts s es))) k = Some e"
  shows "js_get (mc_entries (rc_store (cache_step memory_ops opts ev (cache_run memory_ops opts s es)))) k = Some e"
proof (cases ev)
  case (Arrive c rq now)
  then have "now < se_expiresAt e"
    using assms(3) by (simp add: undisturbed_def)
  then show ?thesis
    using Arrive assms(4) by (auto simp: arrive_def memory_ops_def cache_get_def split: option.split)
next
  case (OperationSettled d result t)
  let ?st = "cache_run memory_ops opts s es"
  show ?thesis
  proof (cases "call_in ?st d")
    case (Some cd)
    then obtain now where arrived: "Arrive d (cl_request cd) now \<in> set es"
      using call_arrived [OF Some] by blast
    then have other: "cacheKey opts (cl_request cd) \<noteq> k"
      using OperationSettled assms(3) by (auto simp: undisturbed_def list_all_iff)
    show ?thesis
    proof (cases "rc_store (operation_settled memory_ops opts d cd result t ?st) = rc_store ?st")
      case False
      then obtain v s' where s': "op_set memory_ops (cacheKey opts (cl_request cd)) v (ca_ttlMs opts) t (rc_store ?st) = Some s'"
        "rc_store (operation_settled memory_ops opts d cd result t ?st) = s'"
        by (rule operation_settled_store)
      then show ?thesis
        using no_eviction [OF assms(1,2) key_requested [OF arrived], of v "ca_ttlMs opts" t s'] OperationSettled Some other assms(4)
        by (simp add: with_call_def memory_ops_def)
    qed (use OperationSettled Some assms(4) in \<open>simp add: with_call_def\<close>)
  qed (use OperationSettled assms(4) in \<open>simp add: with_call_def\<close>)
next
  case (Resume c)
  then show ?thesis
    using assms(4) by (simp add: with_call_def resume_store split: option.split)
next
  case (DeleteKey k')
  then show ?thesis
    using assms(3,4) by (simp add: undisturbed_def memory_ops_def cache_delete_def)
qed (use assms(3) in \<open>simp add: undisturbed_def\<close>)

lemma keys_of_part:
  assumes "int (card (keys_requested opts (es @ later))) \<le> n"
  shows "int (card (keys_requested opts es)) \<le> n"
proof -
  have "card (keys_requested opts es) \<le> card (keys_requested opts (es @ later))"
    by (intro card_mono) (simp_all del: keys_requested_append, simp)
  then show ?thesis
    using assms by linarith
qed

lemma leaves_entry_part: "leaves_entry opts k x (es @ es') ev \<Longrightarrow> leaves_entry opts k x es ev"
  by (cases ev) simp_all

lemma undisturbed_part:
  "undisturbed opts k x (es @ more') (later @ newest) \<Longrightarrow> undisturbed opts k x es later \<and> undisturbed opts k x es newest"
  using leaves_entry_part unfolding undisturbed_def list_all_append by (metis (no_types, lifting) list.pred_mono_strong)

lemma entry_stays_run:
  assumes "new_MemoryCacheStore n = Inr s" "js_get (mc_entries (rc_store (cache_run memory_ops opts s es))) k = Some e"
  shows "int (card (keys_requested opts (es @ later))) \<le> n \<Longrightarrow> undisturbed opts k (se_expiresAt e) (es @ later) later
    \<Longrightarrow> js_get (mc_entries (rc_store (cache_run memory_ops opts s (es @ later)))) k = Some e"
proof (induction later rule: rev_induct)
  case Nil
  then show ?case
    using assms(2) by simp
next
  case (snoc ev later)
  have card: "int (card (keys_requested opts (es @ later))) \<le> n"
    using snoc.prems(1) by (intro keys_of_part [of opts "es @ later" "[ev]"]) simp
  have calm: "undisturbed opts k (se_expiresAt e) (es @ later) later" "undisturbed opts k (se_expiresAt e) (es @ later) [ev]"
    using undisturbed_part [of opts k "se_expiresAt e" "es @ later" "[ev]" later "[ev]"] snoc.prems(2) by simp_all
  show ?case
    using entry_stays [OF assms(1) card calm(2) snoc.IH [OF card calm(1)]] by simp
qed

text \<open>Only the end of its operation moves a call on from its run.\<close>

lemma running_step:
  assumes "call_in st w = Some cl" "cl_stage cl = Running" "\<And>r t. ev \<noteq> OperationSettled w r t"
  shows "call_in (cache_step ops opts ev st) w = Some cl"
proof (cases ev)
  case (Arrive c rq now)
  then show ?thesis
    using assms(1) by (auto simp: arrive_def case_prod_beta)
next
  case (OperationSettled d result t)
  then show ?thesis
    using assms(1) assms(3) [of result t] by (cases "call_in st d") (auto simp: with_call_def others_untouched)
next
  case (Resume d)
  then show ?thesis
    using assms(1,2) by (cases "call_in st d"; cases "d = w") (simp_all add: with_call_def others_untouched, simp add: resume_def)
qed (use assms(1) in simp_all)

lemma running_run:
  assumes "call_in st w = Some cl" "cl_stage cl = Running"
  shows "\<forall>r t. OperationSettled w r t \<notin> set mid \<Longrightarrow> call_in (fold (cache_step ops opts) mid st) w = Some cl"
proof (induction mid rule: rev_induct)
  case Nil
  then show ?case
    using assms(1) by simp
next
  case (snoc ev mid)
  have "call_in (fold (cache_step ops opts) mid st) w = Some cl"
    using snoc by simp
  from running_step [OF this assms(2), of ev ops opts] show ?case
    using snoc.prems by auto
qed

text \<open>
  The store keeps what a run gives while it has room for every key that is asked for and nobody invalidates or rewrites
  the key; so it answers a new request with it until it expires.
\<close>

lemma stored_result_is_served:
  assumes new: "new_MemoryCacheStore n = Inr s" and ttl: "0 < ca_ttlMs opts"
    and w: "call_in (cache_run memory_ops opts s es) w = Some cl" "cl_stage cl = Running" and k: "k = cacheKey opts (cl_request cl)"
    and run: "run = es @ OperationSettled w (Inr v) t # later"
    and calm: "undisturbed opts k (t + ca_ttlMs opts) run later" and room: "int (card (keys_requested opts run)) \<le> n"
    and c: "call_in (cache_run memory_ops opts s run) c = None" "method_ok rq" "cacheKey opts rq = k" "now < t + ca_ttlMs opts"
  shows "call_in (cache_run memory_ops opts s (run @ [Arrive c rq now, Resume c])) c
    = Some \<lparr>cl_request = rq, cl_meta = Some Hit, cl_stage = Answered (Inr v)\<rparr>"
proof -
  let ?e = "\<lparr>se_value = v, se_expiresAt = t + ca_ttlMs opts\<rparr>"
  let ?es = "es @ [OperationSettled w (Inr v) t]"
  have ok: "cache_ok (rc_store (cache_run memory_ops opts s es))"
    using run_cache_ok [OF new] by blast
  obtain s' where s': "cache_set k v (ca_ttlMs opts) t (rc_store (cache_run memory_ops opts s es)) = Some s'"
    using ttl by (simp add: cache_set_def)
  then have "rc_store (cache_run memory_ops opts s ?es) = s'"
    using w k by (simp add: with_call_def operation_settled_def memory_ops_def)
  then have "js_get (mc_entries (rc_store (cache_run memory_ops opts s ?es))) k = Some ?e"
    using stored_entry_is_read [OF ok s'] by simp
  from entry_stays_run [OF new this, of later]
  have "js_get (mc_entries (rc_store (cache_run memory_ops opts s run))) k = Some ?e"
    using calm room run by simp
  then show ?thesis
    using c by (simp add: arrive_def method_ok_def memory_ops_def cache_get_def with_call_def resume_def looked_up_def)
qed

text \<open>
  C38: clearing the store does not reach the runs in progress. Take any run of the cache in which the call \<open>w\<close> is running its
  operation when the store is cleared: the read started before the write that the clearing follows. Whatever
  happens until the operation of \<open>w\<close> ends, a request for the same key that finds nothing in the store joins \<open>w\<close>. And when the
  operation ends with \<open>v\<close>, every new request for the key is answered \<open>v\<close> from the store until the time to live has passed,
  while nobody clears the store again, deletes the key or stores another result for it, and the store has
  room for all the keys that are asked for.
\<close>

theorem read_in_flight_survives_clear:
  assumes "new_MemoryCacheStore n = Inr s" "0 < ca_ttlMs opts"
    and "call_in (cache_run memory_ops opts s before) w = Some cl" "cl_stage cl = Running" "k = cacheKey opts (cl_request cl)"
    and "es = before @ ClearStore # mid" "\<forall>r t. OperationSettled w r t \<notin> set mid"
  shows "(\<forall>c cc. call_in (cache_run memory_ops opts s es) c = Some cc \<and> cl_stage cc = Looked None \<and> cacheKey opts (cl_request cc) = k \<longrightarrow>
      map_option cl_stage (call_in (cache_run memory_ops opts s (es @ [Resume c])) c) = Some (Joined w))
    \<and> (\<forall>v t later run c rq now. run = es @ OperationSettled w (Inr v) t # later \<and> undisturbed opts k (t + ca_ttlMs opts) run later
        \<and> int (card (keys_requested opts run)) \<le> n \<and> call_in (cache_run memory_ops opts s run) c = None
        \<and> method_ok rq \<and> cacheKey opts rq = k \<and> now < t + ca_ttlMs opts \<longrightarrow>
      call_in (cache_run memory_ops opts s (run @ [Arrive c rq now, Resume c])) c
        = Some \<lparr>cl_request = rq, cl_meta = Some Hit, cl_stage = Answered (Inr v)\<rparr>)"
proof -
  have w: "call_in (cache_run memory_ops opts s es) w = Some cl"
    using running_run [of "cache_run memory_ops opts s before" w cl "ClearStore # mid" memory_ops opts] assms(3,4,6,7) by simp
  have "js_get (rc_inFlight (cache_run memory_ops opts s es)) k = Some w"
    using flight_run [where ops = memory_ops and opts = opts and s = s and es = es] w assms(4,5) by (auto simp: flight_inv_def)
  then have "map_option cl_stage (call_in (cache_run memory_ops opts s (es @ [Resume c])) c) = Some (Joined w)"
    if "call_in (cache_run memory_ops opts s es) c = Some cc" "cl_stage cc = Looked None" "cacheKey opts (cl_request cc) = k" for c cc
    using that by (simp add: with_call_def resume_def looked_up_def)
  then show ?thesis
    using stored_result_is_served [OF assms(1,2) w assms(4,5)] by blast
qed

section \<open>Repeated attempts\<close>

lemma retry_loop_bound:
  "attempt \<le> mx \<Longrightarrow> fst (snd (retry_loop opts mx world attempt calls)) \<le> calls + (mx - attempt) + 1"
proof (induction opts mx world attempt calls rule: retry_loop.induct)
  case (1 opts mx world attempt calls)
  then show ?case
    by (subst retry_loop.simps) (auto split: sum.split)
qed

text \<open>A verb that may not be repeated is tried once, any other as often as the options say.\<close>

lemma withRetry_bound:
  assumes "withRetry_options opts = Inr opts"
  shows "fst (snd (withRetry opts verb world)) \<le> max_attempts opts verb"
    and "toUpperCase verb \<notin> set IDEMPOTENT_METHODS \<Longrightarrow> \<not> ro_retryNonIdempotent opts \<Longrightarrow> fst (snd (withRetry opts verb world)) \<le> 1"
  using retry_loop_bound [of 1 "max_attempts opts verb" opts world 0] assms
  by (auto simp: withRetry_def max_attempts_def withRetry_options_def split: if_splits)

text \<open>The answer is that of the last attempt, and every attempt before it failed in a way worth repeating.\<close>

lemma retry_loop_answer:
  "retry_loop opts mx world attempt calls = (Inr v, calls', m) \<Longrightarrow>
     \<exists>i. attempt \<le> i \<and> calls' = calls + (i - attempt) + 1 \<and> ra_result (world i) = Inr v
       \<and> (\<forall>j. attempt \<le> j \<and> j < i \<longrightarrow> (\<exists>err. ra_result (world j) = Inl err \<and> ro_isRetryable opts err))"
proof (induction opts mx world attempt calls rule: retry_loop.induct)
  case (1 opts mx world attempt calls)
  show ?case
  proof (cases "ra_result (world attempt)")
    case (Inr u)
    then show ?thesis
      using 1(2) by (subst (asm) retry_loop.simps) (auto split: if_splits)
  next
    case (Inl err)
    then have go: "\<not> ra_aborted_before (world attempt)" "\<not> (mx \<le> attempt \<or> ra_aborted_after (world attempt) \<or> \<not> ro_isRetryable opts err)"
      "\<not> ra_sleep_aborted (world attempt)" "retry_loop opts mx world (attempt + 1) (calls + 1) = (Inr v, calls', m)"
      using 1(2) by (subst (asm) retry_loop.simps, auto split: if_splits)+
    from 1(1) [OF go(1) Inl go(2,3,4)] obtain i where i: "attempt + 1 \<le> i" "calls' = calls + 1 + (i - (attempt + 1)) + 1" "ra_result (world i) = Inr v"
      "\<forall>j. attempt + 1 \<le> j \<and> j < i \<longrightarrow> (\<exists>err. ra_result (world j) = Inl err \<and> ro_isRetryable opts err)"
      by blast
    have "\<exists>err. ra_result (world j) = Inl err \<and> ro_isRetryable opts err" if "attempt \<le> j" "j < i" for j
      using that i(4) Inl go(2) by (cases "j = attempt") auto
    then show ?thesis
      using i(1-3) by (intro exI [of _ i]) auto
  qed
qed

section \<open>Witnesses\<close>

definition demo_cache :: "nat memory_cache" where
  "demo_cache = \<lparr>mc_entries = [(''a'', \<lparr>se_value = 1, se_expiresAt = 100\<rparr>), (''b'', \<lparr>se_value = 2, se_expiresAt = 100\<rparr>)], mc_maxEntries = 2\<rparr>"

theorem recently_used_entry_is_kept_witness:
  "snd (cache_get ''a'' 20 (fold do_call [SetKey ''c'' 3 50 10, SetKey ''c'' 4 50 11, GetKey ''c'' 12] (fst (cache_get ''a'' 5 demo_cache)))) = Some 1"
proof -
  have "cache_ok demo_cache" "js_get (mc_entries demo_cache) ''a'' = Some \<lparr>se_value = 1, se_expiresAt = 100\<rparr>" "mc_maxEntries demo_cache = 2"
    by (simp_all add: cache_ok_def js_ok_def demo_cache_def)
  then show ?thesis
    using recently_used_entry_is_kept [of demo_cache "''a''" "\<lparr>se_value = 1, se_expiresAt = 100\<rparr>" 5
        "[SetKey ''c'' 3 50 10, SetKey ''c'' 4 50 11, GetKey ''c'' 12]" 20] by simp
qed

definition demo_request :: "string \<Rightarrow> route_request" where
  "demo_request u = \<lparr>rq_userId = Some u, rq_method = ''get'', rq_originalUrl = ''/v1/users''\<rparr>"

definition demo_options :: cache_options where
  "demo_options = \<lparr>ca_ttlMs = 5000, ca_namespace = ''users'', ca_key = defaultCacheKey\<rparr>"

definition demo_store :: "nat memory_cache" where
  "demo_store = \<lparr>mc_entries = [], mc_maxEntries = 200\<rparr>"

text \<open>Two requests share a run, a third is answered from the store.\<close>

definition demo_events :: "(nat, nat) cache_event list" where
  "demo_events = [Arrive 1 (demo_request ''ann'') 0, Arrive 2 (demo_request ''ann'') 1, Resume 1, Resume 2,
     OperationSettled 1 (Inr 7) 10, Resume 1, Resume 2, Arrive 3 (demo_request ''ann'') 20, Resume 3]"

lemma demo_store_new: "new_MemoryCacheStore 200 = Inr demo_store"
  by (simp add: new_MemoryCacheStore_def demo_store_def)

lemma demo_answers:
  "call_in (cache_run memory_ops demo_options demo_store demo_events) 2 =
     Some \<lparr>cl_request = demo_request ''ann'', cl_meta = Some Coalesced, cl_stage = Answered (Inr 7)\<rparr>"
  "call_in (cache_run memory_ops demo_options demo_store demo_events) 3 =
     Some \<lparr>cl_request = demo_request ''ann'', cl_meta = Some Hit, cl_stage = Answered (Inr 7)\<rparr>"
  by code_simp+

theorem cached_answer_is_recent_witness:
  "\<exists>before now after rq t later. demo_events = before @ Arrive 3 (demo_request ''ann'') now # after
    \<and> produced memory_ops demo_options demo_store before rq 7 t later \<and> now < t + 5000"
  using cached_answer_is_recent [OF demo_store_new demo_answers(2)] by (simp add: demo_options_def) blast

text \<open>All requests are of \<open>ann\<close>, so the run that answered is one for \<open>ann\<close>.\<close>

theorem answers_stay_with_their_user_witness:
  "\<exists>rq t later. produced memory_ops demo_options demo_store demo_events rq 7 t later
     \<and> cacheKey demo_options rq = ''users:ann:GET:/v1/users'' \<and> rq_userId rq = Some ''ann''"
proof -
  have key: "cacheKey demo_options (demo_request ''ann'') = ''users:ann:GET:/v1/users''"
    by code_simp
  have opts: "ca_key demo_options = defaultCacheKey" and ok: "principal_ok (demo_request ''ann'')"
    by (simp_all add: demo_options_def principal_ok_def demo_request_def)
  obtain rq t later where p: "produced memory_ops demo_options demo_store demo_events rq 7 t later"
    "cacheKey demo_options rq = cacheKey demo_options (demo_request ''ann'')"
    "principal_ok rq \<longrightarrow> rq_userId rq = rq_userId (demo_request ''ann'')"
    using answers_stay_with_their_user [OF demo_store_new demo_answers(1)] opts ok by auto
  moreover have "principal_ok rq"
    using produced_arrived [OF p(1)] by (auto simp: demo_events_def ok)
  ultimately show ?thesis
    using key by (auto simp: demo_request_def)
qed

theorem one_run_per_key_witness:
  "js_get (rc_inFlight (cache_run memory_ops demo_options demo_store (take 4 demo_events))) ''users:ann:GET:/v1/users'' = Some 1"
proof -
  have c: "call_in (cache_run memory_ops demo_options demo_store (take 4 demo_events)) 1 =
     Some \<lparr>cl_request = demo_request ''ann'', cl_meta = Some Miss, cl_stage = Running\<rparr>"
    and k: "cacheKey demo_options (demo_request ''ann'') = ''users:ann:GET:/v1/users''"
    by code_simp+
  show ?thesis
    using one_run_per_key [OF c] k by simp
qed

theorem read_in_flight_survives_clear_witness:
  "map_option cl_stage (call_in (cache_run memory_ops demo_options demo_store
     ([Arrive 1 (demo_request ''ann'') 0, Resume 1, Arrive 2 (demo_request ''bob'') 1, ClearStore, Arrive 3 (demo_request ''ann'') 2] @ [Resume 3])) 3)
     = Some (Joined 1 :: (nat, nat) call_stage)
   \<and> call_in (cache_run memory_ops demo_options demo_store
     ([Arrive 1 (demo_request ''ann'') 0, Resume 1, Arrive 2 (demo_request ''bob'') 1, ClearStore, Arrive 3 (demo_request ''ann'') 2,
       OperationSettled 1 (Inr 7) 10, Resume 2, OperationSettled 2 (Inr 8) 11, Resume 1] @ [Arrive 4 (demo_request ''ann'') 20, Resume 4])) 4
     = Some \<lparr>cl_request = demo_request ''ann'', cl_meta = Some Hit, cl_stage = Answered (Inr 7) :: (nat, nat) call_stage\<rparr>"
proof -
  let ?before = "[Arrive 1 (demo_request ''ann'') 0, Resume 1, Arrive 2 (demo_request ''bob'') 1] :: (nat, nat) cache_event list"
  let ?es = "[Arrive 1 (demo_request ''ann'') 0, Resume 1, Arrive 2 (demo_request ''bob'') 1, ClearStore, Arrive 3 (demo_request ''ann'') 2]
    :: (nat, nat) cache_event list"
  let ?later = "[Resume 2, OperationSettled 2 (Inr 8) 11, Resume 1] :: (nat, nat) cache_event list"
  let ?run = "?es @ OperationSettled 1 (Inr 7) 10 # ?later"
  let ?key = "cacheKey demo_options (demo_request ''ann'')"
  have w: "call_in (cache_run memory_ops demo_options demo_store ?before) 1
      = Some \<lparr>cl_request = demo_request ''ann'', cl_meta = Some Miss, cl_stage = Running\<rparr>"
    by code_simp
  let ?cc = "\<lparr>cl_request = demo_request ''ann'', cl_meta = None, cl_stage = Looked None\<rparr> :: (nat, nat) cached_call"
  have looked: "call_in (cache_run memory_ops demo_options demo_store ?es) 3
      = Some \<lparr>cl_request = demo_request ''ann'', cl_meta = None, cl_stage = Looked None\<rparr>"
    by code_simp
  have calm: "undisturbed demo_options ?key (10 + ca_ttlMs demo_options) ?run ?later"
    by code_simp
  have room: "int (card (keys_requested demo_options ?run)) \<le> 200"
    by code_simp
  have fresh: "call_in (cache_run memory_ops demo_options demo_store ?run) 4 = None"
    by code_simp
  have ok: "method_ok (demo_request ''ann'')" "0 < ca_ttlMs demo_options" "20 < 10 + ca_ttlMs demo_options"
    by code_simp+
  let ?cl = "\<lparr>cl_request = demo_request ''ann'', cl_meta = Some Miss, cl_stage = Running\<rparr> :: (nat, nat) cached_call"
  have run: "cl_stage ?cl = Running" "?key = cacheKey demo_options (cl_request ?cl)"
    "?es = ?before @ ClearStore # [Arrive 3 (demo_request ''ann'') 2]" "\<forall>r t. OperationSettled 1 r t \<notin> set [Arrive 3 (demo_request ''ann'') 2]"
    by simp_all
  note both = read_in_flight_survives_clear [OF demo_store_new ok(2) w run]
  show ?thesis
  proof
    have "call_in (cache_run memory_ops demo_options demo_store ?es) 3 = Some ?cc \<and> cl_stage ?cc = Looked None \<and> cacheKey demo_options (cl_request ?cc) = ?key"
      using looked by (simp del: fold_simps)
    then show "map_option cl_stage (call_in (cache_run memory_ops demo_options demo_store (?es @ [Resume 3])) 3) = Some (Joined 1)"
      by (rule conjunct1 [OF both, rule_format])
    have "call_in (cache_run memory_ops demo_options demo_store (?run @ [Arrive 4 (demo_request ''ann'') 20, Resume 4])) 4
        = Some \<lparr>cl_request = demo_request ''ann'', cl_meta = Some Hit, cl_stage = Answered (Inr 7)\<rparr>"
      by (rule conjunct2 [OF both, rule_format, where t = 10 and later = ?later])
        (use calm room fresh ok in \<open>simp_all del: fold_simps\<close>)
    then show "call_in (cache_run memory_ops demo_options demo_store
     ([Arrive 1 (demo_request ''ann'') 0, Resume 1, Arrive 2 (demo_request ''bob'') 1, ClearStore, Arrive 3 (demo_request ''ann'') 2,
       OperationSettled 1 (Inr 7) 10, Resume 2, OperationSettled 2 (Inr 8) 11, Resume 1] @ [Arrive 4 (demo_request ''ann'') 20, Resume 4])) 4
     = Some \<lparr>cl_request = demo_request ''ann'', cl_meta = Some Hit, cl_stage = Answered (Inr 7) :: (nat, nat) call_stage\<rparr>"
      by (simp only: append.simps)
  qed
qed

end
