(* ===== verification/Spec2Isabelle.thy ===== *)
theory Spec2Isabelle
  imports Auth_Service Webhook_Signature Idempotency Circuit_Breaker Bulkhead Csv_Parser Byte_Range Worker_Pool Container Event_Stream Stream_Delivery Client_Circuit Content_Negotiation Field_Encryption Response_Cache
begin

text \<open>
  A verification development of \<open>boilerplate-express-ts\<close>, an Express and TypeScript service
  skeleton. Paths below are relative to \<open>src/src\<close>.

  \<^bold>\<open>The program.\<close> The repository is a set of mechanisms a service is assembled from. Requests enter
  through Express. The authentication service keeps sessions in a store of rotating refresh
  tokens. Webhook deliveries are verified by an HMAC over a canonical request and a guard against
  replays. Unsafe requests may carry an idempotency key, which a store turns into one execution and
  one recorded answer. Reads answer preconditions and byte ranges; events go out on server-sent
  event streams that a client can resume; the media type of an answer is negotiated; uploads are parsed by a streaming CSV parser. CPU work is
  handed to a pool of threads, events between processes go through Redis streams. Calls to other
  services go through an HTTP client with a bulkhead, a circuit breaker and jittered backoff. Sensitive
  columns are stored in encrypted envelopes, and the answers of read routes are cached. All of it is wired by a dependency-injection container.

  \<^bold>\<open>Conventions.\<close> An operation is a function from the state and the arguments to the new state and
  the result; a thrown error is the left of a sum or \<open>None\<close>. A reading of the clock, a draw of
  \<open>Math.random\<close>, a fresh identifier and the outcome of a call outside the repository are arguments.
  A promise is named by a number and its settlement is recorded in the state, so that the
  interleavings of an asynchronous component are sequences of its operations and events. Times are
  integers (milliseconds unless the source counts seconds); quantities the source lets be
  fractional are rationals, so the rounding of floating-point arithmetic is not modelled. Strings
  are lists of Latin-1 characters in headers and lists of code units in the CSV parser. A
  JavaScript \<open>Map\<close> is an association list in insertion order.

  \<^bold>\<open>The theories.\<close>

  \<^item> \<open>Prelude\<close>: the \<open>Map\<close> with its insertion order and its contract (locale \<open>keyed_store\<close>); the
    contracts of a state machine whose steps keep an invariant (\<open>step_invariant\<close> for functional
    steps, \<open>rel_invariant\<close> for step relations), which the components interpret.
  \<^item> \<open>Js_String\<close>: \<open>trim\<close>, \<open>split\<close>, \<open>indexOf\<close>, \<open>toLowerCase\<close>, decimal numerals.
  \<^item> \<open>Token_Store\<close> (\<open>auth/token-store.ts\<close>): every operation of the in-memory store. The locale
    \<open>refresh_store\<close> is the interface \<open>RefreshTokenStore\<close> with its laws; the store is an
    interpretation. A token rotates at most once over any history; a revoked family stays revoked;
    the sweep of expired records is not observable.
  \<^item> \<open>Auth_Service\<close> (\<open>auth/auth.service.ts\<close>, \<open>lib/jwt.ts\<close>): sessions over any \<open>refresh_store\<close>.
    \<open>refresh\<close> is split at its \<open>await\<close> into \<open>refresh_begin\<close> and \<open>refresh_resume\<close>, so that the
    interleaving of two refreshes can be stated: a reuse revokes the family, and a refresh that is
    suspended meanwhile puts one live token back into it.
  \<^item> \<open>Webhook_Signature\<close> (\<open>webhooks/signature.ts\<close>, \<open>signing-secrets.ts\<close>, \<open>sign-request.ts\<close>,
    \<open>replay-guard.ts\<close>, \<open>verify-signature.middleware.ts\<close>): canonical request, key ring, guard (locale
    \<open>nonce_guard\<close>) and handler. What is signed is authenticated, what is admitted is authentic and
    recent, and is not admitted again before its timestamp leaves the window.
  \<^item> \<open>Idempotency\<close> (\<open>idempotency/memory.store.ts\<close>, \<open>idempotency.middleware.ts\<close>): the store refines
    the pair-keyed contract \<open>spec_*\<close> (locale \<open>idempotency_store\<close>); claims exclude each other, a
    former holder cannot write, and a retry gets the recorded answer.
  \<^item> \<open>Circuit_Breaker\<close> (\<open>resilience/circuit-breaker.ts\<close>): the ring of buckets counts what a list of
    timestamped outcomes counts; the probes of a half-open episode are bounded in every reachable
    state of a breaker and the permits it has issued.
  \<^item> \<open>Bulkhead\<close> (\<open>resilience/bulkhead.ts\<close>): a fair semaphore with a bounded queue, time-outs and aborts.
  \<^item> \<open>Backoff\<close> (\<open>lib/backoff.ts\<close>, \<open>ws/token-bucket.ts\<close>, \<open>http/retry-after.ts\<close>): full jitter, the
    token bucket and its bound, reading \<open>Retry-After\<close>.
  \<^item> \<open>Csv_Parser\<close> (\<open>streams/csv-parser.ts\<close>): the parser that scans runs of characters reads like a
    reference that takes one code unit at a time, so chunk boundaries do not matter, also for what is
    pushed before an error; quoted records
    are read back; records stay within the limit.
  \<^item> \<open>Entity_Tag\<close> (\<open>http/entity-tag.ts\<close>, \<open>http/conditional.ts\<close>, \<open>concurrency/etag.ts\<close>,
    \<open>concurrency/precondition.ts\<close>): tag lists read back, \<open>If-Match\<close>, \<open>If-None-Match\<close> and
    \<open>If-Range\<close> compare as they should.
  \<^item> \<open>Byte_Range\<close> (\<open>http/range.ts\<close>, \<open>http/byte-range.ts\<close>, \<open>lib/response.ts\<close>): a range names its
    bytes, and every answer has the body its header fields announce.
  \<^item> \<open>Worker_Pool\<close> (\<open>workers/worker-pool.ts\<close>, \<open>pool.errors.ts\<close>, \<open>protocol.ts\<close>): calls, messages,
    time-outs, crashes, drain and terminate as steps on a heap of worker records. Every call settles
    once, threads and queue are bounded, no task waits beside an idle thread, and a drain ends with
    its promise resolved.
  \<^item> \<open>Container\<close> (\<open>lib/container/container.ts\<close>, \<open>container.errors.ts\<close>): registration, resolution,
    scopes and disposal. A singleton never depends on a scope, is shared, is disposed once in reverse
    order, and a cycle is reported.
  \<^item> \<open>Event_Stream\<close> (\<open>sse/frame.ts\<close>, \<open>event-log.ts\<close>, \<open>connection.ts\<close>, \<open>hub.ts\<close>,
    \<open>last-event-id.ts\<close>, \<open>sse.controller.ts\<close>): what the encoder writes the standard's parser reads;
    the ring of recent events answers a cursor like the whole history; a client that resumes misses
    nothing and repeats nothing.
  \<^item> \<open>Stream_Memory\<close> (\<open>redis/stream.memory.ts\<close>, \<open>stream.types.ts\<close>, \<open>stream.envelope.ts\<close>): streams with
    consumer groups. The port \<open>StreamCommands\<close> is a record of operations and its contract, over what
    one group sees of a stream, the locale \<open>stream_port\<close>; the store in memory is an interpretation.
  \<^item> \<open>Stream_Worker\<close> (\<open>redis/stream.worker.ts\<close>, \<open>parking-lot.ts\<close>, \<open>stream.publisher.ts\<close>): a tick is
    the tree of what it awaits; workers interleave at every command, handler and park hook, and a
    command may be lost before or after the server has executed it.
  \<^item> \<open>Stream_Delivery\<close>: over any \<open>stream_port\<close>, no published entry is lost and attempts are bounded;
    the two ways in which the documented protection fails (an entry that kills its process, and, on
    an example, a slow batch).
  \<^item> \<open>Http_Client\<close> (\<open>resilience/http-client.ts\<close>, \<open>deadlines.ts\<close>, \<open>dependency-client.ts\<close>): options and
    their checks, confinement to the base URL, deadlines, and the retry ladder cut at its awaits.
  \<^item> \<open>Client_Calls\<close>: the calls of one client over a shared breaker and bulkhead, interleaved with each
    other, the origin and callers that give up; slots, attempts and time of a call.
  \<^item> \<open>Client_Circuit\<close>: every step of a call is a step of \<open>Circuit_Breaker\<close> with the permit the call
    holds. A call is sent within its attempts, stays within the base URL, and ends in time; probes on
    the wire and calls in progress are bounded; too few requests cannot open the circuit. A response
    that is handed back when the circuit refuses the next attempt has already been read.
  \<^item> \<open>Content_Negotiation\<close> (\<open>http/accept.ts\<close>): the parser of \<open>Accept\<close> and the choice of an offer. The
    order of the ranges does not matter, the first best offer is chosen, and a media type with quoted
    parameters is read back.
  \<^item> \<open>Field_Encryption\<close> (\<open>crypto/envelope.ts\<close>, \<open>keyring.ts\<close>, \<open>field-cipher.ts\<close>): the stored layout, the
    key ring and the cipher over a parameter for AES-GCM. A value is read where it was written and
    nowhere else, rewrapping keeps it and frees the old key; the highest bits of the key id are not
    authenticated.
  \<^item> \<open>Response_Cache\<close> (\<open>lib/route-decorators/cache-store.ts\<close>, \<open>with-cache.ts\<close>, \<open>with-retry.ts\<close>): the store that
    forgets the least recently used answer, under the contract of a cache that may forget (locale
    \<open>response_store\<close>), and the decorator above it as interleaved calls. Runs are shared per key, answers
    are recent and were computed for the same key, which names one user, verb and URL unless a user id has a
    colon or is \<open>anonymous\<close>; a run in progress is not reached by clearing the store.

  \<^bold>\<open>How the parts meet.\<close> \<open>Auth_Service\<close> is proved against the locale \<open>refresh_store\<close> and takes its
  properties at the interpretation \<open>mem\<close> of \<open>Token_Store\<close>; the handler of \<open>Webhook_Signature\<close> uses
  the guard through \<open>nonce_guard\<close>; the step of \<open>Idempotency\<close> uses the store through
  \<open>idempotency_store\<close>; \<open>Byte_Range\<close> decides \<open>If-Range\<close> with \<open>Entity_Tag\<close>; \<open>Circuit_Breaker\<close> takes
  the jitter of its open window from \<open>Backoff\<close>; \<open>Client_Calls\<close> takes slots from \<open>Bulkhead\<close> and permits
  from \<open>Circuit_Breaker\<close> and rests on the invariants of both.

  \<^bold>\<open>Bounds and fuel.\<close> The only fuel is that of \<open>pump_loop\<close> in \<open>Worker_Pool\<close>, where \<open>pump\<close> and
  \<open>dispatch\<close> call each other: it is the number of waiting tasks, and \<open>pump_terminates\<close>
  shows that more turns change nothing and that the loop satisfies the equation of the source. The
  resolution of the container recurses over a path without repetitions in the registered tokens,
  which is its termination measure. Positions of a range are read exactly below \<open>10\<^sup>1\<^sup>5\<close>, which
  bounds the sizes in \<open>range_names_its_bytes\<close>; sequence numbers of events stay below
  \<open>Number.MAX_SAFE_INTEGER\<close>, beyond which the source refuses a cursor.

  \<^bold>\<open>Outside.\<close> SHA-256, HMAC and AES-GCM, \<open>jsonwebtoken\<close>, \<open>Date.parse\<close>, \<open>JSON\<close>, base 64, the structured clone
  algorithm, sockets and threads are parameters or events. Not modelled: what is SQL, Redis or
  another service (\<open>db\<close>, \<open>outbox\<close>, \<open>queue\<close>, the ioredis adapter, \<open>users\<close>, \<open>upload\<close>, the Postgres stores),
  declarative configuration and glue (\<open>config\<close>, routers, \<open>middleware\<close>, \<open>metrics\<close>, \<open>observability\<close>,
  \<open>health\<close>, \<open>shutdown\<close>, \<open>scripts\<close>), and \<open>security\<close>, \<open>logging\<close>, \<open>events\<close>, \<open>ingest\<close>,
  the WebSocket connection and the remaining small libraries.
\<close>

end
